(* ===== verification/Ldap_Prelude.thy ===== *)
theory Ldap_Prelude
  imports Main "HOL-Library.Word"
begin

text \<open>
  Shared vocabulary of the development: the machine types of the library's public
  headers (\<^verbatim>\<open>include/lber_types.h\<close>, with \<^verbatim>\<open>SIZEOF_LONG = 8\<close> and
  \<^verbatim>\<open>SIZEOF_INT = 4\<close> as configured in \<^verbatim>\<open>include/portable.h\<close>), the lemma
  collections, and generic facts on words, big-endian byte strings and lists that the
  component theories rely on.
\<close>

unbundle bit_operations_syntax

section \<open>Machine types\<close>

type_synonym byte = "8 word"
type_synonym ber_tag_t = "64 word"
type_synonym ber_len_t = "64 word"
type_synonym ber_uint_t = "32 word"

text \<open>
  A signed \<^verbatim>\<open>ber_int_t\<close> is the same 32 bits, read by \<open>sint\<close>.
\<close>

type_synonym ber_int_t = "32 word"

text \<open>
  The C allocator is an argument of every operation that allocates: \<open>ma n\<close> says
  whether a request for \<open>n\<close> octets is granted.
\<close>

type_synonym allocator = "nat \<Rightarrow> bool"

text \<open>
  \<^verbatim>\<open>ber_memalloc_x\<close> (\<^verbatim>\<open>liblber/memory.c\<close>) gives NULL for 0 octets without asking the allocator.
\<close>

definition ber_memalloc_x :: "allocator \<Rightarrow> nat \<Rightarrow> bool" where
  "ber_memalloc_x ma s \<longleftrightarrow> s \<noteq> 0 \<and> ma s"

lemma memalloc_granted: "\<forall>n. ma n \<Longrightarrow> ber_memalloc_x ma s \<longleftrightarrow> s \<noteq> 0"
  by (simp add: ber_memalloc_x_def)

text \<open>
  A value that does not fit is converted to a C \<^verbatim>\<open>int\<close> modulo \<open>2 ^ 32\<close>, as the compilers the
  library is built with do.
\<close>

definition c_to_int :: "int \<Rightarrow> int" where
  "c_to_int x = signed_take_bit 31 x"

text \<open>An \<^verbatim>\<open>int\<close> expression has no defined value when its result does not fit.\<close>

definition c_int :: "int \<Rightarrow> int option" where
  "c_int x = (if - (2 ^ 31) \<le> x \<and> x < 2 ^ 31 then Some x else None)"

named_theorems word_conv \<open>moving machine words to natural numbers\<close>
named_theorems layout \<open>what an operation leaves in a buffer\<close>

section \<open>Words\<close>

lemma unat_ucast_byte [word_conv]: "unat (ucast (w :: 64 word) :: byte) = unat w mod 256"
  by (simp add: unsigned_ucast_eq take_bit_eq_mod)

lemma unat_ucast_byte32 [word_conv]: "unat (ucast (w :: 32 word) :: byte) = unat w mod 256"
  by (simp add: unsigned_ucast_eq take_bit_eq_mod)

lemma unat_drop_bit8 [word_conv]: "unat (drop_bit 8 (w :: 'a::len word)) = unat w div 256"
proof -
  have "unat (drop_bit 8 w) = drop_bit 8 (take_bit LENGTH('a) (unat w))"
    by (rule unsigned_drop_bit_eq)
  also have "\<dots> = drop_bit 8 (unat w)" by (simp only: take_bit_nat_eq_self [OF unsigned_less])
  finally show ?thesis by (simp add: drop_bit_eq_div)
qed

lemma drop_bit8_eq_0_iff: "drop_bit 8 (w :: 'a::len word) = 0 \<longleftrightarrow> unat w < 256"
proof -
  have "drop_bit 8 w = 0 \<longleftrightarrow> unat (drop_bit 8 w) = 0"
    by (metis unsigned_word_eqI unsigned_0)
  also have "\<dots> \<longleftrightarrow> unat w < 256"
    unfolding unat_drop_bit8 by (rule div_eq_0_iff [THEN trans]) simp
  finally show ?thesis .
qed

lemma unat_drop_bit8_less:
  assumes "drop_bit 8 (w :: 'a::len word) \<noteq> 0"
  shows "unat (drop_bit 8 w) < unat w"
proof -
  have "256 \<le> unat w" using assms by (simp only: drop_bit8_eq_0_iff not_less)
  then show ?thesis unfolding unat_drop_bit8 by simp
qed

lemma ucast_byte_of_nat: "(ucast (w :: 64 word) :: byte) = of_nat (unat w mod 256)"
  by (metis unat_ucast_byte of_nat_unat ucast_id)

lemma unat_byte_less [simp]: "unat (b :: byte) < 256"
  using unsigned_less [of b] by simp

lemma unat_of_nat_byte [word_conv]: "n < 256 \<Longrightarrow> unat (of_nat n :: byte) = n"
  by (simp add: unsigned_of_nat take_bit_nat_eq_self)

lemma unat_of_nat64 [word_conv]: "n < 2 ^ 64 \<Longrightarrow> unat (of_nat n :: 64 word) = n"
  by (simp add: unsigned_of_nat take_bit_nat_eq_self)

lemma unat_of_nat32 [word_conv]: "n < 2 ^ 32 \<Longrightarrow> unat (of_nat n :: 32 word) = n"
  by (simp add: unsigned_of_nat take_bit_nat_eq_self)

lemma of_nat32_eq_0: "n < 2 ^ 32 \<Longrightarrow> (of_nat n :: 32 word) = 0 \<longleftrightarrow> n = 0"
  using unat_of_nat32 [of n] by (auto simp del: unat_eq_0)

lemma ucast_of_nat32: "n < 2 ^ 32 \<Longrightarrow> (ucast (of_nat n :: 32 word) :: 64 word) = of_nat n"
proof -
  assume "n < 2 ^ 32"
  then have "(of_nat n :: 64 word) = of_nat (unat (of_nat n :: 32 word))" by (simp only: unat_of_nat32)
  then show ?thesis by simp
qed

text \<open>Shifting in an octet: the two operands of the \<open>OR\<close> share no bit.\<close>

lemma push_or_byte:
  "push_bit 8 (w :: 'a::len word) OR ucast (b :: byte) = w * 256 + ucast b"
proof -
  have "\<not> bit (push_bit 8 w) n \<or> \<not> bit (ucast b :: 'a word) n" for n
    by (auto simp: bit_push_bit_iff bit_ucast_iff dest: bit_imp_le_length)
  then have "push_bit 8 w + ucast b = push_bit 8 w OR (ucast b :: 'a word)"
    by (rule disjunctive_add)
  then show ?thesis by (simp add: push_bit_eq_mult)
qed

lemma unat_ucast_of_byte [word_conv]: "unat (ucast (b :: byte) :: 64 word) = unat b"
  by (simp only: unsigned_ucast_eq) (rule take_bit_nat_eq_self, rule less_trans [OF unat_byte_less], simp)

lemma ucast_ucast_byte: "unat (w :: 64 word) < 256 \<Longrightarrow> ucast (ucast w :: byte) = w"
  by (metis of_nat_unat ucast_id unat_ucast_of_byte unat_ucast_byte mod_less)

lemma unat_shift_in: "unat ((w :: 64 word) * 256 + ucast (b :: byte)) \<le> unat w * 256 + unat b"
proof -
  have "w * 256 + ucast b = of_nat (unat w * 256 + unat b)" by simp
  then show ?thesis by (simp add: unsigned_of_nat del: of_nat_add of_nat_mult)
qed

text \<open>The sign bit of a 32-bit integer.\<close>

lemma sless_0_iff_bit: "(w :: 32 word) <s 0 \<longleftrightarrow> bit w 31"
  using bit_last_iff [of w] by (simp add: word_sless_alt)

lemma unat_less_if_sign_clear:
  assumes "\<not> bit (w :: 32 word) 31"
  shows "unat w < 2 ^ 31"
proof -
  have "take_bit 31 w = w"
  proof (rule bit_word_eqI)
    fix n assume "n < LENGTH(32)"
    then show "bit (take_bit 31 w) n = bit w n"
      using assms by (cases "n = 31") (auto simp: bit_take_bit_iff)
  qed
  then have "unat w = take_bit 31 (unat w)"
    by (metis unsigned_take_bit_eq)
  then show ?thesis by (metis take_bit_nat_less_exp)
qed

section \<open>C integers\<close>

lemma c_to_int_id [word_conv]: "- (2 ^ 31) \<le> x \<Longrightarrow> x < 2 ^ 31 \<Longrightarrow> c_to_int x = x"
  unfolding c_to_int_def by (rule signed_take_bit_int_eq_self)

lemma c_to_int_nat [word_conv]: "n < 2 ^ 31 \<Longrightarrow> c_to_int (int n) = int n"
  by (rule c_to_int_id) simp_all

lemma c_to_int_range: "- (2 ^ 31) \<le> c_to_int x" "c_to_int x < 2 ^ 31"
  unfolding c_to_int_def by (rule signed_take_bit_int_greater_eq_minus_exp signed_take_bit_int_less_exp)+

lemma c_to_int_add: "c_to_int (c_to_int x + y) = c_to_int (x + y)"
  unfolding c_to_int_def by (metis signed_take_bit_add signed_take_bit_signed_take_bit min.idem)

lemma c_int_fits: "- (2 ^ 31) \<le> x \<Longrightarrow> x < 2 ^ 31 \<Longrightarrow> c_int x = Some x"
  by (simp add: c_int_def)

lemma sint_of_nat32: "n < 2 ^ 31 \<Longrightarrow> sint (of_nat n :: 32 word) = int n"
  by (simp add: signed_of_nat signed_take_bit_int_eq_self)

section \<open>Big-endian octet strings\<close>

text \<open>The value of an octet string read most significant octet first.\<close>

definition be_val :: "byte list \<Rightarrow> nat" where
  "be_val bs = foldl (\<lambda>n b. n * 256 + unat b) 0 bs"

lemma be_val_Nil [simp]: "be_val [] = 0"
  by (simp add: be_val_def)

lemma be_val_snoc [simp]: "be_val (bs @ [b]) = be_val bs * 256 + unat b"
  by (simp add: be_val_def)

lemma be_val_single [simp]: "be_val [b] = unat b"
  by (simp add: be_val_def)

lemma be_val_less: "be_val bs < 256 ^ length bs"
proof (induction bs rule: rev_induct)
  case Nil
  show ?case by simp
next
  case (snoc b bs)
  have "be_val (bs @ [b]) < be_val bs * 256 + 256"
    using unat_byte_less [of b] by simp
  also have "\<dots> = (be_val bs + 1) * 256" by simp
  also have "\<dots> \<le> 256 ^ length bs * 256"
    using snoc.IH by (intro mult_le_mono1) simp
  finally show ?case by simp
qed

text \<open>The minimal big-endian octets of a natural number (one octet for 0).\<close>

fun be_bytes :: "nat \<Rightarrow> byte list" where
  "be_bytes n = (if n < 256 then [of_nat n] else be_bytes (n div 256) @ [of_nat (n mod 256)])"

declare be_bytes.simps [simp del]

lemma be_bytes_nonempty [simp]: "be_bytes n \<noteq> []"
  by (subst be_bytes.simps) simp

lemma length_be_bytes_pos [simp]: "0 < length (be_bytes n)"
  by simp

lemma be_bytes_small: "n < 256 \<Longrightarrow> be_bytes n = [of_nat n]"
  by (subst be_bytes.simps) simp

lemma be_bytes_big: "256 \<le> n \<Longrightarrow> be_bytes n = be_bytes (n div 256) @ [of_nat (n mod 256)]"
  by (subst be_bytes.simps) simp

lemma be_val_be_bytes [simp]: "be_val (be_bytes n) = n"
proof (induction n rule: be_bytes.induct)
  case (1 n)
  show ?case
  proof (cases "n < 256")
    case True
    then show ?thesis by (simp add: be_bytes_small unat_of_nat_byte)
  next
    case False
    then have "be_val (be_bytes (n div 256)) = n div 256" using 1 by simp
    moreover have "unat (of_nat (n mod 256) :: byte) = n mod 256"
      by (rule unat_of_nat_byte) simp
    ultimately show ?thesis using False by (simp add: be_bytes_big)
  qed
qed

lemma length_be_bytes_le: "0 < k \<Longrightarrow> n < 256 ^ k \<Longrightarrow> length (be_bytes n) \<le> k"
proof (induction k arbitrary: n)
  case 0
  then show ?case by simp
next
  case (Suc k)
  show ?case
  proof (cases "n < 256")
    case True
    then show ?thesis by (simp add: be_bytes_small)
  next
    case False
    then have "k \<noteq> 0" using Suc.prems by (cases k) auto
    moreover have "n div 256 < 256 ^ k"
      using Suc.prems(2) by (simp add: less_mult_imp_div_less mult.commute)
    ultimately have "length (be_bytes (n div 256)) \<le> k" using Suc.IH by simp
    with False show ?thesis by (simp add: be_bytes_big)
  qed
qed

lemma be_bytes_inj: "be_bytes m = be_bytes n \<Longrightarrow> m = n"
  by (metis be_val_be_bytes)

section \<open>Lists\<close>

text \<open>An octet of a C string; what lies behind the modelled octets reads as 0.\<close>

definition octet_at :: "byte list \<Rightarrow> nat \<Rightarrow> byte" where
  "octet_at p i = (if i < length p then p ! i else 0)"

text \<open>\<^verbatim>\<open>memcpy\<close> of \<open>bs\<close> into a buffer at offset \<open>i\<close>.\<close>

definition memcpy :: "'a list \<Rightarrow> nat \<Rightarrow> 'a list \<Rightarrow> 'a list" where
  "memcpy buf i bs = take i buf @ bs @ drop (i + length bs) buf"

lemma length_memcpy [simp]: "i + length bs \<le> length buf \<Longrightarrow> length (memcpy buf i bs) = length buf"
  by (simp add: memcpy_def)

lemma take_memcpy [simp]: "i \<le> length buf \<Longrightarrow> take (i + length bs) (memcpy buf i bs) = take i buf @ bs"
  by (simp add: memcpy_def)

lemma take_memcpy_before [simp]: "j \<le> i \<Longrightarrow> i \<le> length buf \<Longrightarrow> take j (memcpy buf i bs) = take j buf"
  by (simp add: memcpy_def min_def)

lemma memcpy_Nil [simp]: "memcpy buf i [] = buf"
  by (simp add: memcpy_def)

lemma memcpy_at:
  assumes "i = length pre" and "length bs = length old"
  shows "memcpy (pre @ old @ post) i bs = pre @ bs @ post"
  using assms by (simp add: memcpy_def)

lemma take_eq_prefix:
  assumes "take n xs = as @ bs" and "n \<le> length xs"
  shows "n = length as + length bs"
  using assms by (metis length_append length_take min.absorb2)

end
