(* ===== verification/C_Strings.thy ===== *)
theory C_Strings
  imports Ldap_Prelude
begin

text \<open>
  What the library uses of the string functions of C, in the C locale: \<^verbatim>\<open>tolower\<close>, \<^verbatim>\<open>strcasecmp\<close>, \<^verbatim>\<open>strchr\<close>.
  A C string is the list of its octets; the octet behind them is 0.
\<close>

section \<open>Comparing names\<close>

definition c_head :: "byte list \<Rightarrow> byte" where
  "c_head s = (case s of [] \<Rightarrow> 0 | b # _ \<Rightarrow> b)"

definition c_tolower :: "byte \<Rightarrow> byte" where
  "c_tolower b = (if 65 \<le> b \<and> b \<le> 90 then b + 32 else b)"

lemma c_tolower_0: "c_tolower b = 0 \<longleftrightarrow> b = 0"
proof -
  have "b + 32 \<noteq> 0" if "65 \<le> b" "b \<le> 90"
  proof
    assume "b + 32 = 0"
    then have "b = - 32" by (metis add.commute add_eq_0_iff)
    then show False using that by simp
  qed
  then show ?thesis by (auto simp: c_tolower_def)
qed

text \<open>\<^verbatim>\<open>strcasecmp\<close> in the C locale.\<close>

function strcasecmp :: "byte list \<Rightarrow> byte list \<Rightarrow> int" where
  "strcasecmp a b =
     (let x = c_tolower (c_head a); y = c_tolower (c_head b)
      in if x \<noteq> y then uint x - uint y
         else if x = 0 then 0 else strcasecmp (tl a) (tl b))"
  by pat_completeness auto
termination
proof (relation "measure (\<lambda>(a, b). length a)")
  fix a b :: "byte list" and x y
  assume "x = c_tolower (c_head a)" and "x \<noteq> 0"
  then have "a \<noteq> []" by (auto simp: c_head_def c_tolower_0)
  then show "((tl a, tl b), (a, b)) \<in> measure (\<lambda>(a, b). length a)" by simp
qed simp

declare strcasecmp.simps [simp del]

section \<open>Finding a character\<close>

text \<open>\<^verbatim>\<open>strchr\<close>: the text before the first occurrence and the text behind it; \<open>None\<close> is NULL.\<close>

fun c_strchr :: "byte \<Rightarrow> byte list \<Rightarrow> (byte list \<times> byte list) option" where
  "c_strchr ch [] = None"
| "c_strchr ch (c # s) =
     (if c = ch then Some ([], s)
      else case c_strchr ch s of None \<Rightarrow> None | Some (a, b) \<Rightarrow> Some (c # a, b))"

lemma c_strchr_found: "ch \<notin> set a \<Longrightarrow> c_strchr ch (a @ ch # b) = Some (a, b)"
  by (induction a) auto

lemma c_strchr_none: "ch \<notin> set a \<Longrightarrow> c_strchr ch a = None"
  by (induction a) auto

end
