(* ===== verification/Ber_Io.thy ===== *)
theory Ber_Io
  imports Ldap_Prelude
begin

text \<open>
  The \<^verbatim>\<open>BerElement\<close> of \<^verbatim>\<open>liblber/lber-int.h\<close> and the buffer operations of
  \<^verbatim>\<open>liblber/io.c\<close>: growing, writing, reading, resetting and flattening the buffer.

  The record keeps the fields of \<^verbatim>\<open>struct berelement\<close>.  \<open>ber_buf\<close> is the allocated
  memory itself; the C pointers into it (\<^verbatim>\<open>ber_ptr\<close>, \<^verbatim>\<open>ber_end\<close>, \<^verbatim>\<open>ber_sos_ptr\<close>,
  \<^verbatim>\<open>ber_rwptr\<close>) are offsets from its start, and a NULL pointer that the code tests for is
  \<open>None\<close>.  A NULL \<^verbatim>\<open>ber_buf\<close> is the empty buffer.  \<^verbatim>\<open>ber_sos_inner\<close> is a second
  name of \<^verbatim>\<open>ber_len\<close>, as in the header.  The debug level and the memory context are
  not kept: they feed the log and the allocator only.
\<close>

section \<open>The element\<close>

record berelement =
  ber_valid :: nat
  ber_options :: "16 word"
  ber_tag :: ber_tag_t
  ber_len :: ber_len_t
  ber_usertag :: ber_tag_t
  ber_buf :: "byte list"
  ber_ptr :: nat
  ber_end :: nat
  ber_sos_ptr :: "nat option"
  ber_rwptr :: "nat option"

abbreviation (input) LBER_DEFAULT :: ber_tag_t where "LBER_DEFAULT \<equiv> - 1"
abbreviation (input) LBER_USE_DER :: "16 word" where "LBER_USE_DER \<equiv> 1"
abbreviation (input) LBER_UNINITIALIZED :: nat where "LBER_UNINITIALIZED \<equiv> 0"
abbreviation (input) LBER_VALID_BERELEMENT :: nat where "LBER_VALID_BERELEMENT \<equiv> 2"
abbreviation (input) LBER_EXBUFSIZ :: ber_len_t where "LBER_EXBUFSIZ \<equiv> 4060"

definition ber_pvt_ber_remaining :: "berelement \<Rightarrow> int" where
  "ber_pvt_ber_remaining ber = int (ber_end ber) - int (ber_ptr ber)"

definition ber_pvt_ber_total :: "berelement \<Rightarrow> nat" where
  "ber_pvt_ber_total ber = ber_end ber"

definition ber_pvt_ber_write :: "berelement \<Rightarrow> nat" where
  "ber_pvt_ber_write ber = ber_ptr ber"

text \<open>
  An octet of the buffer.  The buffers the library decodes are allocated one octet longer
  than their data and end in \<^verbatim>\<open>'\0'\<close> (\<^verbatim>\<open>ber_get_next\<close>, \<^verbatim>\<open>ber_flatten2\<close>), so the octet
  just after the modelled ones reads as 0.
\<close>

definition ber_at :: "berelement \<Rightarrow> nat \<Rightarrow> byte" where
  "ber_at ber i = (if i < length (ber_buf ber) then ber_buf ber ! i else 0)"

section \<open>Allocation and initialisation\<close>

text \<open>
  The element that \<^verbatim>\<open>ber_alloc_t\<close> returns when \<^verbatim>\<open>LBER_CALLOC\<close> is granted.  The NULL result is modelled in the caller that
  tests for it, \<^verbatim>\<open>ldap_alloc_ber_with_options\<close>; \<^verbatim>\<open>ber_dup\<close> has the same result and no caller in the model.
\<close>

definition ber_alloc_t :: "16 word \<Rightarrow> berelement" where
  "ber_alloc_t options =
     \<lparr>ber_valid = LBER_VALID_BERELEMENT, ber_options = options, ber_tag = LBER_DEFAULT,
      ber_len = 0, ber_usertag = 0, ber_buf = [], ber_ptr = 0, ber_end = 0,
      ber_sos_ptr = None, ber_rwptr = None\<rparr>"

definition ber_alloc :: berelement where
  "ber_alloc = ber_alloc_t 0"

definition der_alloc :: berelement where
  "der_alloc = ber_alloc_t LBER_USE_DER"

text \<open>
  \<^verbatim>\<open>ber_init2\<close> points the element at the caller's octets, if there are any.  The conversion \<^verbatim>\<open>(char) options\<close> is to a
  signed \<^verbatim>\<open>char\<close>, as on the platforms the library is built for.
\<close>

definition ber_init2 :: "byte list option \<Rightarrow> 16 word \<Rightarrow> berelement" where
  "ber_init2 bv options =
     (let ber = ber_alloc_t (signed_take_bit 7 options)
      in case bv of
           None \<Rightarrow> ber
         | Some bytes \<Rightarrow> ber\<lparr>ber_buf := bytes, ber_ptr := 0, ber_end := length bytes\<rparr>)"

definition ber_init_w_nullc :: "16 word \<Rightarrow> berelement" where
  "ber_init_w_nullc options = ber_init2 None options"

definition ber_free_buf :: "berelement \<Rightarrow> berelement" where
  "ber_free_buf ber = ber\<lparr>ber_buf := [], ber_sos_ptr := None, ber_valid := LBER_UNINITIALIZED\<rparr>"

definition ber_dup :: "berelement \<Rightarrow> berelement" where
  "ber_dup ber = ber"

section \<open>Growing and writing\<close>

text \<open>\<^verbatim>\<open>realloc\<close> keeps the old octets; the model reads the fresh ones as 0.\<close>

definition resize :: "nat \<Rightarrow> byte list \<Rightarrow> byte list" where
  "resize n buf = take n (buf @ replicate n 0)"

definition ber_realloc :: "allocator \<Rightarrow> berelement \<Rightarrow> ber_len_t \<Rightarrow> int \<times> berelement" where
  "ber_realloc ma ber len0 =
     (let len = len0 + 1
      in if len = 0 then (-1, ber)
         else let total = of_nat (ber_pvt_ber_total ber)
                            + (if len < LBER_EXBUFSIZ then LBER_EXBUFSIZ else len)
              in if total < len \<or> total > (-1) div 2 then (-1, ber)
                 else if \<not> ma (unat total) then (-1, ber)
                 else (0, ber\<lparr>ber_buf := resize (unat total) (ber_buf ber),
                              ber_end := unat total\<rparr>))"

text \<open>The write cursor \<^verbatim>\<open>*p\<close>: inside an open sequence \<^verbatim>\<open>ber_sos_ptr\<close>, else \<^verbatim>\<open>ber_ptr\<close>.\<close>

definition ber_wcur :: "berelement \<Rightarrow> nat" where
  "ber_wcur ber = (case ber_sos_ptr ber of None \<Rightarrow> ber_ptr ber | Some p \<Rightarrow> p)"

definition ber_set_wcur :: "nat \<Rightarrow> berelement \<Rightarrow> berelement" where
  "ber_set_wcur n ber =
     (case ber_sos_ptr ber of None \<Rightarrow> ber\<lparr>ber_ptr := n\<rparr> | Some p \<Rightarrow> ber\<lparr>ber_sos_ptr := Some n\<rparr>)"

text \<open>
  The guard shared by \<^verbatim>\<open>ber_write\<close> and \<^verbatim>\<open>ber_start_seqorset\<close>: grow the buffer when
  \<open>len\<close> octets do not fit behind the cursor.  The pointer difference is cast to an unsigned
  length, as in the code.
\<close>

definition ber_ensure :: "allocator \<Rightarrow> berelement \<Rightarrow> ber_len_t \<Rightarrow> int \<times> berelement" where
  "ber_ensure ma ber len =
     (if len > of_int (int (ber_end ber) - int (ber_wcur ber)) then ber_realloc ma ber len
      else (0, ber))"

definition ber_write :: "allocator \<Rightarrow> berelement \<Rightarrow> byte list \<Rightarrow> int \<Rightarrow> int \<times> berelement" where
  "ber_write ma ber buf zero =
     (if zero \<noteq> 0 then (-1, ber)
      else case ber_ensure ma ber (of_nat (length buf)) of
             (rc, ber1) \<Rightarrow>
               if rc \<noteq> 0 then (-1, ber1)
               else let p = ber_wcur ber1;
                        ber2 = ber1\<lparr>ber_buf := memcpy (ber_buf ber1) p buf\<rparr>
                    in (int (length buf), ber_set_wcur (p + length buf) ber2))"

section \<open>Reading, resetting, flattening\<close>

definition ber_skip_data :: "berelement \<Rightarrow> ber_len_t \<Rightarrow> nat \<times> berelement" where
  "ber_skip_data ber len =
     (let nleft = of_int (ber_pvt_ber_remaining ber) :: ber_len_t;
          actuallen = unat (if nleft < len then nleft else len);
          p = ber_ptr ber + actuallen
      in (actuallen, ber\<lparr>ber_ptr := p, ber_tag := ucast (ber_at ber p)\<rparr>))"

definition ber_read :: "berelement \<Rightarrow> ber_len_t \<Rightarrow> nat \<times> byte list \<times> berelement" where
  "ber_read ber len =
     (let nleft = of_int (ber_pvt_ber_remaining ber) :: ber_len_t;
          actuallen = unat (if nleft < len then nleft else len)
      in (actuallen, take actuallen (drop (ber_ptr ber) (ber_buf ber)),
          ber\<lparr>ber_ptr := ber_ptr ber + actuallen\<rparr>))"

definition ber_reset :: "berelement \<Rightarrow> bool \<Rightarrow> berelement" where
  "ber_reset ber was_writing =
     (if was_writing then ber\<lparr>ber_end := ber_ptr ber, ber_ptr := 0, ber_rwptr := None\<rparr>
      else ber\<lparr>ber_ptr := ber_end ber, ber_rwptr := None\<rparr>)"

definition ber_rewind :: "berelement \<Rightarrow> berelement" where
  "ber_rewind ber =
     ber\<lparr>ber_rwptr := None, ber_sos_ptr := None, ber_end := ber_ptr ber, ber_ptr := 0\<rparr>"

definition ber_start :: "berelement \<Rightarrow> byte list" where
  "ber_start ber = ber_buf ber"

definition ber_len_total :: "berelement \<Rightarrow> nat" where
  "ber_len_total ber = ber_end ber"

definition ber_ptrlen :: "berelement \<Rightarrow> nat" where
  "ber_ptrlen ber = ber_ptr ber"

definition ber_remaining :: "berelement \<Rightarrow> int" where
  "ber_remaining ber = ber_pvt_ber_remaining ber"

text \<open>
  \<^verbatim>\<open>ber_init\<close> copies the caller's octets into a fresh element and rewinds it;
  \<open>None\<close> is the NULL it returns when the copy fails.
\<close>

definition ber_init :: "allocator \<Rightarrow> byte list \<Rightarrow> berelement option" where
  "ber_init ma bv =
     (case ber_write ma (ber_alloc_t 0) bv 0 of
        (rc, ber) \<Rightarrow>
          if (of_int rc :: ber_len_t) \<noteq> of_nat (length bv) then None
          else Some (ber_reset ber True))"

text \<open>
  \<^verbatim>\<open>ber_flatten2\<close> stores a terminating \<^verbatim>\<open>'\0'\<close>: into a fresh copy when \<open>alloc\<close> is set,
  else into the element's own buffer behind the last octet.  A store behind the allocated
  buffer is \<open>Inl (Overrun i)\<close>.  The result is the return code, the berval and the element.
\<close>

datatype mem_error = Overrun nat

definition ber_flatten2 ::
  "allocator \<Rightarrow> berelement option \<Rightarrow> bool \<Rightarrow> mem_error + (int \<times> byte list \<times> berelement option)" where
  "ber_flatten2 ma ber0 alloc =
     (case ber0 of
        None \<Rightarrow> Inr (0, [], None)
      | Some ber \<Rightarrow>
          if ber_sos_ptr ber \<noteq> None then Inr (-1, [], Some ber)
          else let len = ber_pvt_ber_write ber
               in if alloc then
                    (if ma (len + 1) then Inr (0, take len (ber_buf ber), Some ber)
                     else Inr (-1, [], Some ber))
                  else if ber_buf ber \<noteq> [] then
                    (if len < length (ber_buf ber)
                     then Inr (0, take len (ber_buf ber), Some (ber\<lparr>ber_buf := (ber_buf ber)[len := 0]\<rparr>))
                     else Inl (Overrun len))
                  else Inr (0, [], Some ber))"

text \<open>\<^verbatim>\<open>ber_flatten\<close> allocates the 16 octets of a \<^verbatim>\<open>struct berval\<close> first.\<close>

definition ber_flatten :: "allocator \<Rightarrow> berelement \<Rightarrow> int \<times> byte list option" where
  "ber_flatten ma ber =
     (if \<not> ma 16 then (-1, None)
      else case ber_flatten2 ma (Some ber) True of
             Inl _ \<Rightarrow> (-1, None)
           | Inr (rc, bv, _) \<Rightarrow> if rc = -1 then (rc, None) else (rc, Some bv))"

section \<open>Lemmas\<close>

text \<open>
  A writable element: the buffer ends at \<^verbatim>\<open>ber_end\<close>, the cursor is inside it, and an open
  sequence starts behind \<^verbatim>\<open>ber_ptr\<close>.
\<close>

definition ber_wf :: "berelement \<Rightarrow> bool" where
  "ber_wf ber \<longleftrightarrow> length (ber_buf ber) = ber_end ber \<and> ber_wcur ber \<le> ber_end ber
                 \<and> ber_end ber < 2 ^ 63 \<and> ber_ptr ber \<le> ber_wcur ber"

text \<open>What has been written so far, unfinished sequences included.\<close>

definition ber_written :: "berelement \<Rightarrow> byte list" where
  "ber_written ber = take (ber_wcur ber) (ber_buf ber)"

text \<open>Two elements that differ in buffer, end and cursor position only.\<close>

definition same_frame :: "berelement \<Rightarrow> berelement \<Rightarrow> bool" where
  "same_frame a b \<longleftrightarrow> ber_valid a = ber_valid b \<and> ber_options a = ber_options b
     \<and> ber_tag a = ber_tag b \<and> ber_len a = ber_len b \<and> ber_usertag a = ber_usertag b
     \<and> ber_rwptr a = ber_rwptr b \<and> (ber_sos_ptr a = None \<longleftrightarrow> ber_sos_ptr b = None)
     \<and> (ber_sos_ptr a \<noteq> None \<longrightarrow> ber_ptr a = ber_ptr b)"

text \<open>
  Enough memory for \<open>k\<close> more octets: the allocator grants everything and the buffer stays
  below the 2 GB that the \<^verbatim>\<open>int\<close> results of the encoder can express.
\<close>

definition affordable :: "allocator \<Rightarrow> berelement \<Rightarrow> nat \<Rightarrow> bool" where
  "affordable ma ber k \<longleftrightarrow> (\<forall>n. ma n) \<and> ber_end ber + k < 2 ^ 31"

lemma affordable_mono: "affordable ma ber k \<Longrightarrow> ber_end ber' + j \<le> ber_end ber + k \<Longrightarrow> affordable ma ber' j"
  by (simp add: affordable_def)

lemma length_resize [simp]: "length (resize n buf) = n"
  by (simp add: resize_def)

lemma take_resize: "k \<le> n \<Longrightarrow> k \<le> length buf \<Longrightarrow> take k (resize n buf) = take k buf"
  by (simp add: resize_def min_def)

lemma wf_alloc [simp]: "ber_wf (ber_alloc_t opt)" and written_alloc [simp]: "ber_written (ber_alloc_t opt) = []"
  by (simp_all add: ber_wf_def ber_written_def ber_wcur_def ber_alloc_t_def)

lemma max_slen: "((-1) div 2 :: 64 word) = of_nat (2 ^ 63 - 1)"
  by simp

lemma unat_max_slen: "unat ((-1) div 2 :: 64 word) = 2 ^ 63 - 1"
  by simp

lemma total_bound:
  assumes "t \<le> ((-1) div 2 :: 64 word)"
  shows "unat t < 2 ^ 63"
  using assms by (simp add: word_le_nat_alt)

text \<open>A successful \<^verbatim>\<open>realloc\<close> has room for the request and for one octet more.\<close>

lemma ber_realloc_ok:
  assumes "ber_realloc ma ber len = (0, ber')" and "ber_end ber < 2 ^ 63"
  shows "\<exists>t. ber' = ber\<lparr>ber_buf := resize t (ber_buf ber), ber_end := t\<rparr>
             \<and> ber_end ber + unat len < t \<and> t \<le> ber_end ber + (unat len + 4061) \<and> t < 2 ^ 63"
proof -
  define l where "l = len + 1"
  define inc where "inc = (if l < LBER_EXBUFSIZ then LBER_EXBUFSIZ else l)"
  define total where "total = of_nat (ber_end ber) + inc"
  from assms(1) have l0: "l \<noteq> 0" and ge: "\<not> total < l" and max: "\<not> total > (-1) div 2"
    and ber': "ber' = ber\<lparr>ber_buf := resize (unat total) (ber_buf ber), ber_end := unat total\<rparr>"
    by (auto simp: ber_realloc_def ber_pvt_ber_total_def Let_def l_def inc_def total_def
             split: if_splits)
  have ul: "unat l = unat len + 1"
    using l0 unfolding l_def by (metis add.commute unatSuc unat_1 One_nat_def plus_1_eq_Suc)
  have inc_ge: "unat l \<le> unat inc" "unat inc \<le> unat l + 4060"
    by (auto simp: inc_def word_less_nat_alt word_le_nat_alt)
  have ue: "unat (of_nat (ber_end ber) :: 64 word) = ber_end ber"
    using assms(2) by (simp add: unat_of_nat64)
  have ut: "unat total = (ber_end ber + unat inc) mod 2 ^ 64"
    unfolding total_def by (simp add: unat_word_ariths ue)
  have t63: "unat total < 2 ^ 63" using max by (intro total_bound) (simp add: not_less)
  have nowrap: "unat total = ber_end ber + unat inc"
  proof (rule ccontr)
    assume "unat total \<noteq> ber_end ber + unat inc"
    then have "2 ^ 64 \<le> ber_end ber + unat inc" using ut by (metis mod_less not_le)
    moreover have "unat inc < 2 ^ 64" using unsigned_less [of inc] by simp
    ultimately have "unat total + 2 ^ 64 = ber_end ber + unat inc"
      using ut assms(2) by (simp add: mod_if split: if_splits)
    then have "unat total < unat inc" using assms(2) by simp
    moreover have "inc = l"
      using \<open>2 ^ 64 \<le> ber_end ber + unat inc\<close> assms(2) by (auto simp: inc_def split: if_splits)
    ultimately show False using ge by (simp add: word_less_nat_alt)
  qed
  show ?thesis
    using ber' nowrap inc_ge ul t63 by (intro exI [of _ "unat total"]) auto
qed

lemma ber_realloc_result: "fst (ber_realloc ma ber len) = 0 \<or> ber_realloc ma ber len = (-1, ber)"
  by (auto simp: ber_realloc_def Let_def)

lemma ber_realloc_affordable:
  assumes "affordable ma ber (unat len + 4061)"
  shows "fst (ber_realloc ma ber len) = 0"
proof -
  have small: "ber_end ber + unat len + 4061 < 2 ^ 31" and ma: "\<And>n. ma n"
    using assms by (simp_all add: affordable_def)
  have ul: "unat (len + 1) = unat len + 1"
    using small by (simp add: unat_word_ariths)
  then have l0: "len + 1 \<noteq> 0" by (metis add_is_0 one_neq_zero unsigned_0)
  define total where "total = of_nat (ber_end ber) + (if len + 1 < LBER_EXBUFSIZ then LBER_EXBUFSIZ else len + 1)"
  have ue: "unat (of_nat (ber_end ber) :: 64 word) = ber_end ber"
    using small by (intro unat_of_nat64) simp
  have ut: "unat total = ber_end ber + unat (if len + 1 < LBER_EXBUFSIZ then LBER_EXBUFSIZ else len + 1)"
    unfolding total_def using small ul by (subst unat_word_ariths) (simp add: ue)
  have "\<not> total < len + 1" and "\<not> total > (-1) div 2"
    using ut ul small by (simp_all add: word_less_nat_alt)
  then show ?thesis
    using l0 ma by (simp add: ber_realloc_def ber_pvt_ber_total_def Let_def total_def)
qed

text \<open>
  Outcome of the shared guard: either nothing changed, or the buffer was extended and the
  request fits behind the cursor.
\<close>

lemma ber_ensure_cases:
  assumes wf: "ber_wf ber"
  shows "(ber_ensure ma ber len = (-1, ber) \<and> \<not> affordable ma ber (unat len + 4061))
       \<or> (\<exists>ber'. ber_ensure ma ber len = (0, ber') \<and> ber_wf ber' \<and> same_frame ber' ber
            \<and> ber_end ber' \<le> ber_end ber + (unat len + 4061)
            \<and> ber_ptr ber' = ber_ptr ber \<and> ber_sos_ptr ber' = ber_sos_ptr ber
            \<and> ber_written ber' = ber_written ber \<and> ber_wcur ber' = ber_wcur ber
            \<and> ber_wcur ber + unat len \<le> ber_end ber')"
proof (cases "len > of_int (int (ber_end ber) - int (ber_wcur ber))")
  case False
  have le: "ber_wcur ber \<le> ber_end ber" "ber_end ber < 2 ^ 63"
    using wf by (simp_all add: ber_wf_def)
  then have "unat (of_int (int (ber_end ber) - int (ber_wcur ber)) :: 64 word)
               = ber_end ber - ber_wcur ber"
    by (simp flip: of_nat_diff add: unat_of_nat64)
  then have "unat len \<le> ber_end ber - ber_wcur ber"
    using False by (simp add: word_less_nat_alt)
  then show ?thesis
    using False wf le by (auto simp: ber_ensure_def same_frame_def)
next
  case True
  then have eq: "ber_ensure ma ber len = ber_realloc ma ber len" by (simp add: ber_ensure_def)
  show ?thesis
  proof (cases "fst (ber_realloc ma ber len) = 0")
    case False
    then show ?thesis
      using ber_realloc_result [of ma ber len] ber_realloc_affordable [of ma ber len] eq by auto
  next
    case True
    then obtain ber' where r: "ber_realloc ma ber len = (0, ber')" by (metis prod.collapse)
    from wf have e: "ber_end ber < 2 ^ 63" by (simp add: ber_wf_def)
    obtain t where b: "ber' = ber\<lparr>ber_buf := resize t (ber_buf ber), ber_end := t\<rparr>"
      and t: "ber_end ber + unat len < t" "t \<le> ber_end ber + (unat len + 4061)" "t < 2 ^ 63"
      using ber_realloc_ok [OF r e] by blast
    have "ber_wcur ber' = ber_wcur ber" by (simp add: b ber_wcur_def split: option.splits)
    then show ?thesis
      using wf t by (auto simp: eq r b ber_wf_def same_frame_def ber_written_def take_resize)
  qed
qed

lemma wcur_set_wcur [simp]: "ber_wcur (ber_set_wcur n ber) = n"
  by (simp add: ber_wcur_def ber_set_wcur_def split: option.splits)

lemma set_wcur_fields [simp]:
  "ber_buf (ber_set_wcur n ber) = ber_buf ber" "ber_end (ber_set_wcur n ber) = ber_end ber"
  "ber_options (ber_set_wcur n ber) = ber_options ber" "ber_tag (ber_set_wcur n ber) = ber_tag ber"
  "ber_len (ber_set_wcur n ber) = ber_len ber" "ber_valid (ber_set_wcur n ber) = ber_valid ber"
  "ber_usertag (ber_set_wcur n ber) = ber_usertag ber" "ber_rwptr (ber_set_wcur n ber) = ber_rwptr ber"
  "ber_sos_ptr (ber_set_wcur n ber) = None \<longleftrightarrow> ber_sos_ptr ber = None"
  "ber_sos_ptr ber \<noteq> None \<Longrightarrow> ber_ptr (ber_set_wcur n ber) = ber_ptr ber"
  by (auto simp: ber_set_wcur_def split: option.splits)

lemma same_frame_refl [simp]: "same_frame a a"
  by (simp add: same_frame_def)

lemma same_frame_trans: "same_frame a b \<Longrightarrow> same_frame b c \<Longrightarrow> same_frame a c"
  by (auto simp: same_frame_def)

lemma ber_write_cases [layout]:
  assumes wf: "ber_wf ber" and len: "length bs < 2 ^ 64"
  shows "(ber_write ma ber bs 0 = (-1, ber) \<and> \<not> affordable ma ber (length bs + 4061))
       \<or> (\<exists>ber'. ber_write ma ber bs 0 = (int (length bs), ber') \<and> ber_wf ber'
            \<and> ber_end ber' \<le> ber_end ber + (length bs + 4061)
            \<and> same_frame ber' ber \<and> ber_written ber' = ber_written ber @ bs)"
proof -
  have ul: "unat (of_nat (length bs) :: 64 word) = length bs" using len by (rule unat_of_nat64)
  consider "ber_ensure ma ber (of_nat (length bs)) = (-1, ber)" "\<not> affordable ma ber (length bs + 4061)"
    | b where "ber_ensure ma ber (of_nat (length bs)) = (0, b)" "ber_wf b" "same_frame b ber"
        "ber_ptr b = ber_ptr ber" "ber_sos_ptr b = ber_sos_ptr ber"
        "ber_written b = ber_written ber" "ber_wcur b = ber_wcur ber"
        "ber_wcur ber + length bs \<le> ber_end b" "ber_end b \<le> ber_end ber + (length bs + 4061)"
    using ber_ensure_cases [OF wf, of ma "of_nat (length bs)"] ul by auto
  then show ?thesis
  proof cases
    case 1
    then show ?thesis by (simp add: ber_write_def)
  next
    case 2
    let ?b = "ber_set_wcur (ber_wcur b + length bs) (b\<lparr>ber_buf := memcpy (ber_buf b) (ber_wcur b) bs\<rparr>)"
    have lb: "length (ber_buf b) = ber_end b" using 2(2) by (simp add: ber_wf_def)
    have "ber_write ma ber bs 0 = (int (length bs), ?b)" by (simp add: ber_write_def 2(1) Let_def)
    moreover have "same_frame ?b ber"
      using 2(3,5) by (auto simp: same_frame_def)
    moreover have "ber_written ?b = ber_written ber @ bs"
      using lb 2(6,7,8) by (simp add: ber_written_def)
    moreover have "ber_wf ?b"
      using 2(2,7,8) lb by (auto simp: ber_wf_def ber_set_wcur_def ber_wcur_def split: option.splits)
    moreover have "ber_end ?b \<le> ber_end ber + (length bs + 4061)" using 2(9) by simp
    ultimately show ?thesis by blast
  qed
qed

end
