(* ===== verification/Ber_Encode.thy ===== *)
theory Ber_Encode
  imports Ber_Io
begin

text \<open>
  The BER encoder of \<^verbatim>\<open>liblber/encode.c\<close>.  The C code fills small header arrays from the
  end towards the front; a pointer into such an array is here the list of the octets from
  that pointer to the array's end, so \<^verbatim>\<open>*--ptr = x\<close> is \<open>x # ptr\<close>.
\<close>

section \<open>Tags, lengths and sizes\<close>

abbreviation (input) LBER_BOOLEAN :: ber_tag_t where "LBER_BOOLEAN \<equiv> 1"
abbreviation (input) LBER_INTEGER :: ber_tag_t where "LBER_INTEGER \<equiv> 2"
abbreviation (input) LBER_BITSTRING :: ber_tag_t where "LBER_BITSTRING \<equiv> 3"
abbreviation (input) LBER_OCTETSTRING :: ber_tag_t where "LBER_OCTETSTRING \<equiv> 4"
abbreviation (input) LBER_NULL :: ber_tag_t where "LBER_NULL \<equiv> 5"
abbreviation (input) LBER_ENUMERATED :: ber_tag_t where "LBER_ENUMERATED \<equiv> 10"
abbreviation (input) LBER_SEQUENCE :: ber_tag_t where "LBER_SEQUENCE \<equiv> 48"
abbreviation (input) LBER_SET :: ber_tag_t where "LBER_SET \<equiv> 49"

text \<open>\<^verbatim>\<open>HEADER_SIZE\<close> is \<open>8 + (1 + 8)\<close>, and \<^verbatim>\<open>MAXINT_BERSIZE\<close> is \<^verbatim>\<open>INT_MAX - HEADER_SIZE\<close>.\<close>

definition MAXINT_BERSIZE :: ber_len_t where
  "MAXINT_BERSIZE = 2147483630"

text \<open>\<^verbatim>\<open>SOS_LENLEN\<close>: the length octets reserved for a sequence or set.\<close>

definition SOS_LENLEN :: nat where
  "SOS_LENLEN = 5"

function ber_prepend_tag :: "byte list \<Rightarrow> ber_tag_t \<Rightarrow> byte list" where
  "ber_prepend_tag ptr tag =
     (let ptr' = ucast tag # ptr; tag' = drop_bit 8 tag
      in if tag' \<noteq> 0 then ber_prepend_tag ptr' tag' else ptr')"
  by pat_completeness auto
termination
  by (relation "measure (\<lambda>(ptr, tag). unat tag)") (auto intro: unat_drop_bit8_less)

declare ber_prepend_tag.simps [simp del]

function prepend_len_loop :: "byte list \<Rightarrow> ber_len_t \<Rightarrow> byte list" where
  "prepend_len_loop ptr len =
     (let len' = drop_bit 8 len
      in if len' \<noteq> 0 then prepend_len_loop (ucast len' # ptr) len' else ptr)"
  by pat_completeness auto
termination
  by (relation "measure (\<lambda>(ptr, len). unat len)") (auto intro: unat_drop_bit8_less)

declare prepend_len_loop.simps [simp del]

definition ber_prepend_len :: "byte list \<Rightarrow> ber_len_t \<Rightarrow> byte list" where
  "ber_prepend_len ptr len =
     (let p = ucast len # ptr
      in if len \<ge> 0x80
         then let q = prepend_len_loop p len
              in (of_nat (length q - length ptr) + 0x80) # q
         else p)"

section \<open>Primitive elements\<close>

text \<open>The loop of \<^verbatim>\<open>ber_put_int_or_enum\<close>: two's complement octets, least significant first.\<close>

function put_int_octets :: "byte \<Rightarrow> ber_uint_t \<Rightarrow> byte list \<Rightarrow> byte list" where
  "put_int_octets sign unum ptr =
     (let ptr' = (sign XOR ucast unum) # ptr
      in if unum < 0x80 then ptr' else put_int_octets sign (drop_bit 8 unum) ptr')"
  by pat_completeness auto
termination
proof (relation "measure (\<lambda>(sign, unum, ptr). unat unum)")
  fix sign :: byte and unum :: ber_uint_t and ptr ptr' :: "byte list"
  assume "\<not> unum < 0x80"
  then have "128 \<le> unat unum" by (simp add: word_less_nat_alt)
  then show "((sign, drop_bit 8 unum, ptr'), (sign, unum, ptr))
               \<in> measure (\<lambda>(sign, unum, ptr). unat unum)"
    by (simp add: unat_drop_bit8)
qed simp

declare put_int_octets.simps [simp del]

definition int_content :: "ber_int_t \<Rightarrow> byte list" where
  "int_content num =
     (if num <s 0 then put_int_octets 0xff (NOT num) [] else put_int_octets 0 num [])"

definition ber_put_int_or_enum ::
  "allocator \<Rightarrow> berelement \<Rightarrow> ber_int_t \<Rightarrow> ber_tag_t \<Rightarrow> int \<times> berelement" where
  "ber_put_int_or_enum ma ber num tag =
     (let ptr = int_content num;
          ptr1 = of_nat (length ptr) # ptr
      in ber_write ma ber (ber_prepend_tag ptr1 tag) 0)"

definition ber_put_enum :: "allocator \<Rightarrow> berelement \<Rightarrow> ber_int_t \<Rightarrow> ber_tag_t \<Rightarrow> int \<times> berelement" where
  "ber_put_enum ma ber num tag =
     ber_put_int_or_enum ma ber num (if tag = LBER_DEFAULT then LBER_ENUMERATED else tag)"

definition ber_put_int :: "allocator \<Rightarrow> berelement \<Rightarrow> ber_int_t \<Rightarrow> ber_tag_t \<Rightarrow> int \<times> berelement" where
  "ber_put_int ma ber num tag =
     ber_put_int_or_enum ma ber num (if tag = LBER_DEFAULT then LBER_INTEGER else tag)"

text \<open>
  Header first, contents second: when the second \<^verbatim>\<open>ber_write\<close> fails the header stays
  behind, as in the code.
\<close>

definition ber_put_ostring ::
  "allocator \<Rightarrow> berelement \<Rightarrow> byte list \<Rightarrow> ber_tag_t \<Rightarrow> int \<times> berelement" where
  "ber_put_ostring ma ber str tag0 =
     (let tag = (if tag0 = LBER_DEFAULT then LBER_OCTETSTRING else tag0);
          len = of_nat (length str) :: ber_len_t
      in if len > MAXINT_BERSIZE then (-1, ber)
         else case ber_write ma ber (ber_prepend_tag (ber_prepend_len [] len) tag) 0 of
                (rc, ber1) \<Rightarrow>
                  if rc \<ge> 0 then
                    (case ber_write ma ber1 str 0 of
                       (rc2, ber2) \<Rightarrow> if rc2 \<ge> 0 then (rc + int (length str), ber2) else (-1, ber2))
                  else (-1, ber1))"

definition ber_put_berval ::
  "allocator \<Rightarrow> berelement \<Rightarrow> byte list option \<Rightarrow> ber_tag_t \<Rightarrow> int \<times> berelement" where
  "ber_put_berval ma ber bv tag =
     (case bv of
        None \<Rightarrow> ber_put_ostring ma ber [] tag
      | Some b \<Rightarrow> if length b = 0 then ber_put_ostring ma ber [] tag
                  else ber_put_ostring ma ber b tag)"

text \<open>A C string is the list of its octets before the first \<^verbatim>\<open>'\0'\<close>.\<close>

definition c_string :: "byte list \<Rightarrow> byte list" where
  "c_string s = takeWhile (\<lambda>b. b \<noteq> 0) s"

definition ber_put_string ::
  "allocator \<Rightarrow> berelement \<Rightarrow> byte list \<Rightarrow> ber_tag_t \<Rightarrow> int \<times> berelement" where
  "ber_put_string ma ber str tag = ber_put_ostring ma ber (c_string str) tag"

definition ber_put_bitstring ::
  "allocator \<Rightarrow> berelement \<Rightarrow> byte list \<Rightarrow> ber_len_t \<Rightarrow> ber_tag_t \<Rightarrow> int \<times> berelement" where
  "ber_put_bitstring ma ber str blen tag0 =
     (let tag = (if tag0 = LBER_DEFAULT then LBER_BITSTRING else tag0);
          unusedbits = (ucast (- blen) :: byte) AND 7;
          len = blen div 8 + (if unusedbits \<noteq> 0 then 1 else 0)
      in if len \<ge> MAXINT_BERSIZE then (-1, ber)
         else case ber_write ma ber
                     (ber_prepend_tag (ber_prepend_len [unusedbits] (len + 1)) tag) 0 of
                (rc, ber1) \<Rightarrow>
                  if rc \<ge> 0 then
                    (case ber_write ma ber1 (take (unat len) str) 0 of
                       (rc2, ber2) \<Rightarrow> if rc2 \<ge> 0 then (rc + int (unat len), ber2) else (-1, ber2))
                  else (-1, ber1))"

definition ber_put_null :: "allocator \<Rightarrow> berelement \<Rightarrow> ber_tag_t \<Rightarrow> int \<times> berelement" where
  "ber_put_null ma ber tag =
     ber_write ma ber (ber_prepend_tag [0] (if tag = LBER_DEFAULT then LBER_NULL else tag)) 0"

definition ber_put_boolean ::
  "allocator \<Rightarrow> berelement \<Rightarrow> ber_int_t \<Rightarrow> ber_tag_t \<Rightarrow> int \<times> berelement" where
  "ber_put_boolean ma ber boolval tag =
     (let data = [1, if boolval \<noteq> 0 then 0xff else 0]
      in ber_write ma ber
           (ber_prepend_tag data (if tag = LBER_DEFAULT then LBER_BOOLEAN else tag)) 0)"

section \<open>Sequences and sets\<close>

text \<open>The four octets of \<^verbatim>\<open>next_sos.offset\<close> in memory (a little-endian host).\<close>

definition le32 :: "32 word \<Rightarrow> byte list" where
  "le32 w = [ucast w, ucast (drop_bit 8 w), ucast (drop_bit 16 w), ucast (drop_bit 24 w)]"

fun un_le32 :: "byte list \<Rightarrow> 32 word" where
  "un_le32 [a, b, c, d] =
     ucast a OR push_bit 8 (ucast b) OR push_bit 16 (ucast c) OR push_bit 24 (ucast d)"
| "un_le32 _ = 0"

text \<open>
  While a sequence is open its five length octets hold the length of its tag and the
  offset of the enclosing sequence's length octets (0 for the outermost one).
\<close>

definition ber_start_seqorset :: "allocator \<Rightarrow> berelement \<Rightarrow> ber_tag_t \<Rightarrow> int \<times> berelement" where
  "ber_start_seqorset ma ber tag =
     (if ber_sos_ptr ber \<noteq> None \<and> ber_len ber > 0xffffffff then (-1, ber)
      else let offset = (case ber_sos_ptr ber of None \<Rightarrow> 0 | Some _ \<Rightarrow> ucast (ber_len ber)) :: 32 word;
               tagb = ber_prepend_tag [] tag;
               taglen = length tagb;
               head = tagb @ of_nat taglen # le32 offset
           in case ber_ensure ma ber (of_nat (taglen + SOS_LENLEN)) of
                (rc, ber1) \<Rightarrow>
                  if rc \<noteq> 0 then (-1, ber1)
                  else let dest = ber_wcur ber1
                       in (0, ber1\<lparr>ber_buf := memcpy (ber_buf ber1) dest head,
                                   ber_sos_ptr := Some (dest + (taglen + SOS_LENLEN)),
                                   ber_len := of_nat (dest + taglen)\<rparr>))"

definition ber_start_seq :: "allocator \<Rightarrow> berelement \<Rightarrow> ber_tag_t \<Rightarrow> int \<times> berelement" where
  "ber_start_seq ma ber tag =
     ber_start_seqorset ma ber (if tag = LBER_DEFAULT then LBER_SEQUENCE else tag)"

definition ber_start_set :: "allocator \<Rightarrow> berelement \<Rightarrow> ber_tag_t \<Rightarrow> int \<times> berelement" where
  "ber_start_set ma ber tag =
     ber_start_seqorset ma ber (if tag = LBER_DEFAULT then LBER_SET else tag)"

text \<open>\<^verbatim>\<open>for( i = SOS_LENLEN; --i > 0; len >>= 8 ) lenptr[i] = len & 0xffU;\<close>\<close>

fun put_len_octets :: "nat \<Rightarrow> ber_len_t \<Rightarrow> byte list \<Rightarrow> byte list" where
  "put_len_octets 0 len acc = acc"
| "put_len_octets (Suc i) len acc = put_len_octets i (drop_bit 8 len) (ucast len # acc)"

definition ber_put_seqorset :: "berelement \<Rightarrow> int \<times> berelement" where
  "ber_put_seqorset ber =
     (case ber_sos_ptr ber of
        None \<Rightarrow> (-1, ber)
      | Some sos \<Rightarrow>
          let lenptr = unat (ber_len ber);
              xlen = of_int (int sos - int lenptr) :: ber_len_t
          in if xlen > MAXINT_BERSIZE + of_nat SOS_LENLEN then (-1, ber)
             else
               let header = take SOS_LENLEN (drop lenptr (ber_buf ber));
                   taglen = unat (header ! 0);
                   offset = un_le32 (drop 1 header);
                   len = xlen - of_nat SOS_LENLEN;
                   (buf', xlen') =
                     (if ber_options ber AND LBER_USE_DER = 0
                      then (memcpy (ber_buf ber) lenptr
                              ((of_nat (SOS_LENLEN - 1) + 0x80) # put_len_octets (SOS_LENLEN - 1) len []),
                            unat xlen)
                      else
                        let p = ber_prepend_len [] len;
                            unused = SOS_LENLEN - length p;
                            buf1 = memcpy (ber_buf ber) (lenptr + unused) p
                        in if unused \<noteq> 0
                           then (memcpy buf1 lenptr
                                   (take (unat xlen - unused) (drop (lenptr + unused) buf1)),
                                 unat xlen - unused)
                           else (buf1, unat xlen));
                   ber1 = ber\<lparr>ber_buf := buf', ber_len := ucast offset\<rparr>;
                   sos' = lenptr + xlen';
                   ber2 = (if offset = 0 then ber1\<lparr>ber_ptr := sos', ber_sos_ptr := None\<rparr>
                           else ber1\<lparr>ber_sos_ptr := Some sos'\<rparr>)
               in (int xlen' + int taglen, ber2))"

definition ber_put_seq :: "berelement \<Rightarrow> int \<times> berelement" where
  "ber_put_seq ber = ber_put_seqorset ber"

definition ber_put_set :: "berelement \<Rightarrow> int \<times> berelement" where
  "ber_put_set ber = ber_put_seqorset ber"

section \<open>Formatted encoding\<close>

text \<open>The arguments behind a \<^verbatim>\<open>ber_printf\<close> format; NULL pointers are \<open>None\<close>.\<close>

datatype printf_arg =
    PaHook "berelement \<Rightarrow> int \<times> berelement"
  | PaInt ber_int_t
  | PaOctets "byte list"
  | PaBerval "byte list option"
  | PaString "byte list"
  | PaBits "byte list" ber_len_t
  | PaTag ber_tag_t
  | PaStrings "byte list list option"
  | PaBervals "byte list list option"

text \<open>The loops of the conversions \<^verbatim>\<open>v\<close>, \<^verbatim>\<open>V\<close> and \<^verbatim>\<open>W\<close>: stop at the first \<^verbatim>\<open>-1\<close>.\<close>

fun put_each ::
  "(berelement \<Rightarrow> byte list \<Rightarrow> int \<times> berelement) \<Rightarrow> int \<Rightarrow> berelement \<Rightarrow> byte list list \<Rightarrow> int \<times> berelement" where
  "put_each put rc ber [] = (rc, ber)"
| "put_each put rc ber (s # ss) =
     (case put ber s of (rc', ber') \<Rightarrow>
        if rc' = -1 then (rc', ber') else put_each put rc' ber' ss)"

text \<open>
  One conversion: the new return code, the element, whether the tag of the next element is
  kept (\<^verbatim>\<open>goto next\<close>), and the arguments left.  \<open>None\<close> is a format that does not fit its
  arguments, which C leaves undefined.  \<^verbatim>\<open>lber_int_null\<close> is the constant 0 in this library,
  so \<^verbatim>\<open>N\<close> writes nothing.
\<close>

fun printf_conv ::
  "allocator \<Rightarrow> char \<Rightarrow> int \<Rightarrow> berelement \<Rightarrow> printf_arg list
     \<Rightarrow> (int \<times> berelement \<times> bool \<times> printf_arg list) option" where
  "printf_conv ma c rc ber args =
     (if c = CHR ''!'' then
        (case args of PaHook f # r \<Rightarrow>
           (case f (ber\<lparr>ber_usertag := 0\<rparr>) of (rc', b) \<Rightarrow> Some (rc', b, ber_usertag b \<noteq> 0, r))
         | _ \<Rightarrow> None)
      else if c = CHR ''b'' then
        (case args of PaInt i # r \<Rightarrow>
           (case ber_put_boolean ma ber i (ber_tag ber) of (rc', b) \<Rightarrow> Some (rc', b, False, r))
         | _ \<Rightarrow> None)
      else if c = CHR ''i'' then
        (case args of PaInt i # r \<Rightarrow>
           (case ber_put_int ma ber i (ber_tag ber) of (rc', b) \<Rightarrow> Some (rc', b, False, r))
         | _ \<Rightarrow> None)
      else if c = CHR ''e'' then
        (case args of PaInt i # r \<Rightarrow>
           (case ber_put_enum ma ber i (ber_tag ber) of (rc', b) \<Rightarrow> Some (rc', b, False, r))
         | _ \<Rightarrow> None)
      else if c = CHR ''n'' then
        (case ber_put_null ma ber (ber_tag ber) of (rc', b) \<Rightarrow> Some (rc', b, False, args))
      else if c = CHR ''N'' then Some (0, ber, False, args)
      else if c = CHR ''o'' then
        (case args of PaOctets s # r \<Rightarrow>
           (case ber_put_ostring ma ber s (ber_tag ber) of (rc', b) \<Rightarrow> Some (rc', b, False, r))
         | _ \<Rightarrow> None)
      else if c = CHR ''O'' then
        (case args of PaBerval bv # r \<Rightarrow>
           (case bv of None \<Rightarrow> Some (rc, ber, False, r)
            | Some _ \<Rightarrow>
                (case ber_put_berval ma ber bv (ber_tag ber) of (rc', b) \<Rightarrow> Some (rc', b, False, r)))
         | _ \<Rightarrow> None)
      else if c = CHR ''s'' then
        (case args of PaString s # r \<Rightarrow>
           (case ber_put_string ma ber s (ber_tag ber) of (rc', b) \<Rightarrow> Some (rc', b, False, r))
         | _ \<Rightarrow> None)
      else if c = CHR ''B'' \<or> c = CHR ''X'' then
        (case args of PaBits s len # r \<Rightarrow>
           (case ber_put_bitstring ma ber s len (ber_tag ber) of (rc', b) \<Rightarrow> Some (rc', b, False, r))
         | _ \<Rightarrow> None)
      else if c = CHR ''t'' then
        (case args of PaTag t # r \<Rightarrow> Some (rc, ber\<lparr>ber_tag := t\<rparr>, True, r) | _ \<Rightarrow> None)
      else if c = CHR ''v'' then
        (case args of PaStrings ss # r \<Rightarrow>
           (case ss of None \<Rightarrow> Some (rc, ber, False, r)
            | Some l \<Rightarrow>
                (case put_each (\<lambda>b s. ber_put_string ma b s (ber_tag b)) rc ber l of
                   (rc', b) \<Rightarrow> Some (rc', b, False, r)))
         | _ \<Rightarrow> None)
      else if c = CHR ''V'' \<or> c = CHR ''W'' then
        (case args of PaBervals bs # r \<Rightarrow>
           (case bs of None \<Rightarrow> Some (rc, ber, False, r)
            | Some l \<Rightarrow>
                (case put_each (\<lambda>b s. ber_put_berval ma b (Some s) (ber_tag b)) rc ber l of
                   (rc', b) \<Rightarrow> Some (rc', b, False, r)))
         | _ \<Rightarrow> None)
      else if c = CHR ''{'' then
        (case ber_start_seq ma ber (ber_tag ber) of (rc', b) \<Rightarrow> Some (rc', b, False, args))
      else if c = CHR ''}'' then
        (case ber_put_seqorset ber of (rc', b) \<Rightarrow> Some (rc', b, False, args))
      else if c = CHR ''['' then
        (case ber_start_set ma ber (ber_tag ber) of (rc', b) \<Rightarrow> Some (rc', b, False, args))
      else if c = CHR '']'' then
        (case ber_put_seqorset ber of (rc', b) \<Rightarrow> Some (rc', b, False, args))
      else Some (-1, ber, False, args))"

declare printf_conv.simps [simp del]

fun ber_printf_loop ::
  "allocator \<Rightarrow> int \<Rightarrow> berelement \<Rightarrow> string \<Rightarrow> printf_arg list \<Rightarrow> (int \<times> berelement) option" where
  "ber_printf_loop ma rc ber [] args = Some (rc, ber)"
| "ber_printf_loop ma rc ber (c # fmt) args =
     (if rc = -1 then Some (rc, ber)
      else case printf_conv ma c rc ber args of
             None \<Rightarrow> None
           | Some (rc', ber', keep, args') \<Rightarrow>
               ber_printf_loop ma rc' (if keep then ber' else ber'\<lparr>ber_tag := LBER_DEFAULT\<rparr>) fmt args')"

definition ber_printf ::
  "allocator \<Rightarrow> berelement \<Rightarrow> string \<Rightarrow> printf_arg list \<Rightarrow> (int \<times> berelement) option" where
  "ber_printf ma ber fmt args = ber_printf_loop ma 0 ber fmt args"

end
