(* ===== verification/Ber_Writer.thy ===== *)
theory Ber_Writer
  imports Ber_Encode
begin

text \<open>
  What the encoder writes.  The octets of a tag and of a length are related to the
  minimal big-endian representation, and the buffer with its chain of open sequences is
  related to an abstract writer that keeps the finished octets and a stack of open frames.
\<close>

section \<open>Tag and length octets\<close>

lemma ber_prepend_tag_eq [layout]: "ber_prepend_tag ptr tag = be_bytes (unat tag) @ ptr"
proof (induction ptr tag rule: ber_prepend_tag.induct)
  case (1 ptr tag)
  show ?case
  proof (cases "drop_bit 8 tag = 0")
    case True
    then have "unat tag < 256" by (simp only: drop_bit8_eq_0_iff)
    then have "be_bytes (unat tag) = [ucast tag]"
      by (simp add: be_bytes_small)
    then show ?thesis
      using True by (simp only: ber_prepend_tag.simps [of ptr tag] Let_def) simp
  next
    case False
    then have "256 \<le> unat tag" by (simp only: drop_bit8_eq_0_iff not_less)
    then have "be_bytes (unat tag) = be_bytes (unat (drop_bit 8 tag)) @ [ucast tag]"
      by (simp only: be_bytes_big unat_drop_bit8 ucast_byte_of_nat)
    moreover have "ber_prepend_tag (ucast tag # ptr) (drop_bit 8 tag)
                     = be_bytes (unat (drop_bit 8 tag)) @ ucast tag # ptr"
      using 1 False by blast
    ultimately show ?thesis
      using False by (simp only: ber_prepend_tag.simps [of ptr tag] Let_def) simp
  qed
qed

lemma prepend_len_loop_eq:
  "prepend_len_loop (ucast len # ptr) len = be_bytes (unat len) @ ptr"
proof (induction "ucast len # ptr" len arbitrary: ptr rule: prepend_len_loop.induct)
  case (1 len)
  show ?case
  proof (cases "drop_bit 8 len = 0")
    case True
    then have "unat len < 256" by (simp only: drop_bit8_eq_0_iff)
    then have "be_bytes (unat len) = [ucast len]"
      by (simp add: be_bytes_small)
    then show ?thesis
      using True by (simp only: prepend_len_loop.simps [of "ucast len # ptr" len] Let_def) simp
  next
    case False
    then have "256 \<le> unat len" by (simp only: drop_bit8_eq_0_iff not_less)
    then have "be_bytes (unat len) = be_bytes (unat (drop_bit 8 len)) @ [ucast len]"
      by (simp only: be_bytes_big unat_drop_bit8 ucast_byte_of_nat)
    moreover have "prepend_len_loop (ucast (drop_bit 8 len) # ucast len # ptr) (drop_bit 8 len)
                     = be_bytes (unat (drop_bit 8 len)) @ ucast len # ptr"
      using 1 False by blast
    ultimately show ?thesis
      using False by (simp only: prepend_len_loop.simps [of "ucast len # ptr" len] Let_def) simp
  qed
qed

text \<open>The length octets of a definite length in their shortest form.\<close>

definition len_octets :: "nat \<Rightarrow> byte list" where
  "len_octets n = (if n < 128 then [of_nat n] else (of_nat (length (be_bytes n)) + 0x80) # be_bytes n)"

lemma ber_prepend_len_eq [layout]: "ber_prepend_len ptr len = len_octets (unat len) @ ptr"
proof (cases "len \<ge> 0x80")
  case True
  then have "\<not> unat len < 128" by (simp add: word_le_nat_alt)
  then show ?thesis using True
    by (simp add: ber_prepend_len_def len_octets_def prepend_len_loop_eq Let_def)
next
  case False
  then have "unat len < 128" by (simp add: word_le_nat_alt)
  then show ?thesis using False
    by (simp add: ber_prepend_len_def len_octets_def)
qed

lemma len_octets_nonempty [simp]: "len_octets n \<noteq> []"
  by (simp add: len_octets_def)

lemma length_len_octets: "n < 2 ^ 32 \<Longrightarrow> length (len_octets n) \<le> 5"
  using length_be_bytes_le [of 4 n] by (simp add: len_octets_def)

lemma length_tag_octets: "length (be_bytes (unat (tag :: ber_tag_t))) \<le> 8"
  using unsigned_less [of tag] by (intro length_be_bytes_le) simp_all

text \<open>The fixed five octets of a sequence that is not DER.\<close>

definition long_len_octets :: "nat \<Rightarrow> byte list" where
  "long_len_octets n = 0x84 # put_len_octets 4 (of_nat n) []"

lemma put_len_octets_append: "put_len_octets i len acc = put_len_octets i len [] @ acc"
proof (induction i arbitrary: len acc)
  case (Suc i)
  have "put_len_octets (Suc i) len acc = put_len_octets i (drop_bit 8 len) [] @ ucast len # acc"
    using Suc.IH [of "drop_bit 8 len" "ucast len # acc"] by (simp only: put_len_octets.simps)
  moreover have "put_len_octets (Suc i) len [] = put_len_octets i (drop_bit 8 len) [] @ [ucast len]"
    using Suc.IH [of "drop_bit 8 len" "[ucast len]"] by (simp only: put_len_octets.simps)
  ultimately show ?case by simp
qed simp

lemma length_put_len_octets [simp]: "length (put_len_octets i len []) = i"
proof (induction i arbitrary: len)
  case (Suc i)
  then show ?case
    by (simp only: put_len_octets.simps put_len_octets_append [of i "drop_bit 8 len" "[ucast len]"]) simp
qed simp

lemma be_val_put_len_octets: "be_val (put_len_octets i len []) = unat len mod 256 ^ i"
proof (induction i arbitrary: len)
  case (Suc i)
  have "be_val (put_len_octets (Suc i) len [])
          = be_val (put_len_octets i (drop_bit 8 len) []) * 256 + unat (ucast len :: byte)"
    by (simp only: put_len_octets.simps put_len_octets_append [of i "drop_bit 8 len" "[ucast len]"]
                   be_val_snoc)
  also have "\<dots> = (unat len div 256) mod 256 ^ i * 256 + unat len mod 256"
    by (simp only: Suc.IH unat_drop_bit8 unat_ucast_byte)
  also have "\<dots> = unat len mod 256 ^ Suc i"
    by (metis mod_mult2_eq mult.commute power_Suc add.commute)
  finally show ?case .
qed simp

section \<open>The abstract writer\<close>

text \<open>
  Finished octets, and a stack of open sequences (innermost first), each with its tag and
  the contents written so far.
\<close>

type_synonym frame = "ber_tag_t \<times> byte list"
type_synonym writer = "byte list \<times> frame list"

fun w_put :: "byte list \<Rightarrow> writer \<Rightarrow> writer" where
  "w_put bs (base, []) = (base @ bs, [])"
| "w_put bs (base, (t, c) # fs) = (base, (t, c @ bs) # fs)"

fun w_open :: "ber_tag_t \<Rightarrow> writer \<Rightarrow> writer" where
  "w_open t (base, fs) = (base, (t, []) # fs)"

text \<open>A finished element: tag octets, length octets in the chosen form, contents.\<close>

definition seq_len_octets :: "bool \<Rightarrow> nat \<Rightarrow> byte list" where
  "seq_len_octets der n = (if der then len_octets n else long_len_octets n)"

definition tlv :: "ber_tag_t \<Rightarrow> byte list \<Rightarrow> byte list" where
  "tlv t c = be_bytes (unat t) @ len_octets (length c) @ c"

definition seq_tlv :: "bool \<Rightarrow> ber_tag_t \<Rightarrow> byte list \<Rightarrow> byte list" where
  "seq_tlv der t c = be_bytes (unat t) @ seq_len_octets der (length c) @ c"

fun w_close :: "bool \<Rightarrow> writer \<Rightarrow> writer" where
  "w_close der (base, []) = (base, [])"
| "w_close der (base, (t, c) # fs) = w_put (seq_tlv der t c) (base, fs)"

text \<open>
  How the code lays out the writer in the buffer: each open frame has its tag, one octet for
  the tag's length and four for the offset of the enclosing frame's length octets.
\<close>

fun w_layout :: "byte list \<Rightarrow> frame list \<Rightarrow> byte list"
  and w_offset :: "byte list \<Rightarrow> frame list \<Rightarrow> nat" where
  "w_layout base [] = base"
| "w_layout base ((t, c) # fs) =
     w_layout base fs @ be_bytes (unat t)
       @ of_nat (length (be_bytes (unat t))) # le32 (of_nat (w_offset base fs)) @ c"
| "w_offset base [] = 0"
| "w_offset base ((t, c) # fs) = length (w_layout base fs) + length (be_bytes (unat t))"

text \<open>Offsets of enclosing frames fit the 32 bits the code stores them in.\<close>

fun w_fits :: "byte list \<Rightarrow> frame list \<Rightarrow> bool" where
  "w_fits base [] = True"
| "w_fits base (f # fs) = (w_offset base fs < 2 ^ 32 \<and> w_fits base fs)"

definition ber_der :: "berelement \<Rightarrow> bool" where
  "ber_der ber \<longleftrightarrow> ber_options ber AND LBER_USE_DER \<noteq> 0"

definition ber_writes :: "berelement \<Rightarrow> writer \<Rightarrow> bool" where
  "ber_writes ber w \<longleftrightarrow>
     (case w of (base, fs) \<Rightarrow>
        ber_wf ber \<and> ber_written ber = w_layout base fs \<and> ber_ptr ber = length base
        \<and> (ber_sos_ptr ber = None \<longleftrightarrow> fs = [])
        \<and> (fs \<noteq> [] \<longrightarrow> unat (ber_len ber) = w_offset base fs) \<and> w_fits base fs)"

lemma length_le32 [simp]: "length (le32 w) = 4"
  by (simp add: le32_def)

lemma un_le32_le32 [simp]: "un_le32 (le32 w) = w"
proof (rule bit_word_eqI)
  fix n assume "n < LENGTH(32)"
  then consider "n < 8" | "8 \<le> n \<and> n < 16" | "16 \<le> n \<and> n < 24" | "24 \<le> n \<and> n < 32" by fastforce
  then show "bit (un_le32 (le32 w)) n = bit w n"
    by cases (auto simp: le32_def bit_or_iff bit_push_bit_iff bit_ucast_iff bit_drop_bit_eq
                   dest: bit_imp_le_length)
qed

lemma w_layout_put: "w_layout base ((t, c @ bs) # fs) = w_layout base ((t, c) # fs) @ bs"
  by simp

lemma w_offset_put [simp]: "w_offset base ((t, c @ bs) # fs) = w_offset base ((t, c) # fs)"
  by simp

lemma written_length: "ber_wf ber \<Longrightarrow> length (ber_written ber) = ber_wcur ber"
  by (simp add: ber_written_def ber_wf_def)

lemma ber_writes_wcur: "ber_writes ber (base, fs) \<Longrightarrow> ber_wcur ber = length (w_layout base fs)"
  using written_length [of ber] by (auto simp: ber_writes_def)

lemma ber_writes_alloc [simp]: "ber_writes (ber_alloc_t opt) ([], [])"
  by (simp add: ber_writes_def) (simp add: ber_alloc_t_def)

section \<open>The code simulates the abstract writer\<close>

lemma ber_writes_put:
  assumes w: "ber_writes ber w" and wf: "ber_wf ber'" and same: "same_frame ber' ber"
    and wr: "ber_written ber' = ber_written ber @ bs"
  shows "ber_writes ber' (w_put bs w)"
proof (cases w)
  case (Pair base fs)
  show ?thesis
  proof (cases fs)
    case Nil
    then have "ber_sos_ptr ber' = None" "ber_wcur ber' = ber_ptr ber'"
      using w same Pair by (auto simp: ber_writes_def same_frame_def ber_wcur_def)
    then show ?thesis
      using w wr wf Pair Nil written_length [OF wf] by (auto simp: ber_writes_def)
  next
    case (Cons f fs')
    obtain t c where f: "f = (t, c)" by (cases f)
    have "ber_sos_ptr ber \<noteq> None" "ber_sos_ptr ber' \<noteq> None" "ber_ptr ber' = ber_ptr ber"
         "ber_len ber' = ber_len ber"
      using w same Pair Cons by (auto simp: ber_writes_def same_frame_def)
    then show ?thesis
      using w wr wf unfolding Pair Cons f by (simp add: ber_writes_def)
  qed
qed

lemma ber_write_sim:
  assumes "ber_writes ber w" and "length bs < 2 ^ 64"
  shows "(ber_write ma ber bs 0 = (-1, ber) \<and> \<not> affordable ma ber (length bs + 4061))
       \<or> (\<exists>ber'. ber_write ma ber bs 0 = (int (length bs), ber')
            \<and> ber_end ber' \<le> ber_end ber + (length bs + 4061)
            \<and> ber_writes ber' (w_put bs w) \<and> same_frame ber' ber)"
proof -
  have "ber_wf ber" using assms(1) by (auto simp: ber_writes_def)
  then show ?thesis
    using ber_write_cases [of ber bs ma] assms ber_writes_put [OF assms(1)] by blast
qed

lemma w_offset_le_layout: "w_offset base fs \<le> length (w_layout base fs)"
  by (cases fs) auto

lemma big_offset:
  assumes "ber_sos_ptr ber \<noteq> None \<and> ber_len ber > 0xffffffff" and w: "ber_writes ber w"
  shows "2 ^ 32 \<le> ber_end ber"
proof -
  obtain base fs where wp: "w = (base, fs)" by (cases w)
  have "unat (ber_len ber) = w_offset base fs" using assms wp by (auto simp: ber_writes_def)
  also have "\<dots> \<le> ber_wcur ber" using ber_writes_wcur w wp w_offset_le_layout by metis
  also have "\<dots> \<le> ber_end ber" using w wp by (simp add: ber_writes_def ber_wf_def)
  finally show ?thesis using assms(1) by (simp add: word_less_nat_alt)
qed

lemma ber_start_seqorset_sim:
  assumes w: "ber_writes ber w"
  shows "(ber_start_seqorset ma ber tag = (-1, ber) \<and> \<not> affordable ma ber 4074)
       \<or> (\<exists>ber'. ber_start_seqorset ma ber tag = (0, ber') \<and> ber_writes ber' (w_open tag w)
            \<and> ber_end ber' \<le> ber_end ber + 4074
            \<and> ber_options ber' = ber_options ber \<and> ber_tag ber' = ber_tag ber)"
proof (cases "ber_sos_ptr ber \<noteq> None \<and> ber_len ber > 0xffffffff")
  case True
  then have "2 ^ 32 \<le> ber_end ber" using w by (rule big_offset)
  then show ?thesis using True by (simp add: ber_start_seqorset_def affordable_def)
next
  case small: False
  obtain base fs where wp: "w = (base, fs)" by (cases w)
  define tb where "tb = be_bytes (unat tag)"
  define off :: "32 word" where "off = (case ber_sos_ptr ber of None \<Rightarrow> 0 | Some _ \<Rightarrow> ucast (ber_len ber))"
  define hd where "hd = tb @ of_nat (length tb) # le32 off"
  have wf: "ber_wf ber" using w by (auto simp: ber_writes_def)
  have tb8: "length tb \<le> 8" unfolding tb_def by (rule length_tag_octets)
  have ul: "unat (of_nat (length tb + SOS_LENLEN) :: 64 word) = length tb + SOS_LENLEN"
    using tb8 by (intro unat_of_nat64) (simp add: SOS_LENLEN_def)
  have off: "off = of_nat (w_offset base fs)" "w_offset base fs < 2 ^ 32"
  proof -
    show "off = of_nat (w_offset base fs)"
    proof (cases "fs = []")
      case True
      then show ?thesis using w wp by (auto simp: ber_writes_def off_def)
    next
      case False
      then have "ber_sos_ptr ber \<noteq> None" "w_offset base fs = unat (ber_len ber)"
        using w wp by (auto simp: ber_writes_def)
      then show ?thesis by (auto simp: off_def)
    qed
    show "w_offset base fs < 2 ^ 32"
      using small w wp by (cases "fs = []") (auto simp: ber_writes_def word_less_nat_alt not_less)
  qed
  consider "ber_ensure ma ber (of_nat (length tb + SOS_LENLEN)) = (-1, ber)"
      "\<not> affordable ma ber (length tb + SOS_LENLEN + 4061)"
    | b where "ber_ensure ma ber (of_nat (length tb + SOS_LENLEN)) = (0, b)" "ber_wf b" "same_frame b ber"
        "ber_ptr b = ber_ptr ber" "ber_sos_ptr b = ber_sos_ptr ber"
        "ber_written b = ber_written ber" "ber_wcur b = ber_wcur ber"
        "ber_wcur ber + (length tb + SOS_LENLEN) \<le> ber_end b"
        "ber_end b \<le> ber_end ber + (length tb + SOS_LENLEN + 4061)"
    using ber_ensure_cases [OF wf, of ma "of_nat (length tb + SOS_LENLEN)"] ul by auto
  then show ?thesis
  proof cases
    case 1
    moreover have "\<not> affordable ma ber 4074"
      using 1(2) tb8 by (auto simp: SOS_LENLEN_def affordable_def)
    ultimately show ?thesis using small
      by (simp add: ber_start_seqorset_def Let_def ber_prepend_tag_eq tb_def)
  next
    case 2
    let ?d = "ber_wcur ber"
    let ?b = "b\<lparr>ber_buf := memcpy (ber_buf b) ?d hd, ber_sos_ptr := Some (?d + (length tb + SOS_LENLEN)),
                ber_len := of_nat (?d + length tb)\<rparr>"
    have eq: "ber_start_seqorset ma ber tag = (0, ?b)"
      using small 2(1,7)
      by (simp add: ber_start_seqorset_def Let_def ber_prepend_tag_eq tb_def hd_def off_def)
    have lh: "length hd = length tb + SOS_LENLEN" by (simp add: hd_def SOS_LENLEN_def)
    have lb: "length (ber_buf b) = ber_end b" using 2(2) by (simp add: ber_wf_def)
    have d: "?d = length (w_layout base fs)" using w wp by (simp add: ber_writes_wcur)
    have d64: "?d + length tb < 2 ^ 64"
      using 2(2,8) by (simp add: ber_wf_def SOS_LENLEN_def)
    then have ulen: "unat (of_nat (length (w_layout base fs)) + of_nat (length tb) :: 64 word)
                       = length (w_layout base fs) + length tb"
      using unat_of_nat64 [of "length (w_layout base fs) + length tb"] d by simp
    have wr: "ber_written ?b = w_layout base fs @ hd"
    proof -
      have "ber_written ?b = take (?d + length hd) (memcpy (ber_buf b) ?d hd)"
        by (simp add: ber_written_def ber_wcur_def lh)
      also have "\<dots> = take ?d (ber_buf b) @ hd"
        using 2(8) lb by (intro take_memcpy) simp
      also have "take ?d (ber_buf b) = ber_written ber"
        using 2(6,7) by (simp add: ber_written_def)
      finally show ?thesis using w wp by (simp add: ber_writes_def)
    qed
    have "ber_wf ?b"
      using 2(2,4,7,8) lb lh wf by (auto simp: ber_wf_def ber_wcur_def)
    then have "ber_writes ?b (w_open tag w)"
      using w wp wr d ulen off 2(4)
      by (simp add: ber_writes_def tb_def [symmetric] hd_def unat_of_nat64)
    moreover have "ber_options ?b = ber_options ber" "ber_tag ?b = ber_tag ber"
      using 2(3) by (simp_all add: same_frame_def)
    moreover have "ber_end ?b \<le> ber_end ber + 4074"
      using 2(9) tb8 by (simp add: SOS_LENLEN_def)
    ultimately show ?thesis using eq by blast
  qed
qed

text \<open>
  Closing the gap of unused length octets (the DER branch): the \<^verbatim>\<open>memmove\<close> leaves the
  length octets \<open>p\<close> and the contents right behind the tag.
\<close>

lemma close_gap:
  assumes buf: "buf = pre @ h @ c @ junk" and h: "length h = 5" and p: "length p \<le> 5"
    and un: "un = 5 - length p" and i: "i = length pre"
    and b1: "b1 = memcpy buf (i + un) p"
  shows "take (i + (5 + length c - un)) (memcpy b1 i (take (5 + length c - un) (drop (i + un) b1)))
           = pre @ p @ c" (is ?gap)
    and "length (memcpy b1 i (take (5 + length c - un) (drop (i + un) b1))) = length buf" (is ?len)
    and "un = 0 \<Longrightarrow> take (i + (5 + length c)) b1 = pre @ p @ c" (is "_ \<Longrightarrow> ?nogap")
    and "length b1 = length buf"
proof -
  have hsplit: "h = take un h @ drop un h" "length (take un h) = un" "length (drop un h) = length p"
    using h p un by auto
  have b1': "b1 = (pre @ take un h) @ p @ c @ junk"
    unfolding b1 buf using hsplit i by (subst hsplit(1)) (simp add: memcpy_def)
  have mv: "take (5 + length c - un) (drop (i + un) b1) = p @ c"
    unfolding b1' using i hsplit(2) p un by simp
  have l: "length (p @ c) = 5 + length c - un" using p un by simp
  show ?gap
    using take_memcpy [of i b1 "p @ c"] i l b1' unfolding mv by (simp add: add.assoc)
  show ?len
    unfolding mv by (subst length_memcpy) (use l i hsplit(2) p un h in \<open>auto simp: b1' buf\<close>)
  show ?nogap if "un = 0"
    using that i p un by (simp add: b1')
  show "length b1 = length buf"
    using hsplit(2) p un h by (simp add: b1' buf)
qed

text \<open>The run of \<^verbatim>\<open>ber_put_seqorset\<close> on a buffer whose innermost open frame holds \<open>c\<close>.\<close>

definition sos_closed :: "berelement \<Rightarrow> byte list \<Rightarrow> nat \<Rightarrow> nat \<Rightarrow> berelement" where
  "sos_closed ber buf off sos =
     (let b = ber\<lparr>ber_buf := buf, ber_len := of_nat off\<rparr>
      in if off = 0 then b\<lparr>ber_ptr := sos, ber_sos_ptr := None\<rparr> else b\<lparr>ber_sos_ptr := Some sos\<rparr>)"

lemma put_seqorset_words:
  assumes "n \<le> unat MAXINT_BERSIZE"
  shows "unat (of_nat (5 + n) :: 64 word) = 5 + n" and "unat (of_nat n :: 64 word) = n" and "n < 2 ^ 32"
    and "\<not> of_nat (5 + n) > MAXINT_BERSIZE + of_nat SOS_LENLEN"
    and "of_nat (5 + n) - of_nat SOS_LENLEN = (of_nat n :: 64 word)"
proof -
  show n: "n < 2 ^ 32" using assms by (simp add: MAXINT_BERSIZE_def)
  show u: "unat (of_nat (5 + n) :: 64 word) = 5 + n" using n by (intro unat_of_nat64) simp
  show "unat (of_nat n :: 64 word) = n" using n by (intro unat_of_nat64) simp
  have "unat (MAXINT_BERSIZE + of_nat SOS_LENLEN) = unat MAXINT_BERSIZE + 5"
    by (simp add: MAXINT_BERSIZE_def SOS_LENLEN_def)
  then show "\<not> of_nat (5 + n) > MAXINT_BERSIZE + of_nat SOS_LENLEN"
    using assms u by (simp add: word_less_nat_alt)
  show "of_nat (5 + n) - of_nat SOS_LENLEN = (of_nat n :: 64 word)"
    by (simp add: SOS_LENLEN_def)
qed

lemma put_seqorset_run:
  assumes sos: "ber_sos_ptr ber = Some (length pre + (5 + length c))"
    and len: "unat (ber_len ber) = length pre"
    and buf: "ber_buf ber = pre @ (of_nat taglen # le32 (of_nat off)) @ c @ junk"
    and off: "off < 2 ^ 32" and tl: "taglen \<le> 8" and fit: "length c \<le> unat MAXINT_BERSIZE"
    and lo: "lo = seq_len_octets (ber_der ber) (length c)"
  shows "\<exists>buf'. ber_put_seqorset ber
             = (int (taglen + length lo + length c),
                sos_closed ber buf' off (length pre + (length lo + length c)))
           \<and> take (length pre + (length lo + length c)) buf' = pre @ lo @ c
           \<and> length buf' = length (ber_buf ber)"
proof -
  define h where "h = of_nat taglen # le32 (of_nat off)"
  define i where "i = length pre"
  have h5: "length h = 5" and buf': "ber_buf ber = pre @ h @ c @ junk"
    using buf by (simp_all add: h_def)
  note nums = put_seqorset_words [OF fit]
  have lo5: "length lo \<le> 5"
    using length_len_octets [OF nums(3)] by (auto simp: lo seq_len_octets_def long_len_octets_def)
  define un where "un = 5 - length lo"
  define b1 where "b1 = memcpy (ber_buf ber) (i + un) lo"
  note gap = close_gap [OF buf' h5 lo5 un_def i_def b1_def]
  have kl: "5 + length c - un = length lo + length c" using lo5 by (simp add: un_def)
  define b' where "b' = (if un \<noteq> 0
      then memcpy b1 i (take (5 + length c - un) (drop (i + un) b1)) else b1)"
  have tk: "take (i + (length lo + length c)) b' = pre @ lo @ c" and lb: "length b' = length (ber_buf ber)"
    using gap kl by (auto simp: b'_def)
  have hdr: "take SOS_LENLEN (drop i (ber_buf ber)) = h"
    by (simp add: buf' i_def SOS_LENLEN_def h5)
  have h0: "unat (h ! 0) = taglen" "un_le32 (drop 1 h) = of_nat off"
    using tl by (simp_all add: h_def unat_of_nat_byte)
  have x: "(of_int (int (i + (5 + length c)) - int i) :: 64 word) = of_nat (5 + length c)" by simp
  have "ber_put_seqorset ber = (int (taglen + length lo + length c),
          sos_closed ber b' off (i + (length lo + length c)))"
  proof (cases "ber_der ber")
    case True
    then have "ber_options ber AND LBER_USE_DER \<noteq> 0" "ber_prepend_len [] (of_nat (length c)) = lo"
      using nums(2) by (simp_all add: ber_der_def ber_prepend_len_eq lo seq_len_octets_def)
    then show ?thesis
      unfolding ber_put_seqorset_def sos option.case len Let_def i_def [symmetric] x nums(1) if_not_P [OF nums(4)] nums(5) hdr h0
      using kl off
      by (auto simp: sos_closed_def Let_def SOS_LENLEN_def b'_def b1_def un_def ucast_of_nat32 of_nat32_eq_0)
  next
    case False
    then have "ber_options ber AND LBER_USE_DER = 0" "lo = 0x84 # put_len_octets 4 (of_nat (length c)) []"
      by (simp_all add: ber_der_def lo seq_len_octets_def long_len_octets_def)
    then show ?thesis
      unfolding ber_put_seqorset_def sos option.case len Let_def i_def [symmetric] x nums(1) if_not_P [OF nums(4)] nums(5) hdr h0
      using kl off
      by (auto simp: sos_closed_def Let_def SOS_LENLEN_def b'_def b1_def un_def ucast_of_nat32 of_nat32_eq_0)
  qed
  then show ?thesis using tk lb i_def by blast
qed

lemma ber_put_seqorset_sim:
  assumes w: "ber_writes ber (base, (t, c) # fs)" and fit: "length c \<le> unat MAXINT_BERSIZE"
  shows "\<exists>ber'. ber_put_seqorset ber = (int (length (seq_tlv (ber_der ber) t c)), ber')
           \<and> ber_writes ber' (w_close (ber_der ber) (base, (t, c) # fs)) \<and> ber_end ber' = ber_end ber
           \<and> ber_options ber' = ber_options ber \<and> ber_tag ber' = ber_tag ber"
proof -
  define tb where "tb = be_bytes (unat t)"
  define L where "L = w_layout base fs"
  define off where "off = w_offset base fs"
  define h where "h = of_nat (length tb) # le32 (of_nat off)"
  define lo where "lo = seq_len_octets (ber_der ber) (length c)"
  have wf: "ber_wf ber" and wr: "ber_written ber = (L @ tb) @ h @ c"
    and len: "unat (ber_len ber) = length (L @ tb)" and off: "off < 2 ^ 32"
    and fits: "w_fits base fs" and ptr: "ber_ptr ber = length base"
    using w by (auto simp: ber_writes_def L_def tb_def h_def off_def)
  have wc: "ber_wcur ber = length (L @ tb) + (5 + length c)"
    using written_length [OF wf] wr by (simp add: h_def)
  have sos: "ber_sos_ptr ber = Some (length (L @ tb) + (5 + length c))"
    using w wc by (cases "ber_sos_ptr ber") (auto simp: ber_writes_def ber_wcur_def)
  have buf: "ber_buf ber = (L @ tb) @ h @ c @ drop (ber_wcur ber) (ber_buf ber)"
    using wr by (metis append_assoc append_take_drop_id ber_written_def)
  have tl8: "length tb \<le> 8" unfolding tb_def by (rule length_tag_octets)
  obtain buf' where run: "ber_put_seqorset ber = (int (length tb + length lo + length c),
        sos_closed ber buf' off (length (L @ tb) + (length lo + length c)))"
    and tk: "take (length (L @ tb) + (length lo + length c)) buf' = (L @ tb) @ lo @ c"
    and lb: "length buf' = length (ber_buf ber)"
    using put_seqorset_run [OF sos len buf [unfolded h_def] off tl8 fit lo_def] by blast
  define b where "b = sos_closed ber buf' off (length (L @ tb) + (length lo + length c))"
  have lo5: "length lo \<le> 5"
    using length_len_octets [OF put_seqorset_words(3) [OF fit]]
    by (auto simp: lo_def seq_len_octets_def long_len_octets_def)
  have o0: "off = 0 \<longleftrightarrow> fs = []" unfolding off_def by (cases fs) auto
  have base: "length base \<le> length L" unfolding L_def by (induction base fs rule: w_fits.induct) auto
  have "ber_writes b (w_put (tb @ lo @ c) (base, fs))"
  proof (cases fs)
    case Nil
    then show ?thesis
      using wf lb tk wc lo5 o0
      by (auto simp: b_def sos_closed_def ber_writes_def ber_wf_def ber_wcur_def ber_written_def L_def)
  next
    case (Cons f fs')
    obtain u d where f: "f = (u, d)" by (cases f)
    have "unat (of_nat off :: 64 word) = off" using off by (intro unat_of_nat64) simp
    then show ?thesis
      using wf lb tk wc lo5 o0 base ptr fits off unfolding Cons f
      by (auto simp: b_def sos_closed_def ber_writes_def ber_wf_def ber_wcur_def ber_written_def
                     L_def off_def Cons f)
  qed
  moreover have "ber_options b = ber_options ber" "ber_tag b = ber_tag ber" "ber_end b = ber_end ber"
    by (simp_all add: b_def sos_closed_def Let_def)
  ultimately show ?thesis
    using run unfolding b_def [symmetric]
    by (intro exI [of _ b]) (simp add: seq_tlv_def tb_def lo_def)
qed

lemma ber_put_seqorset_none: "ber_sos_ptr ber = None \<Longrightarrow> ber_put_seqorset ber = (-1, ber)"
  by (simp add: ber_put_seqorset_def)

lemma ber_put_seqorset_too_long:
  assumes w: "ber_writes ber (base, (t, c) # fs)" and big: "unat MAXINT_BERSIZE < length c"
  shows "ber_put_seqorset ber = (-1, ber) \<and> \<not> affordable ma ber 4061"
proof -
  have wf: "ber_wf ber" using w by (simp add: ber_writes_def)
  have wc: "ber_wcur ber = w_offset base ((t, c) # fs) + (5 + length c)"
    using written_length [OF wf] w by (simp add: ber_writes_def)
  obtain sos where sos: "ber_sos_ptr ber = Some sos" "sos = unat (ber_len ber) + (5 + length c)"
    using w wc by (cases "ber_sos_ptr ber") (auto simp: ber_writes_def ber_wcur_def)
  have "5 + length c < 2 ^ 64" using wf wc by (simp add: ber_wf_def)
  then have "unat (of_nat (5 + length c) :: 64 word) = 5 + length c" by (rule unat_of_nat64)
  moreover have "unat (MAXINT_BERSIZE + of_nat SOS_LENLEN) = unat MAXINT_BERSIZE + 5"
    by (simp add: MAXINT_BERSIZE_def SOS_LENLEN_def)
  ultimately have "of_nat (5 + length c) > MAXINT_BERSIZE + of_nat SOS_LENLEN"
    using big by (simp add: word_less_nat_alt)
  moreover have "\<not> affordable ma ber 4061"
    using big wf wc by (simp add: affordable_def ber_wf_def MAXINT_BERSIZE_def)
  ultimately show ?thesis using sos by (simp add: ber_put_seqorset_def Let_def)
qed

lemma ber_put_seqorset_options: "ber_options (snd (ber_put_seqorset ber)) = ber_options ber"
  by (simp add: ber_put_seqorset_def Let_def split: option.split prod.split)

section \<open>Primitive elements\<close>

lemma w_put_put [simp]: "w_put b (w_put a w) = w_put (a @ b) w"
  by (cases "(a, w)" rule: w_put.cases) simp_all

lemma w_put_Nil [simp]: "w_put [] w = w"
  by (cases "([] :: byte list, w)" rule: w_put.cases) simp_all

lemma length_put_int_octets:
  "0 < k \<Longrightarrow> unat unum < 128 * 256 ^ (k - 1) \<Longrightarrow>
     length (put_int_octets sign unum ptr) \<le> length ptr + k"
proof (induction k arbitrary: unum ptr)
  case 0
  then show ?case by simp
next
  case (Suc k)
  show ?case
  proof (cases "unum < 0x80")
    case True
    then show ?thesis by (simp add: put_int_octets.simps [of sign unum ptr] Let_def)
  next
    case False
    then have "128 \<le> unat unum" by (simp add: word_less_nat_alt)
    then obtain k' where k': "k = Suc k'" using Suc.prems(2) by (cases k) auto
    have "unat (drop_bit 8 unum) < 128 * 256 ^ (k - 1)"
      using Suc.prems(2) unfolding unat_drop_bit8 k' by (simp add: less_mult_imp_div_less mult.commute)
    then have "length (put_int_octets sign (drop_bit 8 unum) ((sign XOR ucast unum) # ptr))
                 \<le> length ((sign XOR ucast unum) # ptr) + k"
      using Suc.IH k' by blast
    then show ?thesis
      using False by (simp only: put_int_octets.simps [of sign unum ptr] Let_def) simp
  qed
qed

lemma unat_not_negative: "(num :: 32 word) <s 0 \<Longrightarrow> unat (NOT num) < 2 ^ 31"
  by (intro unat_less_if_sign_clear) (simp add: sless_0_iff_bit bit_not_iff)

lemma unat_nonnegative: "\<not> (num :: 32 word) <s 0 \<Longrightarrow> unat num < 2 ^ 31"
  by (intro unat_less_if_sign_clear) (simp add: sless_0_iff_bit)

lemma length_int_content: "length (int_content num) \<le> 4"
  using length_put_int_octets [of 4 "NOT num" "0xff" "[]"] length_put_int_octets [of 4 num 0 "[]"]
        unat_not_negative [of num] unat_nonnegative [of num]
  by (auto simp: int_content_def)

text \<open>
  Outcome of an encoding call: \<open>-1\<close>, which does not happen where \<open>k\<close> octets are
  affordable, or the octets \<open>bs\<close> were appended, their number is the return code and the
  buffer grew by at most \<open>k\<close>.
\<close>

definition appends ::
  "allocator \<Rightarrow> nat \<Rightarrow> berelement \<Rightarrow> writer \<Rightarrow> byte list \<Rightarrow> int \<times> berelement \<Rightarrow> bool" where
  "appends ma k ber w bs r \<longleftrightarrow>
     (fst r = -1 \<and> \<not> affordable ma ber k)
   \<or> (fst r = int (length bs) \<and> ber_writes (snd r) (w_put bs w) \<and> same_frame (snd r) ber
        \<and> ber_end (snd r) \<le> ber_end ber + k)"

lemma ber_write_appends:
  "ber_writes ber w \<Longrightarrow> length bs < 2 ^ 64 \<Longrightarrow>
     appends ma (length bs + 4061) ber w bs (ber_write ma ber bs 0)"
  using ber_write_sim [of ber w bs ma] by (auto simp: appends_def)

lemma appends_mono: "appends ma j ber w bs r \<Longrightarrow> j \<le> k \<Longrightarrow> appends ma k ber w bs r"
  by (auto simp: appends_def dest: affordable_mono [of ma ber k ber j])

text \<open>A header and then the contents, as \<^verbatim>\<open>ber_put_ostring\<close> and \<^verbatim>\<open>ber_put_bitstring\<close> write them.\<close>

lemma write_two_appends:
  assumes w: "ber_writes ber w" and l: "length a < 2 ^ 64" "length b < 2 ^ 64"
  shows "appends ma (length a + length b + 8122) ber w (a @ b)
           (case ber_write ma ber a 0 of (rc, ber1) \<Rightarrow>
              if rc \<ge> 0 then (case ber_write ma ber1 b 0 of
                 (rc2, ber2) \<Rightarrow> if rc2 \<ge> 0 then (rc + int (length b), ber2) else (-1, ber2))
              else (-1, ber1))"
proof -
  consider "ber_write ma ber a 0 = (-1, ber)" "\<not> affordable ma ber (length a + 4061)"
    | b1 where "ber_write ma ber a 0 = (int (length a), b1)" "ber_writes b1 (w_put a w)" "same_frame b1 ber"
        "ber_end b1 \<le> ber_end ber + (length a + 4061)"
    using ber_write_sim [OF w l(1)] by blast
  then show ?thesis
  proof cases
    case 1
    then show ?thesis by (auto simp: appends_def affordable_def)
  next
    case 2
    consider "ber_write ma b1 b 0 = (-1, b1)" "\<not> affordable ma b1 (length b + 4061)"
      | b2 where "ber_write ma b1 b 0 = (int (length b), b2)" "ber_writes b2 (w_put b (w_put a w))" "same_frame b2 b1"
          "ber_end b2 \<le> ber_end b1 + (length b + 4061)"
      using ber_write_sim [OF 2(2) l(2)] by blast
    then show ?thesis
      using 2 by cases (auto simp: appends_def affordable_def intro: same_frame_trans)
  qed
qed

text \<open>The tag a call uses when the caller leaves the choice to the library.\<close>

definition tag_or :: "ber_tag_t \<Rightarrow> ber_tag_t \<Rightarrow> ber_tag_t" where
  "tag_or d t = (if t = LBER_DEFAULT then d else t)"

lemma tlv_short: "length c < 128 \<Longrightarrow> be_bytes (unat t) @ of_nat (length c) # c = tlv t c"
  by (simp add: tlv_def len_octets_def)

lemma length_short_tlv: "length c \<le> 4 \<Longrightarrow> length (tlv t c) \<le> 13"
  using length_tag_octets [of t] by (simp add: tlv_def len_octets_def)

text \<open>Elements with at most four octets of contents are written in one piece.\<close>

lemma write_short_appends:
  assumes "ber_writes ber w" and c: "length c \<le> 4"
  shows "appends ma 4074 ber w (tlv t c) (ber_write ma ber (be_bytes (unat t) @ of_nat (length c) # c) 0)"
proof -
  have "appends ma (length (tlv t c) + 4061) ber w (tlv t c) (ber_write ma ber (tlv t c) 0)"
    using length_short_tlv [OF c, of t] by (intro ber_write_appends assms(1)) simp
  then show ?thesis
    using length_short_tlv [OF c, of t] c by (auto simp: tlv_short elim: appends_mono)
qed

lemma ber_put_int_or_enum_appends:
  "ber_writes ber w \<Longrightarrow> appends ma 4074 ber w (tlv tag (int_content num)) (ber_put_int_or_enum ma ber num tag)"
  unfolding ber_put_int_or_enum_def ber_prepend_tag_eq Let_def
  by (rule write_short_appends) (simp_all add: length_int_content)

lemma ber_put_int_appends:
  "ber_writes ber w \<Longrightarrow>
     appends ma 4074 ber w (tlv (tag_or LBER_INTEGER tag) (int_content num)) (ber_put_int ma ber num tag)"
  unfolding ber_put_int_def tag_or_def by (rule ber_put_int_or_enum_appends)

lemma ber_put_enum_appends:
  "ber_writes ber w \<Longrightarrow>
     appends ma 4074 ber w (tlv (tag_or LBER_ENUMERATED tag) (int_content num)) (ber_put_enum ma ber num tag)"
  unfolding ber_put_enum_def tag_or_def by (rule ber_put_int_or_enum_appends)

lemma ber_put_null_appends:
  "ber_writes ber w \<Longrightarrow> appends ma 4074 ber w (tlv (tag_or LBER_NULL tag) []) (ber_put_null ma ber tag)"
  using write_short_appends [of ber w "[]" ma "tag_or LBER_NULL tag"]
  by (simp add: ber_put_null_def ber_prepend_tag_eq tag_or_def)

definition bool_content :: "ber_int_t \<Rightarrow> byte list" where
  "bool_content v = [if v \<noteq> 0 then 0xff else 0]"

lemma ber_put_boolean_appends:
  "ber_writes ber w \<Longrightarrow>
     appends ma 4074 ber w (tlv (tag_or LBER_BOOLEAN tag) (bool_content v)) (ber_put_boolean ma ber v tag)"
  using write_short_appends [of ber w "bool_content v" ma "tag_or LBER_BOOLEAN tag"]
  by (simp add: ber_put_boolean_def ber_prepend_tag_eq tag_or_def Let_def bool_content_def)

lemma length_header: "n < 2 ^ 32 \<Longrightarrow> length (be_bytes (unat (t :: ber_tag_t)) @ len_octets n) \<le> 13"
  using length_tag_octets [of t] length_len_octets [of n] by simp

lemma ber_put_ostring_appends:
  assumes w: "ber_writes ber w" and l: "length str < 2 ^ 64"
  shows "appends ma (length str + 8135) ber w (tlv (tag_or LBER_OCTETSTRING tag) str)
           (ber_put_ostring ma ber str tag)"
proof (cases "of_nat (length str) > MAXINT_BERSIZE")
  case True
  have "unat (of_nat (length str) :: 64 word) = length str" using l by (rule unat_of_nat64)
  then have "\<not> affordable ma ber (length str + 8135)"
    using True by (simp add: affordable_def word_less_nat_alt MAXINT_BERSIZE_def)
  then show ?thesis using True by (simp add: ber_put_ostring_def Let_def appends_def)
next
  case False
  let ?h = "be_bytes (unat (tag_or LBER_OCTETSTRING tag)) @ len_octets (length str)"
  have u: "unat (of_nat (length str) :: 64 word) = length str" using l by (rule unat_of_nat64)
  then have "length str < 2 ^ 32" using False by (simp add: word_less_nat_alt MAXINT_BERSIZE_def)
  then have h: "length ?h \<le> 13" by (rule length_header)
  then have "length ?h < 2 ^ 64" by simp
  from write_two_appends [OF w this l, of ma]
  have "appends ma (length ?h + length str + 8122) ber w (tlv (tag_or LBER_OCTETSTRING tag) str)
          (ber_put_ostring ma ber str tag)"
    using False u
    by (simp add: ber_put_ostring_def Let_def ber_prepend_tag_eq ber_prepend_len_eq tag_or_def tlv_def)
  then show ?thesis using h by (auto elim: appends_mono)
qed

end
