(* ===== verification/Ber_Printf.thy ===== *)
theory Ber_Printf
  imports Ber_Writer
begin

text \<open>
  Formatted encoding with \<^verbatim>\<open>ber_printf\<close>: trees of elements, the format and arguments a
  caller writes for them, and their encoding.  The interface of a writer with nested
  sequences is the locale \<open>element_sink\<close>; the element of the code is an instance of it.
\<close>

section \<open>The interface of a writer\<close>

locale element_sink =
  fixes rel :: "'s \<Rightarrow> writer \<Rightarrow> bool"
    and der :: bool
    and opn :: "'s \<Rightarrow> ber_tag_t \<Rightarrow> int \<times> 's"
    and cls :: "'s \<Rightarrow> int \<times> 's"
  assumes opn_sim:
    "rel s w \<Longrightarrow> fst (opn s t) \<noteq> -1 \<Longrightarrow> rel (snd (opn s t)) (w_open t w)"
  assumes cls_sim:
    "rel s (base, (t, c) # fs) \<Longrightarrow> fst (cls s) \<noteq> -1 \<Longrightarrow>
       rel (snd (cls s)) (w_put (seq_tlv der t c) (base, fs))"
begin

text \<open>
  Whatever is written between an opening and its closing becomes the contents of one
  element, when every call in between appends \<open>bs\<close>.
\<close>

lemma bracket:
  assumes w: "rel s w" and o: "fst (opn s t) \<noteq> -1"
    and body: "\<And>s' w'. rel s' w' \<Longrightarrow> fst (body s') \<noteq> -1 \<Longrightarrow> rel (snd (body s')) (w_put bs w')"
    and b: "fst (body (snd (opn s t))) \<noteq> -1"
    and c: "fst (cls (snd (body (snd (opn s t))))) \<noteq> -1"
  shows "rel (snd (cls (snd (body (snd (opn s t)))))) (w_put (seq_tlv der t bs) w)"
proof -
  obtain base fs where wp: "w = (base, fs)" by (cases w)
  have "rel (snd (body (snd (opn s t)))) (w_put bs (w_open t w))"
    using body [OF opn_sim [OF w o] b] .
  then have "rel (snd (body (snd (opn s t)))) (base, (t, bs) # fs)"
    by (simp add: wp)
  then show ?thesis using cls_sim c wp by blast
qed

end

text \<open>The element of the code, in BER or in DER mode, is such a writer.\<close>

interpretation ber_sink: element_sink
  "\<lambda>ber w. ber_writes ber w \<and> ber_der ber = der" der
  "\<lambda>ber t. ber_start_seqorset ma ber t" ber_put_seqorset
  for ma der
proof (unfold_locales, goal_cases)
  case (1 ber w t)
  then show ?case
    using ber_start_seqorset_sim [of ber w ma t] by (auto simp: ber_der_def)
next
  case (2 ber base t c fs)
  show ?case
  proof (cases "length c \<le> unat MAXINT_BERSIZE")
    case True
    then show ?thesis
      using 2 ber_put_seqorset_sim [of ber base t c fs] by (auto simp: ber_der_def)
  next
    case False
    then show ?thesis
      using 2 ber_put_seqorset_too_long [of ber base t c fs ma] by simp
  qed
qed

section \<open>Trees of elements\<close>

datatype ber_item =
    BNull ber_tag_t
  | BBool ber_tag_t ber_int_t
  | BInt ber_tag_t ber_int_t
  | BEnum ber_tag_t ber_int_t
  | BOctets ber_tag_t "byte list"
  | BSeq ber_tag_t "ber_item list"
  | BSet ber_tag_t "ber_item list"

fun item_fmt :: "ber_item \<Rightarrow> string" where
  "item_fmt (BNull t) = ''tn''"
| "item_fmt (BBool t v) = ''tb''"
| "item_fmt (BInt t n) = ''ti''"
| "item_fmt (BEnum t n) = ''te''"
| "item_fmt (BOctets t s) = ''to''"
| "item_fmt (BSeq t is) = ''t{'' @ concat (map item_fmt is) @ ''}''"
| "item_fmt (BSet t is) = ''t['' @ concat (map item_fmt is) @ '']''"

fun item_args :: "ber_item \<Rightarrow> printf_arg list" where
  "item_args (BNull t) = [PaTag t]"
| "item_args (BBool t v) = [PaTag t, PaInt v]"
| "item_args (BInt t n) = [PaTag t, PaInt n]"
| "item_args (BEnum t n) = [PaTag t, PaInt n]"
| "item_args (BOctets t s) = [PaTag t, PaOctets s]"
| "item_args (BSeq t is) = PaTag t # concat (map item_args is)"
| "item_args (BSet t is) = PaTag t # concat (map item_args is)"

text \<open>The encoding: tag, length, contents, all the way down.\<close>

fun item_enc :: "bool \<Rightarrow> ber_item \<Rightarrow> byte list" where
  "item_enc der (BNull t) = tlv (tag_or LBER_NULL t) []"
| "item_enc der (BBool t v) = tlv (tag_or LBER_BOOLEAN t) (bool_content v)"
| "item_enc der (BInt t n) = tlv (tag_or LBER_INTEGER t) (int_content n)"
| "item_enc der (BEnum t n) = tlv (tag_or LBER_ENUMERATED t) (int_content n)"
| "item_enc der (BOctets t s) = tlv (tag_or LBER_OCTETSTRING t) s"
| "item_enc der (BSeq t is) = seq_tlv der (tag_or LBER_SEQUENCE t) (concat (map (item_enc der) is))"
| "item_enc der (BSet t is) = seq_tlv der (tag_or LBER_SET t) (concat (map (item_enc der) is))"

text \<open>Octet strings of a size a C program can hold.\<close>

fun item_ok :: "ber_item \<Rightarrow> bool" where
  "item_ok (BOctets t s) = (length s < 2 ^ 64)"
| "item_ok (BSeq t is) = list_all item_ok is"
| "item_ok (BSet t is) = list_all item_ok is"
| "item_ok _ = True"

section \<open>Running a format\<close>

lemma printf_loop_failed [simp]: "ber_printf_loop ma (-1) ber fmt args = Some (-1, ber)"
  by (cases fmt) simp_all

text \<open>
  The loop over \<open>fmt\<close> either fails for good, which it does not where \<open>k\<close> octets are
  affordable, or continues with the rest of the format in a state where \<open>bs\<close> has been
  appended and the buffer has grown by at most \<open>k\<close>.
\<close>

definition runs_to ::
  "allocator \<Rightarrow> nat \<Rightarrow> berelement \<Rightarrow> writer \<Rightarrow> byte list \<Rightarrow> string \<Rightarrow> printf_arg list
     \<Rightarrow> (int \<times> berelement) option \<Rightarrow> bool" where
  "runs_to ma k ber w bs fmt args r \<longleftrightarrow>
     ((\<exists>ber'. r = Some (-1, ber')) \<and> \<not> affordable ma ber k)
   \<or> (\<exists>rc ber'. rc \<noteq> -1 \<and> ber_writes ber' (w_put bs w) \<and> ber_options ber' = ber_options ber
        \<and> ber_end ber' \<le> ber_end ber + k
        \<and> r = ber_printf_loop ma rc ber' fmt args)"

lemma ber_writes_tag [simp]: "ber_writes (ber\<lparr>ber_tag := t\<rparr>) w = ber_writes ber w"
  by (cases w) (simp add: ber_writes_def ber_wf_def ber_wcur_def ber_written_def cong: option.case_cong)

lemma runs_to_appends:
  assumes a: "appends ma k (ber\<lparr>ber_tag := t\<rparr>) w bs (put (ber\<lparr>ber_tag := t\<rparr>))"
    and conv: "\<And>rc. printf_conv ma c rc (ber\<lparr>ber_tag := t\<rparr>) args0
             = (case put (ber\<lparr>ber_tag := t\<rparr>) of (rc', b) \<Rightarrow> Some (rc', b, False, args))"
    and rc: "rc \<noteq> -1"
  shows "runs_to ma k ber w bs fmt args
           (ber_printf_loop ma rc ber (CHR ''t'' # c # fmt) (PaTag t # args0))"
proof -
  have t: "printf_conv ma (CHR ''t'') rc ber (PaTag t # args0) = Some (rc, ber\<lparr>ber_tag := t\<rparr>, True, args0)"
    by (simp add: printf_conv.simps)
  obtain rc' b where p: "put (ber\<lparr>ber_tag := t\<rparr>) = (rc', b)" by (cases "put (ber\<lparr>ber_tag := t\<rparr>)")
  have l: "ber_printf_loop ma rc ber (CHR ''t'' # c # fmt) (PaTag t # args0)
             = ber_printf_loop ma rc' (b\<lparr>ber_tag := LBER_DEFAULT\<rparr>) fmt args"
    using rc by (simp add: t conv p)
  show ?thesis
  proof (cases "rc' = -1")
    case True
    then have "\<not> affordable ma ber k" using a by (auto simp: appends_def p affordable_def)
    then show ?thesis using True unfolding runs_to_def l by simp
  next
    case False
    then have "ber_writes b (w_put bs w)" "ber_options b = ber_options ber" "ber_end b \<le> ber_end ber + k"
      using a by (auto simp: appends_def p same_frame_def)
    then show ?thesis
      using False unfolding runs_to_def l
      by (intro disjI2 exI [of _ rc'] exI [of _ "b\<lparr>ber_tag := LBER_DEFAULT\<rparr>"]) simp
  qed
qed

text \<open>A run from a later element is a run from an earlier one that it can be charged to.\<close>

lemma runs_to_charge:
  assumes r: "runs_to ma j b w bs fmt args r" and o: "ber_options b = ber_options a"
    and e: "ber_end b + j \<le> ber_end a + k"
  shows "runs_to ma k a w bs fmt args r"
  using r unfolding runs_to_def [of ma j]
proof (elim disjE conjE exE)
  fix b' assume "r = Some (-1, b')" "\<not> affordable ma b j"
  moreover have "\<not> affordable ma a k" using calculation(2) e by (auto simp: affordable_def)
  ultimately show ?thesis by (simp add: runs_to_def)
next
  fix rc b' assume "rc \<noteq> -1" "ber_writes b' (w_put bs w)" "ber_options b' = ber_options b"
    "ber_end b' \<le> ber_end b + j" "r = ber_printf_loop ma rc b' fmt args"
  then show ?thesis
    using o e unfolding runs_to_def by (intro disjI2 exI [of _ rc] exI [of _ b']) simp
qed

lemma runs_to_trans:
  assumes r: "runs_to ma j ber w bs (fmt1 @ fmt) (args1 @ args) r"
    and next': "\<And>rc ber'. rc \<noteq> -1 \<Longrightarrow> ber_writes ber' (w_put bs w) \<Longrightarrow> ber_options ber' = ber_options ber \<Longrightarrow>
             runs_to ma k ber' (w_put bs w) bs' fmt args
               (ber_printf_loop ma rc ber' (fmt1 @ fmt) (args1 @ args))"
  shows "runs_to ma (j + k) ber w (bs @ bs') fmt args r"
  using r unfolding runs_to_def [of ma j ber w bs]
proof (elim disjE exE conjE)
  fix ber' assume "r = Some (-1, ber')" "\<not> affordable ma ber j"
  then show ?thesis by (auto simp: runs_to_def affordable_def)
next
  fix rc ber' assume *: "rc \<noteq> -1" "ber_writes ber' (w_put bs w)" "ber_options ber' = ber_options ber"
    "ber_end ber' \<le> ber_end ber + j" "r = ber_printf_loop ma rc ber' (fmt1 @ fmt) (args1 @ args)"
  have "runs_to ma (j + k) ber (w_put bs w) bs' fmt args r"
    using *(4) unfolding *(5) by (intro runs_to_charge [OF next' [OF *(1-3)] *(3)]) simp
  then show ?thesis by (simp add: runs_to_def)
qed

lemma ber_der_cong: "ber_options a = ber_options b \<Longrightarrow> ber_der a = ber_der b"
  by (simp add: ber_der_def)

text \<open>The memory a tree of elements needs at most.\<close>

fun item_cost :: "ber_item \<Rightarrow> nat" where
  "item_cost (BOctets t s) = length s + 8135"
| "item_cost (BSeq t is) = 4074 + (sum_list (map item_cost is) + 4061)"
| "item_cost (BSet t is) = 4074 + (sum_list (map item_cost is) + 4061)"
| "item_cost _ = 4074"

lemma items_run:
  assumes "\<And>it ber w rc fmt args. it \<in> set is \<Longrightarrow> item_ok it \<Longrightarrow> ber_writes ber w \<Longrightarrow> rc \<noteq> -1 \<Longrightarrow>
       runs_to ma (item_cost it) ber w (item_enc (ber_der ber) it) fmt args
         (ber_printf_loop ma rc ber (item_fmt it @ fmt) (item_args it @ args))"
    and "list_all item_ok is" and "ber_writes ber w" and "rc \<noteq> -1"
  shows "runs_to ma (sum_list (map item_cost is)) ber w (concat (map (item_enc (ber_der ber)) is)) fmt args
           (ber_printf_loop ma rc ber (concat (map item_fmt is) @ fmt) (concat (map item_args is) @ args))"
  using assms
proof (induction "is" arbitrary: ber w rc)
  case Nil
  then show ?case by (auto simp: runs_to_def)
next
  case (Cons it "is")
  let ?F = "concat (map item_fmt is)" and ?A = "concat (map item_args is)"
  have head: "runs_to ma (item_cost it) ber w (item_enc (ber_der ber) it) (?F @ fmt) (?A @ args)
      (ber_printf_loop ma rc ber (item_fmt it @ ?F @ fmt) (item_args it @ ?A @ args))"
    using Cons.prems by simp
  have rest: "runs_to ma (sum_list (map item_cost is)) ber' (w_put (item_enc (ber_der ber) it) w)
       (concat (map (item_enc (ber_der ber)) is)) fmt args
       (ber_printf_loop ma rc' ber' (?F @ fmt) (?A @ args))"
    if "rc' \<noteq> -1" "ber_writes ber' (w_put (item_enc (ber_der ber) it) w)" "ber_options ber' = ber_options ber"
    for rc' ber'
    using Cons.IH [OF _ _ that(2,1)] Cons.prems(1,2) ber_der_cong [OF that(3)] by simp
  show ?case
    unfolding list.map concat.simps sum_list.Cons append_assoc
    by (rule runs_to_trans [OF head]) (rule rest)
qed

text \<open>The closing bracket after the contents \<open>bs\<close> of the innermost frame.\<close>

lemma closing_run:
  assumes cls: "\<And>rc ber args. printf_conv ma c' rc ber args
         = (case ber_put_seqorset ber of (rc', b) \<Rightarrow> Some (rc', b, False, args))"
    and w: "ber_writes b (base, (t', bs) # fs)" and rc: "rc \<noteq> -1"
  shows "runs_to ma 4061 b (base, fs) (seq_tlv (ber_der b) t' bs) fmt args
           (ber_printf_loop ma rc b (c' # fmt) args)" (is "runs_to _ _ _ _ _ _ _ ?r")
proof -
  obtain r3 b3 where p: "ber_put_seqorset b = (r3, b3)" by (cases "ber_put_seqorset b")
  have r: "?r = ber_printf_loop ma r3 (b3\<lparr>ber_tag := LBER_DEFAULT\<rparr>) fmt args"
    using rc by (simp add: cls p)
  show ?thesis
  proof (cases "length bs \<le> unat MAXINT_BERSIZE")
    case True
    then have e: "ber_end b3 = ber_end b" and r3: "r3 \<noteq> -1"
      using ber_put_seqorset_sim [OF w] p by auto
    have "ber_writes b3 (w_put (seq_tlv (ber_der b) t' bs) (base, fs))"
      using ber_sink.cls_sim [of b base t' bs fs "ber_der b"] w p r3 by simp
    then show ?thesis
      using r3 e ber_put_seqorset_options [of b] p unfolding runs_to_def r
      by (intro disjI2 exI [of _ r3] exI [of _ "b3\<lparr>ber_tag := LBER_DEFAULT\<rparr>"]) simp
  next
    case False
    then show ?thesis
      using ber_put_seqorset_too_long [OF w, of ma] p unfolding runs_to_def r by simp
  qed
qed

text \<open>An opening bracket, the elements inside and the closing bracket.\<close>

lemma bracket_run:
  assumes body: "\<And>ber w rc fmt args. ber_writes ber w \<Longrightarrow> rc \<noteq> -1 \<Longrightarrow>
         runs_to ma k ber w (cs (ber_der ber)) fmt args (ber_printf_loop ma rc ber (F @ fmt) (A @ args))"
    and opn: "\<And>rc args. printf_conv ma c rc (ber\<lparr>ber_tag := t\<rparr>) args
         = (case ber_start_seqorset ma (ber\<lparr>ber_tag := t\<rparr>) t' of (rc', b) \<Rightarrow> Some (rc', b, False, args))"
    and cls: "\<And>rc ber args. printf_conv ma c' rc ber args
         = (case ber_put_seqorset ber of (rc', b) \<Rightarrow> Some (rc', b, False, args))"
    and w: "ber_writes ber w" and rc: "rc \<noteq> -1"
  shows "runs_to ma (4074 + (k + 4061)) ber w (seq_tlv (ber_der ber) t' (cs (ber_der ber))) fmt args
           (ber_printf_loop ma rc ber (CHR ''t'' # c # F @ c' # fmt) (PaTag t # A @ args))"
    (is "runs_to _ _ _ _ _ _ _ ?r")
proof -
  let ?ct = "ber\<lparr>ber_tag := t\<rparr>"
  obtain base fs where wp: "w = (base, fs)" by (cases w)
  have tconv: "printf_conv ma (CHR ''t'') rc ber (PaTag t # A @ args) = Some (rc, ?ct, True, A @ args)"
    by (simp add: printf_conv.simps)
  obtain r1 b1 where s: "ber_start_seqorset ma ?ct t' = (r1, b1)" by (cases "ber_start_seqorset ma ?ct t'")
  define b1' where "b1' = b1\<lparr>ber_tag := LBER_DEFAULT\<rparr>"
  have r: "?r = ber_printf_loop ma r1 b1' (F @ c' # fmt) (A @ args)"
    using rc by (simp add: tconv opn s b1'_def)
  have sim: "(r1 = -1 \<and> \<not> affordable ma ber 4074) \<or>
       (r1 = 0 \<and> ber_end b1' \<le> ber_end ber + 4074 \<and> ber_options b1' = ber_options ber)"
    using ber_start_seqorset_sim [of ?ct w ma t'] w s by (auto simp: b1'_def affordable_def)
  show ?thesis
  proof (cases "r1 = -1")
    case True
    then show ?thesis using sim unfolding runs_to_def r by (auto simp: affordable_def)
  next
    case False
    have w1: "ber_writes b1' (base, (t', []) # fs)"
      using ber_sink.opn_sim [of ?ct w "ber_der ?ct" ma t'] w s False by (simp add: wp b1'_def)
    have D: "ber_der b1' = ber_der ber" using sim False by (intro ber_der_cong) simp
    have inner: "runs_to ma k b1' (base, (t', []) # fs) (cs (ber_der ber)) ([] @ c' # fmt) ([] @ args) ?r"
      using body [OF w1 False, of "c' # fmt" args] by (simp only: r D append_Nil)
    have outer: "runs_to ma (k + 4061) b1' (base, fs) (seq_tlv (ber_der ber) t' (cs (ber_der ber))) fmt args ?r"
      using inner unfolding runs_to_def [of ma k]
    proof (elim disjE exE conjE)
      fix b assume "?r = Some (-1, b)" "\<not> affordable ma b1' k"
      then show ?thesis unfolding runs_to_def by (auto simp: affordable_def)
    next
      fix r2 b2 assume b2: "r2 \<noteq> -1" "ber_writes b2 (w_put (cs (ber_der ber)) (base, (t', []) # fs))"
        "ber_options b2 = ber_options b1'" "ber_end b2 \<le> ber_end b1' + k"
        "?r = ber_printf_loop ma r2 b2 ([] @ c' # fmt) ([] @ args)"
      have "runs_to ma 4061 b2 (base, fs) (seq_tlv (ber_der b2) t' (cs (ber_der ber))) fmt args ?r"
        using closing_run [where c' = c' and ma = ma and b = b2 and rc = r2, OF cls _ b2(1)] b2(2,5) by simp
      then have "runs_to ma 4061 b2 (base, fs) (seq_tlv (ber_der ber) t' (cs (ber_der ber))) fmt args ?r"
        by (simp only: ber_der_cong [OF b2(3)] D)
      then show ?thesis using b2(3) by (rule runs_to_charge) (use b2(4) in simp)
    qed
    then show ?thesis
      unfolding wp by (rule runs_to_charge) (use sim False in auto)
  qed
qed

lemma item_run:
  assumes "item_ok it" and "ber_writes ber w" and "rc \<noteq> -1"
  shows "runs_to ma (item_cost it) ber w (item_enc (ber_der ber) it) fmt args
           (ber_printf_loop ma rc ber (item_fmt it @ fmt) (item_args it @ args))"
  using assms
proof (induction it arbitrary: ber w rc fmt args)
  case (BNull t)
  show ?case
    using runs_to_appends [where put = "\<lambda>b. ber_put_null ma b t" and c = "CHR ''n''" and t = t
        and ma = ma and ?args0.0 = args, OF ber_put_null_appends [of "ber\<lparr>ber_tag := t\<rparr>" w ma t]]
      BNull by (simp add: printf_conv.simps)
next
  case (BBool t v)
  show ?case
    using runs_to_appends [where put = "\<lambda>b. ber_put_boolean ma b v t" and c = "CHR ''b''" and t = t
        and ma = ma and ?args0.0 = "PaInt v # args", OF ber_put_boolean_appends [of "ber\<lparr>ber_tag := t\<rparr>" w ma t v]]
      BBool by (simp add: printf_conv.simps)
next
  case (BInt t n)
  show ?case
    using runs_to_appends [where put = "\<lambda>b. ber_put_int ma b n t" and c = "CHR ''i''" and t = t
        and ma = ma and ?args0.0 = "PaInt n # args", OF ber_put_int_appends [of "ber\<lparr>ber_tag := t\<rparr>" w ma t n]]
      BInt by (simp add: printf_conv.simps)
next
  case (BEnum t n)
  show ?case
    using runs_to_appends [where put = "\<lambda>b. ber_put_enum ma b n t" and c = "CHR ''e''" and t = t
        and ma = ma and ?args0.0 = "PaInt n # args", OF ber_put_enum_appends [of "ber\<lparr>ber_tag := t\<rparr>" w ma t n]]
      BEnum by (simp add: printf_conv.simps)
next
  case (BOctets t str)
  show ?case
    using runs_to_appends [where put = "\<lambda>b. ber_put_ostring ma b str t" and c = "CHR ''o''" and t = t
        and ma = ma and ?args0.0 = "PaOctets str # args", OF ber_put_ostring_appends [of "ber\<lparr>ber_tag := t\<rparr>" w str ma t]]
      BOctets by (simp add: printf_conv.simps)
next
  case (BSeq t "is")
  have body: "runs_to ma (sum_list (map item_cost is)) ber w (concat (map (item_enc (ber_der ber)) is)) fmt args
     (ber_printf_loop ma rc ber (concat (map item_fmt is) @ fmt) (concat (map item_args is) @ args))"
    if "ber_writes ber w" "rc \<noteq> -1" for ber w rc fmt args
    using items_run [of "is" ma ber w rc fmt args] BSeq.IH BSeq.prems(1) that by simp
  show ?case
    using bracket_run [where cs = "\<lambda>d. concat (map (item_enc d) is)" and c = "CHR ''{''" and c' = "CHR ''}''"
        and t = t and t' = "tag_or LBER_SEQUENCE t" and ma = ma, OF body] BSeq.prems
    by (simp add: printf_conv.simps ber_start_seq_def tag_or_def)
next
  case (BSet t "is")
  have body: "runs_to ma (sum_list (map item_cost is)) ber w (concat (map (item_enc (ber_der ber)) is)) fmt args
     (ber_printf_loop ma rc ber (concat (map item_fmt is) @ fmt) (concat (map item_args is) @ args))"
    if "ber_writes ber w" "rc \<noteq> -1" for ber w rc fmt args
    using items_run [of "is" ma ber w rc fmt args] BSet.IH BSet.prems(1) that by simp
  show ?case
    using bracket_run [where cs = "\<lambda>d. concat (map (item_enc d) is)" and c = "CHR ''[''" and c' = "CHR '']''"
        and t = t and t' = "tag_or LBER_SET t" and ma = ma, OF body] BSet.prems
    by (simp add: printf_conv.simps ber_start_set_def tag_or_def)
qed

lemma ber_printf_run:
  assumes ok: "list_all item_ok is" and mem: "\<forall>n. ma n"
    and small: "sum_list (map item_cost is) < 2 ^ 31"
  shows "\<exists>rc ber. ber_printf ma (ber_alloc_t opt) (concat (map item_fmt is)) (concat (map item_args is))
                   = Some (rc, ber)
            \<and> rc \<noteq> -1 \<and> ber_wf ber \<and> ber_sos_ptr ber = None \<and> ber_end ber < 2 ^ 31
            \<and> take (ber_ptr ber) (ber_buf ber) = concat (map (item_enc (opt AND LBER_USE_DER \<noteq> 0)) is)"
proof -
  let ?k = "sum_list (map item_cost is)" and ?b = "ber_alloc_t opt"
  have D: "ber_der ?b = (opt AND LBER_USE_DER \<noteq> 0)" by (simp add: ber_der_def ber_alloc_t_def)
  have aff: "affordable ma ?b ?k" using mem small by (simp add: affordable_def ber_alloc_t_def)
  have "runs_to ma ?k ?b ([], []) (concat (map (item_enc (ber_der ?b)) is)) [] []
          (ber_printf_loop ma 0 ?b (concat (map item_fmt is) @ []) (concat (map item_args is) @ []))"
    by (rule items_run [OF item_run ok ber_writes_alloc]) simp_all
  then obtain rc b where b: "rc \<noteq> -1" "ber_writes b (w_put (concat (map (item_enc (ber_der ?b)) is)) ([], []))"
    "ber_printf_loop ma 0 ?b (concat (map item_fmt is)) (concat (map item_args is)) = Some (rc, b)"
    "ber_end b \<le> ber_end ?b + ?k"
    using aff by (auto simp: runs_to_def)
  then have "ber_end b < 2 ^ 31" using small by (simp add: ber_alloc_t_def)
  then show ?thesis
    using b by (auto simp: ber_printf_def D ber_writes_def ber_written_def ber_wcur_def)
qed

section \<open>Properties\<close>

text \<open>
  C1: a \<^verbatim>\<open>ber_printf\<close> of any list of element trees into a fresh element, in BER or in DER mode,
  returns successfully, and \<^verbatim>\<open>ber_flatten2\<close> turns the element into exactly the concatenated
  encodings (nested sequences and sets with their definite lengths filled in), when memory is
  granted and the octets stay below 2 GB.
\<close>

theorem ber_printf_encodes:
  assumes ok: "list_all item_ok is" and mem: "\<forall>n. ma n"
    and small: "sum_list (map item_cost is) < 2 ^ 31"
  shows "\<exists>rc ber. ber_printf ma (ber_alloc_t opt) (concat (map item_fmt is)) (concat (map item_args is))
                   = Some (rc, ber)
            \<and> rc \<noteq> -1
            \<and> ber_flatten2 ma (Some ber) True
                = Inr (0, concat (map (item_enc (opt AND LBER_USE_DER \<noteq> 0)) is), Some ber)"
proof -
  obtain rc ber where r:
    "ber_printf ma (ber_alloc_t opt) (concat (map item_fmt is)) (concat (map item_args is)) = Some (rc, ber)"
    "rc \<noteq> -1" "ber_sos_ptr ber = None"
    "take (ber_ptr ber) (ber_buf ber) = concat (map (item_enc (opt AND LBER_USE_DER \<noteq> 0)) is)"
    using ber_printf_run [OF assms, of opt] by blast
  then show ?thesis
    using mem by (intro exI [of _ rc] exI [of _ ber]) (simp add: ber_flatten2_def ber_pvt_ber_write_def)
qed

theorem ber_printf_encodes_witness:
  "\<exists>rc ber. ber_printf (\<lambda>_. True) (ber_alloc_t LBER_USE_DER) ''t{titb}''
                [PaTag LBER_DEFAULT, PaTag 2, PaInt 300, PaTag 1, PaInt 1] = Some (rc, ber)
       \<and> rc \<noteq> -1
       \<and> ber_flatten2 (\<lambda>_. True) (Some ber) True
           = Inr (0, item_enc True (BSeq LBER_DEFAULT [BInt 2 300, BBool 1 1]), Some ber)"
  using ber_printf_encodes [of "[BSeq LBER_DEFAULT [BInt 2 300, BBool 1 1]]" "\<lambda>_. True" LBER_USE_DER]
  by simp

end
