(* ===== verification/Ber_Decode.thy ===== *)
theory Ber_Decode
  imports Ber_Encode
begin

text \<open>
  The BER decoder of \<^verbatim>\<open>liblber/decode.c\<close>.  A berval that points into the element's buffer
  is the offset of its first octet and its length.  Out-parameters become components of the
  result, and an out-parameter that the code leaves unset is \<open>None\<close>.
\<close>

section \<open>Tags and lengths\<close>

record berval =
  bv_val :: nat
  bv_len :: ber_len_t

text \<open>The \<^verbatim>\<open>do ... while\<close> loop over the further octets of a multi-octet tag.\<close>

fun tag_octets_loop ::
  "berelement \<Rightarrow> ber_tag_t \<Rightarrow> nat \<Rightarrow> nat \<Rightarrow> ber_tag_t \<times> nat \<times> nat" where
  "tag_octets_loop ber tag ptr 0 = (LBER_DEFAULT, ptr, 0)"
| "tag_octets_loop ber tag ptr (Suc rest) =
     (let tag' = push_bit 8 tag OR ucast (ber_at ber ptr)
      in if tag' AND 0x80 = 0 then (tag', Suc ptr, rest)
         else if tag' \<le> (-1) div 256 then tag_octets_loop ber tag' (Suc ptr) rest
         else (LBER_DEFAULT, Suc ptr, rest))"

definition ber_tag_and_rest :: "berelement \<Rightarrow> ber_tag_t \<times> berval" where
  "ber_tag_and_rest ber =
     (let ptr = ber_ptr ber; rest = int (ber_end ber) - int ptr
      in if rest \<le> 0 then (LBER_DEFAULT, \<lparr>bv_val = ptr, bv_len = of_int rest\<rparr>)
         else let tag = (if ptr = 0 then ucast (ber_at ber ptr) else ber_tag ber);
                  rest1 = nat rest - 1
              in if tag AND 0x1f \<noteq> 0x1f then (tag, \<lparr>bv_val = Suc ptr, bv_len = of_nat rest1\<rparr>)
                 else case tag_octets_loop ber tag (Suc ptr) rest1 of
                        (tag', ptr', rest') \<Rightarrow> (tag', \<lparr>bv_val = ptr', bv_len = of_nat rest'\<rparr>))"

definition ber_get_tag :: "berelement \<Rightarrow> ber_tag_t \<times> berelement" where
  "ber_get_tag ber = (case ber_tag_and_rest ber of (tag, bv) \<Rightarrow> (tag, ber\<lparr>ber_ptr := bv_val bv\<rparr>))"

text \<open>The loop over \<open>i\<close> length octets.\<close>

fun len_octets_loop :: "berelement \<Rightarrow> ber_len_t \<Rightarrow> nat \<Rightarrow> nat \<Rightarrow> ber_len_t" where
  "len_octets_loop ber len ptr 0 = len"
| "len_octets_loop ber len ptr (Suc i) =
     len_octets_loop ber (push_bit 8 len OR ucast (ber_at ber ptr)) (Suc ptr) i"

definition ber_peek_element :: "berelement \<Rightarrow> ber_tag_t \<times> berval" where
  "ber_peek_element ber =
     (case ber_tag_and_rest ber of (tag, bv) \<Rightarrow>
        let rest = bv_len bv; ptr = bv_val bv
        in if tag = LBER_DEFAULT \<or> rest = 0 then (LBER_DEFAULT, \<lparr>bv_val = ptr, bv_len = 0\<rparr>)
           else
             let len = (ucast (ber_at ber ptr) :: ber_len_t); ptr1 = Suc ptr; rest1 = rest - 1
             in if len AND 0x80 \<noteq> 0 then
                  let n = len AND 0x7f
                  in if n - 1 > 8 - 1 \<or> rest1 < n
                     then (LBER_DEFAULT, \<lparr>bv_val = ptr1, bv_len = n\<rparr>)
                     else
                       let rest2 = rest1 - n;
                           len' = len_octets_loop ber (ucast (ber_at ber ptr1)) (Suc ptr1) (unat n - 1)
                       in (if len' > rest2 then LBER_DEFAULT else tag,
                           \<lparr>bv_val = ptr1 + unat n, bv_len = len'\<rparr>)
                else (if len > rest1 then LBER_DEFAULT else tag, \<lparr>bv_val = ptr1, bv_len = len\<rparr>))"

definition ber_skip_element :: "berelement \<Rightarrow> ber_tag_t \<times> berval \<times> berelement" where
  "ber_skip_element ber =
     (case ber_peek_element ber of (tag, bv) \<Rightarrow>
        if tag \<noteq> LBER_DEFAULT
        then let p = bv_val bv + unat (bv_len bv)
             in (tag, bv, ber\<lparr>ber_ptr := p, ber_tag := ucast (ber_at ber p)\<rparr>)
        else (tag, bv, ber))"

definition ber_peek_tag :: "berelement \<Rightarrow> ber_tag_t \<times> ber_len_t" where
  "ber_peek_tag ber = (case ber_peek_element ber of (tag, bv) \<Rightarrow> (tag, bv_len bv))"

definition ber_skip_tag :: "berelement \<Rightarrow> ber_tag_t \<times> ber_len_t \<times> berelement" where
  "ber_skip_tag ber =
     (case ber_peek_element ber of (tag, bv) \<Rightarrow>
        (tag, bv_len bv,
         ber\<lparr>ber_ptr := bv_val bv, ber_tag := ucast (ber_at ber (bv_val bv))\<rparr>))"

text \<open>The octets a berval points at.\<close>

definition ber_octets :: "berelement \<Rightarrow> berval \<Rightarrow> byte list" where
  "ber_octets ber bv = map (ber_at ber) [bv_val bv ..< bv_val bv + unat (bv_len bv)]"

section \<open>Primitive values\<close>

text \<open>Sign extension of the first octet, then one shift per octet.\<close>

definition int_of_octets :: "byte list \<Rightarrow> ber_int_t" where
  "int_of_octets buf =
     (case buf of
        [] \<Rightarrow> 0
      | b # bs \<Rightarrow> foldl (\<lambda>netnum x. push_bit 8 netnum OR ucast x) ((ucast b XOR 0x80) - 0x80) bs)"

definition ber_get_int :: "berelement \<Rightarrow> ber_tag_t \<times> ber_int_t option \<times> berelement" where
  "ber_get_int ber =
     (case ber_skip_element ber of (tag, bv, ber') \<Rightarrow>
        if tag = LBER_DEFAULT \<or> bv_len bv > 4 then (LBER_DEFAULT, None, ber')
        else (tag, Some (int_of_octets (ber_octets ber bv)), ber'))"

definition ber_get_enum :: "berelement \<Rightarrow> ber_tag_t \<times> ber_int_t option \<times> berelement" where
  "ber_get_enum ber = ber_get_int ber"

definition ber_get_boolean :: "berelement \<Rightarrow> ber_tag_t \<times> ber_int_t option \<times> berelement" where
  "ber_get_boolean ber = ber_get_int ber"

definition ber_get_null :: "berelement \<Rightarrow> ber_tag_t \<times> berelement" where
  "ber_get_null ber =
     (case ber_skip_tag ber of (tag, len, ber') \<Rightarrow> (if len = 0 then tag else LBER_DEFAULT, ber'))"

text \<open>
  \<^verbatim>\<open>ber_get_stringb\<close> copies into the caller's buffer of \<open>len\<close> octets, with a terminating
  \<^verbatim>\<open>'\0'\<close>; the octets come back without it.
\<close>

definition ber_get_stringb :: "berelement \<Rightarrow> ber_len_t \<Rightarrow> ber_tag_t \<times> byte list option \<times> ber_len_t \<times> berelement" where
  "ber_get_stringb ber len =
     (case ber_skip_element ber of (tag, bv, ber') \<Rightarrow>
        if tag = LBER_DEFAULT then (LBER_DEFAULT, None, len, ber')
        else if bv_len bv \<ge> len then (LBER_DEFAULT, None, len, ber')
        else (tag, Some (ber_octets ber bv), bv_len bv, ber'))"

text \<open>A string result: NULL, a pointer into the buffer, or an allocated copy.\<close>

datatype strval = SNull | SInPlace nat | SCopy "byte list"

abbreviation (input) LBER_BV_ALLOC :: "16 word" where "LBER_BV_ALLOC \<equiv> 1"
abbreviation (input) LBER_BV_NOTERM :: "16 word" where "LBER_BV_NOTERM \<equiv> 2"
abbreviation (input) LBER_BV_STRING :: "16 word" where "LBER_BV_STRING \<equiv> 4"

text \<open>The common tail: copy when asked to, and terminate the string.\<close>

definition finish_string ::
  "allocator \<Rightarrow> berelement \<Rightarrow> berval \<Rightarrow> 16 word \<Rightarrow> ber_tag_t \<Rightarrow> ber_tag_t \<times> strval \<times> ber_len_t \<times> berelement" where
  "finish_string ma ber bv option tag =
     (if option AND LBER_BV_ALLOC \<noteq> 0 then
        (if ber_memalloc_x ma (unat (bv_len bv + 1)) then (tag, SCopy (ber_octets ber bv), bv_len bv, ber)
         else (LBER_DEFAULT, SNull, bv_len bv, ber))
      else (tag, SInPlace (bv_val bv), bv_len bv,
            if option AND LBER_BV_NOTERM = 0
            then ber\<lparr>ber_buf := (ber_buf ber)[bv_val bv + unat (bv_len bv) := 0]\<rparr>
            else ber))"

definition embedded_nul :: "berelement \<Rightarrow> berval \<Rightarrow> bool" where
  "embedded_nul ber bv \<longleftrightarrow> 0 \<in> set (take (unat (bv_len bv) - 1) (ber_octets ber bv))"

definition ber_get_stringbv ::
  "allocator \<Rightarrow> berelement \<Rightarrow> 16 word \<Rightarrow> ber_tag_t \<times> strval \<times> ber_len_t \<times> berelement" where
  "ber_get_stringbv ma ber option =
     (case ber_skip_element ber of (tag, bv, ber') \<Rightarrow>
        if tag = LBER_DEFAULT \<or> (option AND LBER_BV_STRING \<noteq> 0 \<and> bv_len bv \<noteq> 0 \<and> embedded_nul ber' bv)
        then (LBER_DEFAULT, SNull, bv_len bv, ber')
        else finish_string ma ber' bv option tag)"

definition ber_get_stringbv_null ::
  "allocator \<Rightarrow> berelement \<Rightarrow> 16 word \<Rightarrow> ber_tag_t \<times> strval \<times> ber_len_t \<times> berelement" where
  "ber_get_stringbv_null ma ber option =
     (case ber_skip_element ber of (tag, bv, ber') \<Rightarrow>
        if tag = LBER_DEFAULT \<or> bv_len bv = 0 then (tag, SNull, bv_len bv, ber')
        else if option AND LBER_BV_STRING \<noteq> 0 \<and> embedded_nul ber' bv
        then (LBER_DEFAULT, SNull, bv_len bv, ber')
        else finish_string ma ber' bv option tag)"

definition ber_get_stringa :: "allocator \<Rightarrow> berelement \<Rightarrow> ber_tag_t \<times> strval \<times> berelement" where
  "ber_get_stringa ma ber =
     (case ber_get_stringbv ma ber (LBER_BV_ALLOC OR LBER_BV_STRING) of
        (tag, s, _, ber') \<Rightarrow> (tag, s, ber'))"

definition ber_get_stringa_null :: "allocator \<Rightarrow> berelement \<Rightarrow> ber_tag_t \<times> strval \<times> berelement" where
  "ber_get_stringa_null ma ber =
     (case ber_get_stringbv_null ma ber (LBER_BV_ALLOC OR LBER_BV_STRING) of
        (tag, s, _, ber') \<Rightarrow> (tag, s, ber'))"

text \<open>The berval itself is allocated first; NULL is \<open>None\<close>.\<close>

definition ber_get_stringal ::
  "allocator \<Rightarrow> berelement \<Rightarrow> ber_tag_t \<times> (strval \<times> ber_len_t) option \<times> berelement" where
  "ber_get_stringal ma ber =
     (if \<not> ber_memalloc_x ma 16 then (LBER_DEFAULT, None, ber)
      else case ber_get_stringbv ma ber LBER_BV_ALLOC of
             (tag, s, len, ber') \<Rightarrow>
               (tag, if tag = LBER_DEFAULT then None else Some (s, len), ber'))"

definition ber_get_bitstringa ::
  "allocator \<Rightarrow> berelement \<Rightarrow> ber_tag_t \<times> byte list option \<times> ber_len_t option \<times> berelement" where
  "ber_get_bitstringa ma ber =
     (case ber_skip_element ber of (tag, bv, ber') \<Rightarrow>
        if tag = LBER_DEFAULT then (LBER_DEFAULT, None, None, ber')
        else let len = bv_len bv - 1
             in if len > (-1) div 8 then (LBER_DEFAULT, None, None, ber')
                else let unusedbits = ber_at ber (bv_val bv);
                         data = \<lparr>bv_val = Suc (bv_val bv), bv_len = len\<rparr>
                     in if unusedbits > 7 then (LBER_DEFAULT, None, None, ber')
                        else if 0 \<in> set (ber_octets ber data) then (LBER_DEFAULT, None, None, ber')
                        else if \<not> ber_memalloc_x ma (unat len) then (LBER_DEFAULT, None, None, ber')
                        else (tag, Some (ber_octets ber data), Some (len * 8 - ucast unusedbits), ber'))"

section \<open>Walking through a sequence\<close>

text \<open>\<^verbatim>\<open>last\<close> is the offset behind the sequence, \<open>None\<close> for the NULL of a failure.\<close>

definition ber_first_element ::
  "berelement \<Rightarrow> ber_tag_t \<times> ber_len_t \<times> nat option \<times> berelement" where
  "ber_first_element ber =
     (case ber_skip_tag ber of (tag, len, ber') \<Rightarrow>
        if tag = LBER_DEFAULT then (LBER_DEFAULT, len, None, ber')
        else let lst = ber_ptr ber' + unat len
             in if len = 0 then (LBER_DEFAULT, len, Some lst, ber')
                else case ber_peek_tag ber' of (tag', len') \<Rightarrow> (tag', len', Some lst, ber'))"

definition ber_next_element :: "berelement \<Rightarrow> ber_len_t \<Rightarrow> nat \<Rightarrow> ber_tag_t \<times> ber_len_t" where
  "ber_next_element ber len lst =
     (if ber_ptr ber \<ge> lst then (LBER_DEFAULT, len) else ber_peek_tag ber)"

section \<open>Sequences of strings\<close>

text \<open>An element that was skipped left the cursor further on, so a loop of skips ends.\<close>

lemma tag_octets_loop_ptr: "ptr \<le> fst (snd (tag_octets_loop ber tag ptr rest))"
proof (induction rest arbitrary: tag ptr)
  case (Suc rest)
  have "ptr \<le> fst (snd (tag_octets_loop ber t (Suc ptr) rest))" for t
    by (rule order_trans [OF _ Suc.IH]) simp
  then show ?case by (simp add: Let_def)
qed simp

lemma tag_and_rest_ptr:
  "fst (ber_tag_and_rest ber) = LBER_DEFAULT \<or> ber_ptr ber < bv_val (snd (ber_tag_and_rest ber))"
  using tag_octets_loop_ptr [of "Suc (ber_ptr ber)" ber]
  by (auto simp: ber_tag_and_rest_def Let_def less_eq_Suc_le split: prod.splits)
     (metis fst_conv snd_conv)+

lemma peek_element_ptr:
  assumes "ber_peek_element ber = (tag, bv)" and "tag \<noteq> LBER_DEFAULT"
  shows "ber_ptr ber < bv_val bv"
  using assms tag_and_rest_ptr [of ber]
  by (auto simp: ber_peek_element_def Let_def split: prod.splits if_splits)

lemma skip_element_ptr:
  assumes "ber_skip_element ber = (tag, bv, ber')" and "tag \<noteq> LBER_DEFAULT"
  shows "ber_ptr ber < ber_ptr ber'"
proof -
  obtain t b where p: "ber_peek_element ber = (t, b)" by (cases "ber_peek_element ber")
  then have "t = tag" "ber_ptr ber' = bv_val b + unat (bv_len b)"
    using assms by (auto simp: ber_skip_element_def Let_def split: if_splits)
  then show ?thesis using peek_element_ptr [OF p] assms(2) by simp
qed

text \<open>
  The counting loop of \<^verbatim>\<open>ber_get_stringbvl\<close>: \<open>i\<close> is an \<^verbatim>\<open>int\<close> (read by \<open>sint\<close>; it wraps around)
  and \<open>tot_size\<close> a \<^verbatim>\<open>ber_len_t\<close>.
\<close>

function count_elements ::
  "ber_len_t \<Rightarrow> berelement \<Rightarrow> nat \<Rightarrow> 32 word \<Rightarrow> ber_len_t \<Rightarrow> 32 word \<times> ber_len_t \<times> berelement" where
  "count_elements siz ber lst i tot_size =
     (if ber_ptr ber < lst then
        (case ber_skip_element ber of (tag, bv, ber') \<Rightarrow>
           if tag = LBER_DEFAULT then (i, tot_size, ber')
           else count_elements siz ber' lst (i + 1) (tot_size + siz))
      else (i, tot_size, ber))"
  by pat_completeness auto
termination
  by (relation "measure (\<lambda>(siz, ber, lst, i, tot_size). lst - ber_ptr ber)") (auto dest!: skip_element_ptr [OF sym])

declare count_elements.simps [simp del]

datatype bgbvc = ChArray | BvArray | BvVec | BvOff

text \<open>
  The second loop: one \<^verbatim>\<open>ber_get_stringbv\<close> per element, and for a vector of pointers one
  more allocation each.  On failure everything collected so far is freed again.  The last
  argument is the number of rounds left.
\<close>

fun stringbvl_loop ::
  "allocator \<Rightarrow> bgbvc \<Rightarrow> 16 word \<Rightarrow> berelement \<Rightarrow> ber_tag_t \<Rightarrow> (strval \<times> ber_len_t) list \<Rightarrow> nat
     \<Rightarrow> ber_tag_t \<times> (strval \<times> ber_len_t) list option \<times> berelement" where
  "stringbvl_loop ma choice option ber tag acc 0 = (tag, Some acc, ber)"
| "stringbvl_loop ma choice option ber tag acc (Suc k) =
     (case ber_get_stringbv ma ber option of (tag', s, len, ber') \<Rightarrow>
        if tag' = LBER_DEFAULT \<or> (choice = BvVec \<and> \<not> ber_memalloc_x ma 16) then (LBER_DEFAULT, None, ber')
        else stringbvl_loop ma choice option ber' tag' (acc @ [(s, len)]) k)"

text \<open>
  The result is the return code, the vector (\<open>None\<close> for NULL), the count left in the cookie's
  \<^verbatim>\<open>siz\<close>, and the element.  \<open>siz\<close> is the size of one entry of the vector.  The second loop is a
  \<^verbatim>\<open>do ... while (++n < i)\<close>: it runs \<open>i\<close> times, and once for an \<open>i\<close> below 1.
\<close>

definition ber_get_stringbvl ::
  "allocator \<Rightarrow> bgbvc \<Rightarrow> 16 word \<Rightarrow> ber_len_t \<Rightarrow> berelement
     \<Rightarrow> ber_tag_t \<times> (strval \<times> ber_len_t) list option \<times> ber_len_t \<times> berelement" where
  "ber_get_stringbvl ma choice option siz ber =
     (case ber_skip_tag ber of (tag0, len, ber1) \<Rightarrow>
        let (tag, i, tot_size, ber2) =
          (if tag0 \<noteq> LBER_DEFAULT then
             let orig = ber_ptr ber1; lst = orig + unat len;
                 (n, tot, b) = count_elements siz ber1 lst 0 0;
                 ok = (ber_ptr b = lst)
             in (if ok then 0 else LBER_DEFAULT, if ok then n else 0, tot,
                 b\<lparr>ber_ptr := orig, ber_tag := ucast (ber_at b orig)\<rparr>)
           else (tag0, 0, 0, ber1))
        in if i = 0 then (tag, None, scast i, ber2)
           else if \<not> ber_memalloc_x ma (unat (tot_size + siz)) then (LBER_DEFAULT, None, scast i, ber2)
           else case stringbvl_loop ma choice option ber2 tag [] (nat (max 1 (sint i))) of
                  (tag', res, ber3) \<Rightarrow> (tag', res, scast i, ber3))"

section \<open>Formatted decoding\<close>

text \<open>
  The arguments of a \<^verbatim>\<open>ber_scanf\<close> format: hooks, the buffer size behind \<^verbatim>\<open>s\<close>, the record
  size behind \<^verbatim>\<open>M\<close>; all others are plain out-parameters.  What each argument holds
  afterwards is a \<open>scan_out\<close>; \<open>None\<close> stands for an out-parameter not written or NULL.
\<close>

datatype scanf_arg =
    SaHook "berelement \<Rightarrow> bool \<Rightarrow> ber_tag_t \<times> berelement"
  | SaBuf ber_len_t
  | SaRecords ber_len_t
  | SaOut

datatype scan_out =
    SoHook "berelement \<Rightarrow> bool \<Rightarrow> ber_tag_t \<times> berelement"
  | SoStr strval
  | SoInt "ber_int_t option"
  | SoBits "byte list option" "ber_len_t option"
  | SoLen ber_len_t
  | SoBerval strval ber_len_t
  | SoBervalp "(strval \<times> ber_len_t) option"
  | SoBuf "byte list option" ber_len_t
  | SoTag ber_tag_t
  | SoVec "(strval \<times> ber_len_t) list option"
  | SoRecords "(strval \<times> ber_len_t) list option" ber_len_t

definition scan_vec ::
  "ber_tag_t \<times> (strval \<times> ber_len_t) list option \<times> ber_len_t \<times> berelement \<Rightarrow> ber_tag_t \<times> scan_out \<times> berelement" where
  "scan_vec r = (case r of (t, v, n, b) \<Rightarrow> (t, SoVec v, b))"

text \<open>Conversions that take one argument: the return code, what the argument holds, the element.\<close>

fun scanf_value ::
  "allocator \<Rightarrow> char \<Rightarrow> berelement \<Rightarrow> scanf_arg \<Rightarrow> (ber_tag_t \<times> scan_out \<times> berelement) option" where
  "scanf_value ma c ber arg =
     (if c = CHR ''!'' then
        (case arg of SaHook f \<Rightarrow> (case f ber False of (t, b) \<Rightarrow> Some (t, SoHook f, b)) | _ \<Rightarrow> None)
      else if c = CHR ''a'' then
        (case ber_get_stringa ma ber of (t, s, b) \<Rightarrow> Some (t, SoStr s, b))
      else if c = CHR ''A'' then
        (case ber_get_stringa_null ma ber of (t, s, b) \<Rightarrow> Some (t, SoStr s, b))
      else if c = CHR ''b'' then
        (case ber_get_boolean ber of (t, v, b) \<Rightarrow> Some (t, SoInt v, b))
      else if c = CHR ''B'' then
        (case ber_get_bitstringa ma ber of (t, v, l, b) \<Rightarrow> Some (t, SoBits v l, b))
      else if c = CHR ''e'' \<or> c = CHR ''i'' then
        (case ber_get_int ber of (t, v, b) \<Rightarrow> Some (t, SoInt v, b))
      else if c = CHR ''l'' then
        (case ber_peek_tag ber of (t, l) \<Rightarrow> Some (t, SoLen l, ber))
      else if c = CHR ''m'' then
        (case ber_get_stringbv ma ber 0 of (t, s, l, b) \<Rightarrow> Some (t, SoBerval s l, b))
      else if c = CHR ''M'' then
        (case arg of SaRecords siz \<Rightarrow>
           (case ber_get_stringbvl ma BvOff 0 siz ber of (t, v, n, b) \<Rightarrow> Some (t, SoRecords v n, b))
         | _ \<Rightarrow> None)
      else if c = CHR ''o'' then
        (case ber_get_stringbv ma ber LBER_BV_ALLOC of (t, s, l, b) \<Rightarrow> Some (t, SoBerval s l, b))
      else if c = CHR ''O'' then
        (case ber_get_stringal ma ber of (t, v, b) \<Rightarrow> Some (t, SoBervalp v, b))
      else if c = CHR ''s'' then
        (case arg of SaBuf l \<Rightarrow>
           (case ber_get_stringb ber l of (t, s, l', b) \<Rightarrow> Some (t, SoBuf s l', b))
         | _ \<Rightarrow> None)
      else if c = CHR ''t'' then
        (case ber_peek_tag ber of (t, l) \<Rightarrow> Some (t, SoTag t, ber))
      else if c = CHR ''T'' then
        (case ber_skip_tag ber of (t, l, b) \<Rightarrow> Some (t, SoTag t, b))
      else if c = CHR ''v'' then
        Some (scan_vec (ber_get_stringbvl ma ChArray (LBER_BV_ALLOC OR LBER_BV_STRING) 8 ber))
      else if c = CHR ''V'' then Some (scan_vec (ber_get_stringbvl ma BvVec LBER_BV_ALLOC 8 ber))
      else if c = CHR ''W'' then Some (scan_vec (ber_get_stringbvl ma BvArray LBER_BV_ALLOC 16 ber))
      else None)"

declare scanf_value.simps [simp del]

text \<open>Conversions without an argument; \<open>rest\<close> is the format behind the character.\<close>

definition scanf_noarg :: "char \<Rightarrow> string \<Rightarrow> ber_tag_t \<Rightarrow> berelement \<Rightarrow> (ber_tag_t \<times> berelement) option" where
  "scanf_noarg c rest rc ber =
     (if c = CHR ''n'' then Some (ber_get_null ber)
      else if c = CHR ''x'' then (case ber_skip_element ber of (t, bv, b) \<Rightarrow> Some (t, b))
      else if c = CHR ''{'' \<or> c = CHR ''['' then
        (if rest \<noteq> [] \<and> hd rest \<in> {CHR ''v'', CHR ''V'', CHR ''W'', CHR ''M''} then Some (rc, ber)
         else (case ber_skip_tag ber of (t, l, b) \<Rightarrow> Some (t, b)))
      else if c = CHR ''}'' \<or> c = CHR '']'' then Some (rc, ber)
      else None)"

definition scanf_takes_arg :: "char \<Rightarrow> bool" where
  "scanf_takes_arg c \<longleftrightarrow> c \<in> set ''!aAbBeilmMoOstTvVW''"

text \<open>
  The conversion loop, with the outputs so far (newest first).  \<open>Inr\<close> holds the outcome;
  \<open>Inl\<close> is a bad call: a format character the code does not know, which sets the return
  code to \<^verbatim>\<open>LBER_DEFAULT\<close> and then runs into the \<^verbatim>\<open>assert( 0 )\<close> of the cleanup, or an
  argument list that does not fit the format.
\<close>

datatype scanf_bug = UnknownFormat char | BadArguments

fun ber_scanf_loop ::
  "allocator \<Rightarrow> ber_tag_t \<Rightarrow> berelement \<Rightarrow> string \<Rightarrow> scanf_arg list \<Rightarrow> scan_out list
     \<Rightarrow> scanf_bug + (ber_tag_t \<times> berelement \<times> scan_out list)" where
  "ber_scanf_loop ma rc ber [] args outs = Inr (rc, ber, outs)"
| "ber_scanf_loop ma rc ber (c # fmt) args outs =
     (if rc = LBER_DEFAULT then Inr (rc, ber, outs)
      else if scanf_takes_arg c then
        (case args of
           [] \<Rightarrow> Inl BadArguments
         | a # args' \<Rightarrow>
             (case scanf_value ma c ber a of
                None \<Rightarrow> Inl BadArguments
              | Some (rc', v, ber') \<Rightarrow> ber_scanf_loop ma rc' ber' fmt args' (v # outs)))
      else (case scanf_noarg c fmt rc ber of
              None \<Rightarrow> Inl (UnknownFormat c)
            | Some (rc', ber') \<Rightarrow> ber_scanf_loop ma rc' ber' fmt args outs))"

text \<open>
  The cleanup after an error: allocated results are freed and their pointers set to NULL,
  data lengths set to 0; integers and tags stay.  Hooks are called again with mode 1.
\<close>

fun scanf_reset :: "scan_out \<Rightarrow> scan_out" where
  "scanf_reset (SoStr s) = SoStr SNull"
| "scanf_reset (SoBits v l) = SoBits None (Some 0)"
| "scanf_reset (SoLen l) = SoLen 0"
| "scanf_reset (SoBerval s l) = SoBerval SNull 0"
| "scanf_reset (SoBervalp p) = SoBervalp None"
| "scanf_reset (SoBuf s l) = SoBuf s 0"
| "scanf_reset (SoVec v) = SoVec None"
| "scanf_reset (SoRecords v n) = SoRecords None 0"
| "scanf_reset v = v"

fun scanf_cleanup :: "berelement \<Rightarrow> scan_out list \<Rightarrow> berelement \<times> scan_out list" where
  "scanf_cleanup ber [] = (ber, [])"
| "scanf_cleanup ber (v # vs) =
     (let ber' = (case v of SoHook f \<Rightarrow> snd (f ber True) | _ \<Rightarrow> ber);
          (ber'', vs') = scanf_cleanup ber' vs
      in (ber'', scanf_reset v # vs'))"

definition ber_scanf ::
  "allocator \<Rightarrow> berelement \<Rightarrow> string \<Rightarrow> scanf_arg list
     \<Rightarrow> scanf_bug + (ber_tag_t \<times> berelement \<times> scan_out list)" where
  "ber_scanf ma ber fmt args =
     (case ber_scanf_loop ma 0 ber fmt args [] of
        Inl bug \<Rightarrow> Inl bug
      | Inr (rc, ber', outs) \<Rightarrow>
          if rc = LBER_DEFAULT
          then (case scanf_cleanup ber' (rev outs) of (ber'', vs) \<Rightarrow> Inr (rc, ber'', vs))
          else Inr (rc, ber', rev outs))"

end
