(* ===== verification/Ber_Reader.thy ===== *)
theory Ber_Reader
  imports Ber_Decode Ber_Writer
begin

text \<open>
  What the decoder sees.  The octet under the read cursor may have been overwritten by the
  \<^verbatim>\<open>'\0'\<close> that terminates the element before it, and is then found in \<^verbatim>\<open>ber_tag\<close>; the view of
  an element is the list of octets still to be read, with that octet restored.
\<close>

section \<open>The view of an element\<close>

definition ber_view :: "berelement \<Rightarrow> byte list" where
  "ber_view ber =
     (if ber_ptr ber < ber_end ber
      then (if ber_ptr ber = 0 then ber_at ber 0 else ucast (ber_tag ber))
             # map (ber_at ber) [Suc (ber_ptr ber) ..< ber_end ber]
      else [])"

text \<open>A readable element: the cursor is inside the data, and \<^verbatim>\<open>ber_tag\<close> holds one octet.\<close>

definition ber_rd :: "berelement \<Rightarrow> bool" where
  "ber_rd ber \<longleftrightarrow> ber_ptr ber \<le> ber_end ber \<and> ber_end ber < 2 ^ 63
     \<and> (0 < ber_ptr ber \<longrightarrow> unat (ber_tag ber) < 256)"

lemma ber_at_fields [simp]:
  "ber_at (ber\<lparr>ber_ptr := p\<rparr>) i = ber_at ber i" "ber_at (ber\<lparr>ber_tag := t\<rparr>) i = ber_at ber i"
  by (simp_all add: ber_at_def)

lemma length_view: "ber_rd ber \<Longrightarrow> length (ber_view ber) = ber_end ber - ber_ptr ber"
  by (auto simp: ber_view_def ber_rd_def)

lemma view_nth:
  assumes "i < length (ber_view ber)" and "0 < i"
  shows "ber_view ber ! i = ber_at ber (ber_ptr ber + i)"
  using assms by (auto simp: ber_view_def nth_Cons' split: if_splits)

lemma view_nth_0:
  assumes "ber_rd ber" and "ber_view ber \<noteq> []"
  shows "(if ber_ptr ber = 0 then ucast (ber_at ber (ber_ptr ber)) else ber_tag ber)
           = (ucast (ber_view ber ! 0) :: ber_tag_t)"
proof -
  have "ucast (ucast (ber_tag ber) :: byte) = ber_tag ber" if "unat (ber_tag ber) < 256"
    using that by (rule ucast_ucast_byte)
  then show ?thesis using assms by (auto simp: ber_view_def ber_rd_def split: if_splits)
qed

lemma at_view_append:
  assumes "ber_view ber = pre @ bs @ post" and "pre \<noteq> []" and "i < length bs"
  shows "ber_at ber (ber_ptr ber + length pre + i) = bs ! i"
proof -
  have "ber_view ber ! (length pre + i) = bs ! i" using assms by (simp add: nth_append)
  then show ?thesis using assms view_nth [of "length pre + i" ber] by (simp add: add.assoc)
qed

section \<open>Tags\<close>

text \<open>
  The tags the encoder can be given and the decoder gives back: one octet, or a first octet
  whose low five bits are set, followed by octets with the top bit set and a last one without.
\<close>

fun tag_tail :: "byte list \<Rightarrow> bool" where
  "tag_tail [] = False"
| "tag_tail [b] = (\<not> bit b 7)"
| "tag_tail (b # bs) = (bit b 7 \<and> tag_tail bs)"

definition tag_octets :: "byte list \<Rightarrow> bool" where
  "tag_octets bs \<longleftrightarrow>
     (case bs of [] \<Rightarrow> False
      | b # r \<Rightarrow> if b AND 31 = 31 then tag_tail r \<and> length r \<le> 7 else r = [])"

definition valid_tag :: "ber_tag_t \<Rightarrow> bool" where
  "valid_tag t \<longleftrightarrow> t \<noteq> LBER_DEFAULT \<and> tag_octets (be_bytes (unat t))"

lemma and_80_iff: "(w :: 64 word) AND 0x80 = 0 \<longleftrightarrow> \<not> bit w 7"
proof -
  have "(w AND 0x80 = 0) = (w AND push_bit 7 1 = 0)" by simp
  also have "\<dots> \<longleftrightarrow> \<not> bit w 7" by (simp only: and_exp_eq_0_iff_not_bit push_bit_of_1)
  finally show ?thesis .
qed

lemma bit7_shift_in: "bit (push_bit 8 (w :: 64 word) OR ucast (b :: byte)) 7 = bit b 7"
  by (simp add: bit_or_iff bit_push_bit_iff bit_ucast_iff)

definition word_be :: "ber_len_t \<Rightarrow> byte list \<Rightarrow> ber_len_t" where
  "word_be w bs = foldl (\<lambda>w b. w * 256 + ucast b) w bs"

lemma word_be_simps [simp]:
  "word_be w [] = w" "word_be w (b # bs) = word_be (w * 256 + ucast b) bs"
  by (simp_all add: word_be_def)

lemma word_be_of_nat: "word_be (of_nat n) bs = of_nat (foldl (\<lambda>n b. n * 256 + unat b) n bs)"
proof (induction bs arbitrary: n)
  case (Cons b bs)
  have "of_nat n * 256 + ucast b = (of_nat (n * 256 + unat b) :: 64 word)" by simp
  then show ?case using Cons.IH [of "n * 256 + unat b"] by (simp only: word_be_simps foldl_Cons)
qed simp

lemma word_be_0: "word_be 0 bs = of_nat (be_val bs)"
  using word_be_of_nat [of 0 bs] by (simp add: be_val_def)

lemma word_be_bytes: "word_be 0 (be_bytes (unat w)) = w"
  by (simp add: word_be_0)

lemma tag_octets_loop_run:
  assumes "tag_tail bs" and "unat tag < 256 ^ (8 - length bs)" and "length bs \<le> 7"
    and "\<And>i. i < length bs \<Longrightarrow> ber_at ber (ptr + i) = bs ! i"
  shows "tag_octets_loop ber tag ptr (length bs + k) = (word_be tag bs, ptr + length bs, k)"
  using assms
proof (induction bs arbitrary: tag ptr rule: tag_tail.induct)
  case 1
  then show ?case by simp
next
  case (2 b)
  have "ber_at ber ptr = b" using 2(4) [of 0] by simp
  moreover have "(push_bit 8 tag OR ucast b) AND 0x80 = 0"
    using 2(1) by (simp add: and_80_iff bit7_shift_in)
  ultimately show ?case by (simp add: Let_def push_or_byte)
next
  case (3 b c bs)
  let ?bs = "c # bs" and ?t = "push_bit 8 tag OR ucast b"
  have at: "ber_at ber ptr = b" using 3(5) [of 0] by simp
  have at': "ber_at ber (Suc ptr + i) = ?bs ! i" if "i < length ?bs" for i
    using 3(5) [of "Suc i"] that by simp
  have "?t AND 0x80 \<noteq> 0" using 3(2) by (simp add: and_80_iff bit7_shift_in)
  moreover have small: "unat ?t < 256 ^ (8 - length ?bs)"
  proof -
    have k: "8 - length ?bs = Suc (8 - length (b # ?bs))" using 3(4) by simp
    have "unat ?t \<le> unat tag * 256 + unat b"
      unfolding push_or_byte by (rule unat_shift_in)
    also have "\<dots> < (unat tag + 1) * 256" using unat_byte_less [of b] by simp
    also have "\<dots> \<le> 256 ^ (8 - length (b # ?bs)) * 256"
      using 3(3) by (intro mult_le_mono1) simp
    finally show ?thesis unfolding k by simp
  qed
  moreover have "?t \<le> (-1) div 256"
  proof -
    have "unat ?t < 256 ^ 7" using small by (rule less_le_trans) (rule power_increasing, auto)
    then show ?thesis by (simp add: word_le_nat_alt)
  qed
  ultimately show ?case
    using 3(1) [OF _ small _ at'] 3(2,4) at by (simp add: Let_def push_or_byte)
qed

lemma tag_and_rest_run:
  assumes rd: "ber_rd ber" and v: "ber_view ber = tb @ rest" and t: "tag_octets tb"
  shows "ber_tag_and_rest ber
           = (word_be 0 tb, \<lparr>bv_val = ber_ptr ber + length tb, bv_len = of_nat (length rest)\<rparr>)"
proof -
  obtain b r where tb: "tb = b # r" using t by (cases tb) (auto simp: tag_octets_def)
  have ne: "ber_view ber \<noteq> []" using v tb by simp
  have len: "ber_end ber - ber_ptr ber = Suc (length r + length rest)"
    using length_view [OF rd] v tb by simp
  then have pos: "\<not> int (ber_end ber) - int (ber_ptr ber) \<le> 0"
    and rest1: "nat (int (ber_end ber) - int (ber_ptr ber)) - 1 = length r + length rest"
    by simp_all
  have first: "(if ber_ptr ber = 0 then ucast (ber_at ber (ber_ptr ber)) else ber_tag ber) = ucast b"
    using view_nth_0 [OF rd ne] v tb by simp
  have and31: "((ucast b :: 64 word) AND 0x1f = 0x1f) = (b AND 31 = 31)"
  proof -
    have "(ucast b :: 64 word) AND 0x1f = ucast (b AND 31)"
      by (rule bit_word_eqI) (auto simp: bit_and_iff bit_ucast_iff dest: bit_imp_le_length)
    then show ?thesis by (simp add: word_unat_eq_iff unat_ucast_of_byte)
  qed
  show ?thesis
  proof (cases "b AND 31 = 31")
    case False
    then have "r = []" using t tb by (simp add: tag_octets_def)
    then show ?thesis
      using pos rest1 False and31 by (simp add: ber_tag_and_rest_def Let_def first tb)
  next
    case True
    have at: "ber_at ber (Suc (ber_ptr ber) + i) = r ! i" if "i < length r" for i
      using at_view_append [of ber "[b]" r rest i] v tb that by simp
    have "tag_octets_loop ber (ucast b) (Suc (ber_ptr ber)) (length r + length rest)
            = (word_be (ucast b) r, Suc (ber_ptr ber) + length r, length rest)"
    proof (rule tag_octets_loop_run [OF _ _ _ at])
      show "tag_tail r" "length r \<le> 7" using t tb True by (auto simp: tag_octets_def)
      have "unat b < 256 ^ 1" by simp
      also have "(256::nat) ^ 1 \<le> 256 ^ (8 - length r)"
        by (rule power_increasing) (use \<open>length r \<le> 7\<close> in auto)
      finally show "unat (ucast b :: 64 word) < 256 ^ (8 - length r)"
        by (simp only: unat_ucast_of_byte)
    qed
    then show ?thesis
      using pos rest1 True and31 by (simp add: ber_tag_and_rest_def Let_def first tb)
  qed
qed

section \<open>Lengths\<close>

lemma len_octets_loop_run:
  assumes "\<And>i. i < length bs \<Longrightarrow> ber_at ber (ptr + i) = bs ! i"
  shows "len_octets_loop ber w ptr (length bs) = word_be w bs"
  using assms
proof (induction bs arbitrary: w ptr)
  case (Cons b bs)
  have "ber_at ber (Suc ptr + i) = bs ! i" if "i < length bs" for i
    using Cons.prems [of "Suc i"] that by simp
  then show ?case using Cons.IH Cons.prems [of 0] by (simp add: push_or_byte)
qed simp

text \<open>Length octets the decoder accepts for \<open>n\<close>: the short form, or the long form with 1 to 8 octets.\<close>

definition len_enc :: "byte list \<Rightarrow> nat \<Rightarrow> bool" where
  "len_enc lo n \<longleftrightarrow>
     (case lo of [] \<Rightarrow> False
      | b # bs \<Rightarrow> (bs = [] \<and> unat b < 128 \<and> unat b = n)
                \<or> (unat b = 128 + length bs \<and> 1 \<le> length bs \<and> length bs \<le> 8 \<and> be_val bs = n))"

lemma first_len_octet_short:
  assumes "unat (b :: byte) < 128"
  shows "(ucast b :: 64 word) AND 0x80 = 0"
proof -
  have "\<not> bit (unat b) 7" using assms by (simp add: bit_iff_odd)
  then show ?thesis by (simp add: and_80_iff bit_ucast_iff bit_unsigned_iff)
qed

lemma first_len_octet_long:
  assumes "unat (b :: byte) = 128 + k" and "k \<le> 8"
  shows "(ucast b :: 64 word) AND 0x80 \<noteq> 0" and "(ucast b :: 64 word) AND 0x7f = of_nat k"
proof -
  have b: "b = of_nat (128 + k)" by (metis assms(1) of_nat_unat ucast_id)
  have "k \<in> {0,1,2,3,4,5,6,7,8}" using assms(2) by auto
  then show "(ucast b :: 64 word) AND 0x80 \<noteq> 0" "(ucast b :: 64 word) AND 0x7f = of_nat k"
    unfolding b by auto
qed

text \<open>
  Looking at an element: whatever its tag, the form of its length and the octets behind it,
  the tag comes back with the offset and the length of its contents.
\<close>

lemma peek_element_run:
  assumes rd: "ber_rd ber" and v: "ber_view ber = tb @ lo @ c @ rest" and t: "tag_octets tb"
    and nd: "word_be 0 tb \<noteq> LBER_DEFAULT" and lo: "len_enc lo (length c)"
  shows "ber_peek_element ber = (word_be 0 tb,
           \<lparr>bv_val = ber_ptr ber + length tb + length lo, bv_len = of_nat (length c)\<rparr>)"
proof -
  obtain b bs where lo': "lo = b # bs" using lo by (cases lo) (auto simp: len_enc_def)
  have tb: "tb \<noteq> []" using t by (auto simp: tag_octets_def)
  have "length (ber_view ber) < 2 ^ 63" using rd length_view [OF rd] by (auto simp: ber_rd_def)
  then have small: "length bs + length c + length rest < 2 ^ 63 - 1" using v lo' by simp
  let ?R = "of_nat (length bs + length c + length rest) :: 64 word"
  have at0: "ber_at ber (ber_ptr ber + length tb) = b"
    using at_view_append [of ber tb "[b]" "bs @ c @ rest" 0] v lo' tb by simp
  have R1: "unat (of_nat (length (lo @ c @ rest)) :: 64 word) = Suc (length bs + length c + length rest)"
    using small lo' by (subst unat_of_nat64) simp_all
  then have R0: "of_nat (length (lo @ c @ rest)) \<noteq> (0 :: 64 word)"
    by (metis nat.distinct(1) unsigned_0)
  have R: "of_nat (length (lo @ c @ rest)) - 1 = ?R" using lo' by simp
  have uR: "unat ?R = length bs + length c + length rest" using small by (subst unat_of_nat64) simp_all
  have uc: "unat (of_nat (length c) :: 64 word) = length c" using small by (subst unat_of_nat64) simp_all
  note tr = tag_and_rest_run [OF rd v t]
  from lo lo' consider "bs = []" "unat b < 128" "unat b = length c"
    | "unat b = 128 + length bs" "1 \<le> length bs" "length bs \<le> 8" "be_val bs = length c"
    by (auto simp: len_enc_def)
  then show ?thesis
  proof cases
    case 1
    have ub: "(ucast b :: 64 word) = of_nat (length c)" using 1(3) by (metis of_nat_unat)
    have "\<not> ucast b > ?R" unfolding ub by (simp add: word_less_nat_alt uR uc del: of_nat_add)
    then show ?thesis
      using nd R0 first_len_octet_short [OF 1(2)] ub 1(1) lo'
      by (simp add: ber_peek_element_def tr Let_def at0 R del: of_nat_add)
  next
    case 2
    note long = first_len_octet_long [OF 2(1,3)]
    obtain d ds where bs: "bs = d # ds" using 2(2) by (cases bs) auto
    have at1: "ber_at ber (Suc (ber_ptr ber + length tb)) = d"
      using at_view_append [of ber "tb @ [b]" bs "c @ rest" 0] v lo' bs by simp
    have at2: "ber_at ber (Suc (Suc (ber_ptr ber + length tb)) + i) = ds ! i" if "i < length ds" for i
      using at_view_append [of ber "tb @ [b, d]" ds "c @ rest" i] v lo' bs that by simp
    have un: "unat (of_nat (length bs) :: 64 word) = length bs" using 2(3) by (subst unat_of_nat64) simp_all
    have g1: "\<not> of_nat (length bs) - 1 > (8 - 1 :: 64 word)"
      using 2(2,3) by (simp add: bs word_less_nat_alt unat_of_nat64)
    have g2: "\<not> ?R < of_nat (length bs)" by (simp add: word_less_nat_alt uR un del: of_nat_add)
    have "len_octets_loop ber (ucast d) (Suc (Suc (ber_ptr ber + length tb))) (length bs - 1) = word_be 0 bs"
      using len_octets_loop_run [OF at2] by (simp add: bs)
    then have lp: "len_octets_loop ber (ucast d) (Suc (Suc (ber_ptr ber + length tb))) (length bs - 1)
                     = of_nat (length c)"
      by (simp only: word_be_0 2(4))
    have "?R - of_nat (length bs) = of_nat (length c + length rest)" by simp
    moreover have "unat (of_nat (length c + length rest) :: 64 word) = length c + length rest"
      using small by (subst unat_of_nat64) simp_all
    ultimately have g3: "\<not> of_nat (length c) > ?R - of_nat (length bs)"
      by (simp add: word_less_nat_alt uc del: of_nat_add)
    show ?thesis
      using nd R0 long g1 g2 g3 lo'
      by (simp add: ber_peek_element_def tr Let_def at0 at1 R un lp [simplified] add.assoc del: of_nat_add)
  qed
qed

section \<open>Stepping over elements\<close>

lemma view_advance:
  assumes rd: "ber_rd ber" and v: "ber_view ber = pre @ rest" and pre: "pre \<noteq> []"
  shows "ber_rd (ber\<lparr>ber_ptr := ber_ptr ber + length pre, ber_tag := ucast (ber_at ber (ber_ptr ber + length pre))\<rparr>)
       \<and> ber_view (ber\<lparr>ber_ptr := ber_ptr ber + length pre, ber_tag := ucast (ber_at ber (ber_ptr ber + length pre))\<rparr>)
           = rest"
    (is "ber_rd ?b \<and> ber_view ?b = rest")
proof
  have e: "ber_end ber = ber_ptr ber + length pre + length rest"
    using length_view [OF rd] v rd by (auto simp: ber_rd_def)
  show rd': "ber_rd ?b" using rd e unat_byte_less [of "ber_at ber (ber_ptr ber + length pre)"]
    by (auto simp: ber_rd_def unat_ucast_of_byte)
  show "ber_view ?b = rest"
  proof (rule nth_equalityI)
    show len: "length (ber_view ?b) = length rest" using length_view [OF rd'] e by simp
    fix i assume i: "i < length (ber_view ?b)"
    have at: "ber_at ber (ber_ptr ber + length pre + i) = rest ! i"
      using at_view_append [of ber pre rest "[]" i] v pre i len by simp
    show "ber_view ?b ! i = rest ! i"
    proof (cases i)
      case 0
      have "ucast (ucast (ber_at ber (ber_ptr ber + length pre)) :: ber_tag_t) = ber_at ber (ber_ptr ber + length pre)"
        by (rule bit_word_eqI) (simp add: bit_ucast_iff)
      then show ?thesis using at i 0 pre by (simp add: ber_view_def split: if_splits)
    next
      case (Suc j)
      then have "ber_view ?b ! i = ber_at ?b (ber_ptr ?b + i)" using i by (intro view_nth) simp_all
      then show ?thesis using at by simp
    qed
  qed
qed

lemma octets_in_view:
  assumes "ber_rd ber" and v: "ber_view ber = pre @ c @ rest" and "pre \<noteq> []"
  shows "ber_octets ber \<lparr>bv_val = ber_ptr ber + length pre, bv_len = of_nat (length c)\<rparr> = c"
proof -
  have "length c < 2 ^ 64"
    using length_view [OF assms(1)] v assms(1) by (auto simp: ber_rd_def)
  then show ?thesis
    using at_view_append [OF v assms(3)]
    by (intro nth_equalityI) (simp_all add: ber_octets_def unat_of_nat64)
qed

text \<open>An element ahead: its tag, its contents, and what follows.\<close>

definition element_ahead :: "berelement \<Rightarrow> ber_tag_t \<Rightarrow> byte list \<Rightarrow> byte list \<Rightarrow> bool" where
  "element_ahead ber t c rest \<longleftrightarrow>
     ber_rd ber \<and> valid_tag t
     \<and> (\<exists>lo. len_enc lo (length c) \<and> ber_view ber = be_bytes (unat t) @ lo @ c @ rest)"

definition bv_ok :: "berelement \<Rightarrow> berval \<Rightarrow> byte list \<Rightarrow> bool" where
  "bv_ok ber bv c \<longleftrightarrow> unat (bv_len bv) = length c \<and> length c < 2 ^ 63
     \<and> 0 < bv_val bv \<and> bv_val bv + length c \<le> ber_end ber \<and> ber_octets ber bv = c"

lemma peek_ahead:
  assumes "element_ahead ber t c rest"
  shows "\<exists>lo. ber_peek_element ber
            = (t, \<lparr>bv_val = ber_ptr ber + length (be_bytes (unat t) @ lo), bv_len = of_nat (length c)\<rparr>)
         \<and> len_enc lo (length c) \<and> ber_view ber = be_bytes (unat t) @ lo @ c @ rest"
proof -
  obtain lo where lo: "len_enc lo (length c)" and v: "ber_view ber = be_bytes (unat t) @ lo @ c @ rest"
    and rd: "ber_rd ber" and t: "valid_tag t"
    using assms by (auto simp: element_ahead_def)
  show ?thesis
    using peek_element_run [OF rd v _ _ lo] t lo v
    by (auto simp: valid_tag_def word_be_bytes add.assoc)
qed

lemma peek_tag_ahead:
  "element_ahead ber t c rest \<Longrightarrow> ber_peek_tag ber = (t, of_nat (length c))"
  using peek_ahead by (fastforce simp: ber_peek_tag_def)

lemma skip_ahead:
  assumes a: "element_ahead ber t c rest"
  shows "\<exists>bv ber'. ber_skip_element ber = (t, bv, ber') \<and> bv_ok ber bv c
           \<and> ber' = ber\<lparr>ber_ptr := bv_val bv + length c, ber_tag := ber_tag ber'\<rparr>
           \<and> ber_rd ber' \<and> ber_view ber' = rest"
proof -
  obtain lo where p: "ber_peek_element ber
            = (t, \<lparr>bv_val = ber_ptr ber + length (be_bytes (unat t) @ lo), bv_len = of_nat (length c)\<rparr>)"
    and v: "ber_view ber = be_bytes (unat t) @ lo @ c @ rest"
    using peek_ahead [OF a] by blast
  let ?bv = "\<lparr>bv_val = ber_ptr ber + length (be_bytes (unat t) @ lo), bv_len = of_nat (length c)\<rparr>"
  let ?p = "ber_ptr ber + length (be_bytes (unat t) @ lo @ c)"
  let ?b = "ber\<lparr>ber_ptr := ?p, ber_tag := ucast (ber_at ber ?p)\<rparr>"
  have rd: "ber_rd ber" and t: "t \<noteq> LBER_DEFAULT" using a by (auto simp: element_ahead_def valid_tag_def)
  have len: "length c < 2 ^ 63" "?p \<le> ber_end ber"
    using length_view [OF rd] v rd by (auto simp: ber_rd_def)
  then have u: "unat (of_nat (length c) :: 64 word) = length c" by (subst unat_of_nat64) simp_all
  have b: "ber_rd ?b" "ber_view ?b = rest"
    using view_advance [OF rd, of "be_bytes (unat t) @ lo @ c" rest] v by simp_all
  have "ber_octets ber ?bv = c"
    using octets_in_view [OF rd, of "be_bytes (unat t) @ lo" c rest] v by simp
  then have "bv_ok ber ?bv c" using u len by (simp add: bv_ok_def add_pos_pos)
  moreover have "ber_skip_element ber = (t, ?bv, ?b)"
    using t u by (simp add: ber_skip_element_def p Let_def add.assoc)
  moreover have "?b = ber\<lparr>ber_ptr := bv_val ?bv + length c, ber_tag := ber_tag ?b\<rparr>" by simp
  ultimately show ?thesis using b by blast
qed

text \<open>Stepping into an element leaves its contents ahead.\<close>

lemma skip_tag_ahead:
  assumes a: "element_ahead ber t c rest"
  shows "\<exists>ber'. ber_skip_tag ber = (t, of_nat (length c), ber') \<and> ber_rd ber' \<and> ber_view ber' = c @ rest
           \<and> ber_end ber' = ber_end ber \<and> ber_buf ber' = ber_buf ber"
proof -
  obtain lo where p: "ber_peek_element ber
            = (t, \<lparr>bv_val = ber_ptr ber + length (be_bytes (unat t) @ lo), bv_len = of_nat (length c)\<rparr>)"
    and v: "ber_view ber = be_bytes (unat t) @ lo @ c @ rest"
    using peek_ahead [OF a] by blast
  have rd: "ber_rd ber" using a by (simp add: element_ahead_def)
  show ?thesis
    using view_advance [OF rd, of "be_bytes (unat t) @ lo" "c @ rest"] v by (simp add: ber_skip_tag_def p)
qed

text \<open>
  The \<^verbatim>\<open>'\0'\<close> that ends an in-place string goes where the next element's tag is; the
  saved octet in \<^verbatim>\<open>ber_tag\<close> keeps what the decoder sees unchanged.
\<close>

lemma view_terminate:
  assumes "0 < ber_ptr ber"
  shows "ber_view (ber\<lparr>ber_buf := (ber_buf ber)[ber_ptr ber := 0]\<rparr>) = ber_view ber"
  using assms by (auto simp: ber_view_def ber_at_def)

end
