(* ===== verification/Ber_Codec.thy ===== *)
theory Ber_Codec
  imports Ber_Reader Ber_Printf
begin

text \<open>
  Decoding gives back what was encoded: integers and booleans of every value, octet strings,
  nested sequences, and whole messages written by \<^verbatim>\<open>ber_printf\<close> and read by \<^verbatim>\<open>ber_scanf\<close>.
\<close>

section \<open>Integer contents\<close>

text \<open>The sign octet and the sign word it extends to.\<close>

definition sign_word :: "byte \<Rightarrow> 32 word" where
  "sign_word s = (if s = 0 then 0 else - 1)"

lemma sign_extend_first:
  assumes "s = 0 \<or> s = 0xff" and "u < (0x80 :: 32 word)"
  shows "(ucast (s XOR ucast u) XOR 0x80) - 0x80 = sign_word s XOR u"
proof -
  have "\<forall>n\<in>set [0..<128]. (ucast (0xff XOR ucast (of_nat n :: 32 word) :: byte) XOR 0x80) - 0x80
           = (sign_word 0xff XOR of_nat n :: 32 word)"
    by code_simp
  moreover have "\<forall>n\<in>set [0..<128]. (ucast (0 XOR ucast (of_nat n :: 32 word) :: byte) XOR 0x80) - 0x80
           = (sign_word 0 XOR of_nat n :: 32 word)"
    by code_simp
  moreover have "unat u \<in> set [0..<128]" using assms(2) by (simp add: word_less_nat_alt)
  ultimately show ?thesis using assms(1) by (metis of_nat_unat ucast_id)
qed

lemma shift_in_signed:
  assumes "s = 0 \<or> s = 0xff"
  shows "push_bit 8 (sign_word s XOR drop_bit 8 u) OR ucast (s XOR ucast (u :: 32 word)) = sign_word s XOR u"
proof (rule bit_word_eqI)
  fix n assume n: "n < LENGTH(32)"
  have s: "bit s n = bit (sign_word s) n" if "n < 8"
  proof -
    have "n \<in> {0,1,2,3,4,5,6,7}" using that by auto
    then show ?thesis using assms by (auto simp: sign_word_def)
  qed
  have S: "bit (sign_word s) (n - 8) = bit (sign_word s) n"
    using n by (auto simp: sign_word_def)
  show "bit (push_bit 8 (sign_word s XOR drop_bit 8 u) OR ucast (s XOR ucast u)) n = bit (sign_word s XOR u) n"
    using n s S
    by (cases "n < 8")
       (auto simp: bit_or_iff bit_push_bit_iff bit_xor_iff bit_drop_bit_eq bit_ucast_iff dest: bit_imp_le_length)
qed

lemma int_of_put_int_octets:
  assumes "s = 0 \<or> s = 0xff"
  shows "int_of_octets (put_int_octets s u ptr)
           = foldl (\<lambda>netnum x. push_bit 8 netnum OR ucast x) (sign_word s XOR u) ptr"
  using assms
proof (induction s u ptr rule: put_int_octets.induct)
  case (1 s u ptr)
  show ?case
  proof (cases "u < 0x80")
    case True
    then show ?thesis
      using sign_extend_first [OF 1(2) True]
      by (simp add: put_int_octets.simps [of s u ptr] int_of_octets_def)
  next
    case False
    then have "int_of_octets (put_int_octets s u ptr)
             = int_of_octets (put_int_octets s (drop_bit 8 u) ((s XOR ucast u) # ptr))"
      by (simp only: put_int_octets.simps [of s u ptr] Let_def if_False)
    also have "\<dots> = foldl (\<lambda>netnum x. push_bit 8 netnum OR ucast x)
                     (sign_word s XOR drop_bit 8 u) ((s XOR ucast u) # ptr)"
      using 1 False by blast
    finally show ?thesis by (simp only: foldl_Cons shift_in_signed [OF 1(2)])
  qed
qed

lemma int_of_int_content [simp]: "int_of_octets (int_content num) = num"
  by (auto simp: int_content_def int_of_put_int_octets sign_word_def)

lemma int_of_bool_content [simp]: "int_of_octets (bool_content v) = (if v = 0 then 0 else - 1)"
  by (simp add: bool_content_def int_of_octets_def)

section \<open>Decoding the element ahead\<close>

lemma len_enc_len_octets [simp]:
  assumes "n < 2 ^ 63"
  shows "len_enc (len_octets n) n"
proof (cases "n < 128")
  case True
  then show ?thesis by (simp add: len_enc_def len_octets_def unat_of_nat_byte)
next
  case False
  have "length (be_bytes n) \<le> 8" using assms by (intro length_be_bytes_le) simp_all
  moreover from this have "unat (of_nat (length (be_bytes n)) + 0x80 :: byte) = 128 + length (be_bytes n)"
    using unat_of_nat_byte [of "length (be_bytes n) + 128"] by (simp add: add.commute)
  ultimately show ?thesis using False by (simp add: len_enc_def len_octets_def Suc_leI)
qed

lemma len_enc_long [simp]:
  assumes "n < 2 ^ 32"
  shows "len_enc (long_len_octets n) n"
proof -
  have "unat (of_nat n :: 64 word) = n" using assms by (intro unat_of_nat64) simp
  then have "be_val (put_len_octets 4 (of_nat n) []) = n" using assms by (simp add: be_val_put_len_octets)
  then show ?thesis by (simp add: len_enc_def long_len_octets_def)
qed

lemma tlv_ahead:
  assumes "ber_rd ber" and "valid_tag t" and "ber_view ber = tlv t c @ rest"
  shows "element_ahead ber t c rest"
proof -
  have "length c < 2 ^ 63"
    using length_view [OF assms(1)] assms(1,3) by (auto simp: ber_rd_def tlv_def)
  then show ?thesis using assms by (auto simp: element_ahead_def tlv_def intro!: exI [of _ "len_octets (length c)"])
qed

lemma seq_tlv_ahead:
  assumes "ber_rd ber" and "valid_tag t" and "ber_view ber = seq_tlv der t c @ rest" and "length c < 2 ^ 32"
  shows "element_ahead ber t c rest"
  using assms
  by (auto simp: element_ahead_def seq_tlv_def seq_len_octets_def
           intro!: exI [of _ "len_octets (length c)"] exI [of _ "long_len_octets (length c)"])

lemma get_int_ahead:
  assumes "element_ahead ber t c rest" and "length c \<le> 4"
  shows "\<exists>ber'. ber_get_int ber = (t, Some (int_of_octets c), ber') \<and> ber_rd ber' \<and> ber_view ber' = rest"
proof -
  obtain bv ber' where s: "ber_skip_element ber = (t, bv, ber')" and bv: "bv_ok ber bv c"
    and b: "ber_rd ber'" "ber_view ber' = rest"
    using skip_ahead [OF assms(1)] by blast
  have "\<not> bv_len bv > 4" using bv assms(2) by (simp add: bv_ok_def word_less_nat_alt)
  moreover have "t \<noteq> LBER_DEFAULT" using assms(1) by (simp add: element_ahead_def valid_tag_def)
  ultimately show ?thesis using s bv b by (simp add: ber_get_int_def bv_ok_def)
qed

lemma get_null_ahead:
  assumes "element_ahead ber t [] rest"
  shows "\<exists>ber'. ber_get_null ber = (t, ber') \<and> ber_rd ber' \<and> ber_view ber' = rest"
  using skip_tag_ahead [OF assms] by (auto simp: ber_get_null_def)

lemma octets_cong:
  "ber_buf a = ber_buf b \<Longrightarrow> ber_octets a bv = ber_octets b bv"
  by (simp add: ber_octets_def ber_at_def)

text \<open>
  A string read with any options: copied, or left in place and terminated there; in both cases
  the octets are those that were encoded, and the rest of the message is still ahead.
\<close>

definition strval_octets :: "berelement \<Rightarrow> strval \<Rightarrow> ber_len_t \<Rightarrow> byte list option" where
  "strval_octets ber s len =
     (case s of SNull \<Rightarrow> None | SInPlace p \<Rightarrow> Some (ber_octets ber \<lparr>bv_val = p, bv_len = len\<rparr>)
      | SCopy c \<Rightarrow> Some c)"

lemma finish_string_run:
  assumes bv: "bv_ok ber0 bv c" and b: "ber = ber0\<lparr>ber_ptr := bv_val bv + length c, ber_tag := t'\<rparr>"
    and rd: "ber_rd ber" and mem: "\<forall>n. ma n"
  shows "\<exists>s ber'. finish_string ma ber bv opt tag = (tag, s, of_nat (length c), ber')
           \<and> strval_octets ber' s (of_nat (length c)) = Some c
           \<and> (s = SCopy c \<or> opt AND LBER_BV_ALLOC = 0) \<and> ber_rd ber' \<and> ber_view ber' = ber_view ber"
proof -
  have u: "unat (bv_len bv) = length c" and oct: "ber_octets ber bv = c" and pos: "0 < ber_ptr ber"
    using bv octets_cong [of ber ber0 bv] by (auto simp: bv_ok_def b)
  have len: "bv_len bv = of_nat (length c)" using u by (metis of_nat_unat ucast_id)
  have bveq: "\<lparr>bv_val = bv_val bv, bv_len = of_nat (length c)\<rparr> = bv" using len by simp
  let ?z = "ber\<lparr>ber_buf := (ber_buf ber)[bv_val bv + unat (bv_len bv) := 0]\<rparr>"
  have "ber_view ?z = ber_view ber" using view_terminate [OF pos] by (simp add: b u)
  moreover have "ber_rd ?z" using rd by (simp add: ber_rd_def)
  moreover have "ber_octets ?z bv = c"
  proof -
    have "ber_octets ?z bv = ber_octets ber bv"
      unfolding ber_octets_def u by (rule map_cong) (auto simp: ber_at_def)
    then show ?thesis using oct by simp
  qed
  moreover have "unat (of_nat (length c) + 1 :: ber_len_t) \<noteq> 0"
    using bv unat_of_nat64 [of "length c + 1"] by (simp add: bv_ok_def add.commute)
  ultimately show ?thesis
    using mem rd oct by (simp add: finish_string_def strval_octets_def len bveq memalloc_granted)
qed

lemma get_stringbv_ahead:
  assumes a: "element_ahead ber t c rest" and mem: "\<forall>n. ma n"
    and nul: "opt AND LBER_BV_STRING = 0 \<or> 0 \<notin> set c"
  shows "\<exists>s ber'. ber_get_stringbv ma ber opt = (t, s, of_nat (length c), ber')
           \<and> strval_octets ber' s (of_nat (length c)) = Some c
           \<and> (s = SCopy c \<or> opt AND LBER_BV_ALLOC = 0) \<and> ber_rd ber' \<and> ber_view ber' = rest"
proof -
  obtain bv ber1 where s: "ber_skip_element ber = (t, bv, ber1)" and bv: "bv_ok ber bv c"
    and b: "ber1 = ber\<lparr>ber_ptr := bv_val bv + length c, ber_tag := ber_tag ber1\<rparr>"
    and v: "ber_rd ber1" "ber_view ber1 = rest"
    using skip_ahead [OF a] by blast
  have "ber_buf ber1 = ber_buf ber" by (subst b) simp
  then have "ber_octets ber1 bv = c" using bv octets_cong [of ber1 ber bv] by (simp add: bv_ok_def)
  then have "\<not> (opt AND LBER_BV_STRING \<noteq> 0 \<and> embedded_nul ber1 bv)"
    using nul by (auto simp: embedded_nul_def dest: in_set_takeD)
  moreover have "t \<noteq> LBER_DEFAULT" using a by (simp add: element_ahead_def valid_tag_def)
  ultimately have "ber_get_stringbv ma ber opt = finish_string ma ber1 bv opt t"
    by (auto simp: ber_get_stringbv_def s)
  then show ?thesis using finish_string_run [OF bv b v(1) mem, of opt t] v(2) by simp
qed

section \<open>The interface of a codec\<close>

text \<open>
  A codec writes a value as octets and reads it back from the front of an element's view.
  Its clients read whole lists of values, and no encoding is the beginning of another.
\<close>

fun get_list :: "(berelement \<Rightarrow> 'a option \<times> berelement) \<Rightarrow> nat \<Rightarrow> berelement \<Rightarrow> 'a list option \<times> berelement" where
  "get_list get 0 ber = (Some [], ber)"
| "get_list get (Suc n) ber =
     (case get ber of
        (None, b) \<Rightarrow> (None, b)
      | (Some x, b) \<Rightarrow> (case get_list get n b of (None, b') \<Rightarrow> (None, b') | (Some xs, b') \<Rightarrow> (Some (x # xs), b')))"

lemma init2_fields [simp]:
  "ber_ptr (ber_init2 (Some bs) opt) = 0" "ber_end (ber_init2 (Some bs) opt) = length bs"
  "ber_at (ber_init2 (Some bs) opt) i = (if i < length bs then bs ! i else 0)"
  by (simp_all add: ber_init2_def ber_alloc_t_def ber_at_def)

lemma init2_view:
  assumes "length bs < 2 ^ 63"
  shows "ber_rd (ber_init2 (Some bs) opt) \<and> ber_view (ber_init2 (Some bs) opt) = bs"
proof
  show "ber_rd (ber_init2 (Some bs) opt)" using assms by (simp add: ber_rd_def)
  show "ber_view (ber_init2 (Some bs) opt) = bs"
    by (rule nth_equalityI) (auto simp: ber_view_def nth_Cons')
qed

lemma reset_view:
  assumes "ber_wf ber" and "ber_sos_ptr ber = None"
  shows "ber_rd (ber_reset ber True) \<and> ber_view (ber_reset ber True) = take (ber_ptr ber) (ber_buf ber)
     \<and> length (ber_view (ber_reset ber True)) \<le> ber_end ber"
proof -
  have p: "ber_ptr ber \<le> length (ber_buf ber)" "length (ber_buf ber) = ber_end ber" "ber_end ber < 2 ^ 63"
    using assms by (simp_all add: ber_wf_def ber_wcur_def)
  have rd: "ber_rd (ber_reset ber True)" using p by (simp add: ber_rd_def ber_reset_def)
  have "ber_view (ber_reset ber True) = take (ber_ptr ber) (ber_buf ber)"
    by (rule nth_equalityI) (use p in \<open>auto simp: ber_view_def ber_reset_def ber_at_def nth_Cons'\<close>)
  then show ?thesis using rd p by simp
qed

locale ber_codec =
  fixes enc :: "'a \<Rightarrow> byte list"
    and ok :: "'a \<Rightarrow> bool"
    and get :: "berelement \<Rightarrow> 'a option \<times> berelement"
  assumes get_enc: "ok x \<Longrightarrow> ber_rd ber \<Longrightarrow> ber_view ber = enc x @ rest \<Longrightarrow>
      \<exists>ber'. get ber = (Some x, ber') \<and> ber_rd ber' \<and> ber_view ber' = rest"
begin

lemma get_list_enc:
  assumes "list_all ok xs" and "ber_rd ber" and "ber_view ber = concat (map enc xs) @ rest"
  shows "\<exists>ber'. get_list get (length xs) ber = (Some xs, ber') \<and> ber_rd ber' \<and> ber_view ber' = rest"
  using assms
proof (induction xs arbitrary: ber)
  case (Cons x xs)
  obtain b where b: "get ber = (Some x, b)" "ber_rd b" "ber_view b = concat (map enc xs) @ rest"
    using get_enc [of x ber "concat (map enc xs) @ rest"] Cons.prems by auto
  then show ?case using Cons.IH [of b] Cons.prems(1) by fastforce
qed simp

lemma prefix_free:
  assumes "ok x" and "ok y" and "enc x @ r = enc y @ r'" and "length (enc x @ r) < 2 ^ 63"
  shows "x = y \<and> r = r'"
proof -
  let ?b = "ber_init2 (Some (enc x @ r)) 0"
  have rd: "ber_rd ?b" and v: "ber_view ?b = enc x @ r" using init2_view [OF assms(4)] by blast+
  obtain b where b: "get ?b = (Some x, b)" "ber_view b = r" using get_enc [OF assms(1) rd v] by blast
  obtain b' where b': "get ?b = (Some y, b')" "ber_view b' = r'"
    using get_enc [OF assms(2) rd, of r'] v assms(3) by auto
  from b b' show ?thesis by simp
qed

end

text \<open>Tagged integers, booleans and octet strings.\<close>

definition get_tagged_int :: "berelement \<Rightarrow> (ber_tag_t \<times> ber_int_t) option \<times> berelement" where
  "get_tagged_int ber =
     (case ber_get_int ber of (t, v, b) \<Rightarrow> (map_option (Pair t) v, b))"

definition get_tagged_octets :: "berelement \<Rightarrow> (ber_tag_t \<times> byte list) option \<times> berelement" where
  "get_tagged_octets ber =
     (case ber_get_stringbv (\<lambda>_. True) ber LBER_BV_ALLOC of
        (t, s, l, b) \<Rightarrow> (map_option (Pair t) (strval_octets b s l), b))"

definition get_tagged_null :: "berelement \<Rightarrow> ber_tag_t option \<times> berelement" where
  "get_tagged_null ber =
     (case ber_get_null ber of (t, b) \<Rightarrow> (if t = LBER_DEFAULT then None else Some t, b))"

interpretation int_codec: ber_codec
  "\<lambda>(t, n). tlv t (int_content n)" "\<lambda>(t, n). valid_tag t" get_tagged_int
proof (unfold_locales, clarify)
  fix t n ber rest
  assume "valid_tag t" "ber_rd ber" "ber_view ber = tlv t (int_content n) @ rest"
  then show "\<exists>ber'. get_tagged_int ber = (Some (t, n), ber') \<and> ber_rd ber' \<and> ber_view ber' = rest"
    using get_int_ahead [OF tlv_ahead length_int_content] by (fastforce simp: get_tagged_int_def)
qed

interpretation octets_codec: ber_codec
  "\<lambda>(t, c). tlv t c" "\<lambda>(t, c). valid_tag t" get_tagged_octets
proof (unfold_locales, clarify)
  fix t c ber rest
  assume "valid_tag t" "ber_rd ber" "ber_view ber = tlv t c @ rest"
  then show "\<exists>ber'. get_tagged_octets ber = (Some (t, c), ber') \<and> ber_rd ber' \<and> ber_view ber' = rest"
    using get_stringbv_ahead [OF tlv_ahead, of ber t c rest "\<lambda>_. True" 1]
    by (fastforce simp: get_tagged_octets_def)
qed

interpretation null_codec: ber_codec "\<lambda>t. tlv t []" valid_tag get_tagged_null
proof
  fix t ber rest
  assume a: "valid_tag t" "ber_rd ber" "ber_view ber = tlv t [] @ rest"
  then have "t \<noteq> LBER_DEFAULT" by (simp add: valid_tag_def)
  then show "\<exists>ber'. get_tagged_null ber = (Some t, ber') \<and> ber_rd ber' \<and> ber_view ber' = rest"
    using get_null_ahead [OF tlv_ahead [OF a(2,1,3)]] by (auto simp: get_tagged_null_def)
qed

section \<open>Reading whole messages\<close>

text \<open>
  \<open>scans ma F vs bs\<close>: the format \<open>F\<close> reads the octets \<open>bs\<close> from the front of any message and
  stores the values \<open>vs\<close>.  Sequence lengths of the five-octet form are below \<open>2 ^ 32\<close>.
\<close>

definition scans :: "allocator \<Rightarrow> string \<Rightarrow> scan_out list \<Rightarrow> byte list \<Rightarrow> bool" where
  "scans ma F vs bs \<longleftrightarrow>
     (\<forall>rc ber rest.
        rc \<noteq> LBER_DEFAULT \<longrightarrow> ber_rd ber \<longrightarrow> ber_view ber = bs @ rest \<longrightarrow> length (ber_view ber) < 2 ^ 32 \<longrightarrow>
        (\<exists>rc' ber'. rc' \<noteq> LBER_DEFAULT \<and> ber_rd ber' \<and> ber_view ber' = rest
           \<and> (\<forall>fmt args outs.
                ber_scanf_loop ma rc ber (F @ fmt) (replicate (length vs) SaOut @ args) outs
                  = ber_scanf_loop ma rc' ber' fmt args (rev vs @ outs))))"

lemma scansD:
  assumes "scans ma F vs bs" "rc \<noteq> LBER_DEFAULT" "ber_rd ber" "ber_view ber = bs @ rest" "length (ber_view ber) < 2 ^ 32"
  obtains rc' ber' where "rc' \<noteq> LBER_DEFAULT" "ber_rd ber'" "ber_view ber' = rest"
    "\<And>fmt args outs. ber_scanf_loop ma rc ber (F @ fmt) (replicate (length vs) SaOut @ args) outs
               = ber_scanf_loop ma rc' ber' fmt args (rev vs @ outs)"
  using assms unfolding scans_def by metis

lemma scans_Nil: "scans ma [] [] []"
  by (auto simp: scans_def)

lemma scans_append:
  assumes 1: "scans ma F vs bs" and 2: "scans ma F' vs' bs'"
  shows "scans ma (F @ F') (vs @ vs') (bs @ bs')"
  unfolding scans_def
proof (intro allI impI)
  fix rc ber rest
  assume rc: "rc \<noteq> LBER_DEFAULT" and rd: "ber_rd ber" and v: "ber_view ber = (bs @ bs') @ rest"
    and len: "length (ber_view ber) < 2 ^ 32"
  have v1: "ber_view ber = bs @ bs' @ rest" using v by simp
  obtain rc1 ber1 where r1: "rc1 \<noteq> LBER_DEFAULT" "ber_rd ber1" "ber_view ber1 = bs' @ rest"
    "\<And>fmt args outs. ber_scanf_loop ma rc ber (F @ fmt) (replicate (length vs) SaOut @ args) outs
               = ber_scanf_loop ma rc1 ber1 fmt args (rev vs @ outs)"
    using scansD [OF 1 rc rd v1 len] by blast
  have len1: "length (ber_view ber1) < 2 ^ 32" using len v r1(3) by simp
  obtain rc2 ber2 where r2: "rc2 \<noteq> LBER_DEFAULT" "ber_rd ber2" "ber_view ber2 = rest"
    "\<And>fmt args outs. ber_scanf_loop ma rc1 ber1 (F' @ fmt) (replicate (length vs') SaOut @ args) outs
               = ber_scanf_loop ma rc2 ber2 fmt args (rev vs' @ outs)"
    using scansD [OF 2 r1(1-3) len1] by blast
  show "\<exists>rc' ber'. rc' \<noteq> LBER_DEFAULT \<and> ber_rd ber' \<and> ber_view ber' = rest
           \<and> (\<forall>fmt args outs.
                ber_scanf_loop ma rc ber ((F @ F') @ fmt) (replicate (length (vs @ vs')) SaOut @ args) outs
                  = ber_scanf_loop ma rc' ber' fmt args (rev (vs @ vs') @ outs))"
    using r2 r1(4) by (intro exI [of _ rc2] exI [of _ ber2]) (simp add: replicate_add)
qed

lemma scans_concat:
  assumes "\<And>x. x \<in> set xs \<Longrightarrow> scans ma (f x) (g x) (h x)"
  shows "scans ma (concat (map f xs)) (concat (map g xs)) (concat (map h xs))"
  using assms by (induction xs) (simp_all add: scans_Nil scans_append)

text \<open>A value conversion, preceded by \<^verbatim>\<open>t\<close> for its tag.\<close>

lemma scans_value:
  assumes arg: "scanf_takes_arg c"
    and run: "\<And>ber rest. ber_rd ber \<Longrightarrow> ber_view ber = tlv t cs @ rest \<Longrightarrow>
       \<exists>ber'. scanf_value ma c ber SaOut = Some (t, v, ber') \<and> ber_rd ber' \<and> ber_view ber' = rest"
    and t: "valid_tag t"
  shows "scans ma [CHR ''t'', c] [SoTag t, v] (tlv t cs)"
  unfolding scans_def
proof (intro allI impI)
  fix rc ber rest
  assume rc: "rc \<noteq> LBER_DEFAULT" and rd: "ber_rd ber" and view: "ber_view ber = tlv t cs @ rest"
  have nd: "t \<noteq> LBER_DEFAULT" using t by (simp add: valid_tag_def)
  have tag: "scanf_value ma (CHR ''t'') ber SaOut = Some (t, SoTag t, ber)"
    using peek_tag_ahead [OF tlv_ahead [OF rd t view]] by (simp add: scanf_value.simps)
  have t_arg: "scanf_takes_arg (CHR ''t'')" by (simp add: scanf_takes_arg_def)
  obtain ber' where r: "scanf_value ma c ber SaOut = Some (t, v, ber')" "ber_rd ber'" "ber_view ber' = rest"
    using run [OF rd view] by blast
  show "\<exists>rc' ber'. rc' \<noteq> LBER_DEFAULT \<and> ber_rd ber' \<and> ber_view ber' = rest
           \<and> (\<forall>fmt args outs.
                ber_scanf_loop ma rc ber ([CHR ''t'', c] @ fmt) (replicate (length [SoTag t, v]) SaOut @ args) outs
                  = ber_scanf_loop ma rc' ber' fmt args (rev [SoTag t, v] @ outs))"
    using r rc nd tag t_arg arg by (intro exI [of _ t] exI [of _ ber']) simp
qed

lemma scans_null:
  assumes t: "valid_tag t"
  shows "scans ma ''tn'' [SoTag t] (tlv t [])"
  unfolding scans_def
proof (intro allI impI)
  fix rc ber rest
  assume rc: "rc \<noteq> LBER_DEFAULT" and rd: "ber_rd ber" and view: "ber_view ber = tlv t [] @ rest"
  have nd: "t \<noteq> LBER_DEFAULT" using t by (simp add: valid_tag_def)
  note a = tlv_ahead [OF rd t view]
  obtain ber' where r: "ber_get_null ber = (t, ber')" "ber_rd ber'" "ber_view ber' = rest"
    using get_null_ahead [OF a] by blast
  show "\<exists>rc' ber'. rc' \<noteq> LBER_DEFAULT \<and> ber_rd ber' \<and> ber_view ber' = rest
           \<and> (\<forall>fmt args outs. ber_scanf_loop ma rc ber (''tn'' @ fmt) (replicate (length [SoTag t]) SaOut @ args) outs
                  = ber_scanf_loop ma rc' ber' fmt args (rev [SoTag t] @ outs))"
    using r rc nd peek_tag_ahead [OF a]
    by (intro exI [of _ t] exI [of _ ber'])
       (simp add: scanf_takes_arg_def scanf_value.simps scanf_noarg_def)
qed

text \<open>A sequence or set: the brackets step into it and do nothing at its end.\<close>

lemma scans_bracket:
  assumes inner: "scans ma F vs c" and t: "valid_tag t"
    and F: "F = [] \<or> hd F = CHR ''t''"
    and op: "(op, cl) = (CHR ''{'', CHR ''}'') \<or> (op, cl) = (CHR ''['', CHR '']'')"
  shows "scans ma (CHR ''t'' # op # F @ [cl]) (SoTag t # vs) (seq_tlv der t c)"
  unfolding scans_def
proof (intro allI impI)
  fix rc ber rest
  assume rc: "rc \<noteq> LBER_DEFAULT" and rd: "ber_rd ber" and view: "ber_view ber = seq_tlv der t c @ rest"
    and len: "length (ber_view ber) < 2 ^ 32"
  have nd: "t \<noteq> LBER_DEFAULT" using t by (simp add: valid_tag_def)
  have "length c < 2 ^ 32" using len view by (simp add: seq_tlv_def)
  note a = seq_tlv_ahead [OF rd t view this]
  obtain ber1 where r1: "ber_skip_tag ber = (t, of_nat (length c), ber1)" "ber_rd ber1" "ber_view ber1 = c @ rest"
    using skip_tag_ahead [OF a] by blast
  have len1: "length (ber_view ber1) < 2 ^ 32" using len view r1(3) by (simp add: seq_tlv_def)
  obtain rc2 ber2 where r2: "rc2 \<noteq> LBER_DEFAULT" "ber_rd ber2" "ber_view ber2 = rest"
    "\<And>fmt args outs. ber_scanf_loop ma t ber1 (F @ fmt) (replicate (length vs) SaOut @ args) outs
               = ber_scanf_loop ma rc2 ber2 fmt args (rev vs @ outs)"
    using scansD [OF inner nd r1(2,3) len1] by blast
  have tagc: "ber_scanf_loop ma rc ber (CHR ''t'' # fmt) (SaOut # args) outs
               = ber_scanf_loop ma t ber fmt args (SoTag t # outs)" for fmt args outs
    using rc peek_tag_ahead [OF a] by (simp add: scanf_takes_arg_def scanf_value.simps)
  have opc: "ber_scanf_loop ma t ber (op # F @ cl # fmt) args outs
               = ber_scanf_loop ma t ber1 (F @ cl # fmt) args outs" for fmt args outs
    using nd op F r1(1)
    by (cases F) (auto simp: scanf_takes_arg_def scanf_noarg_def)
  have clc: "ber_scanf_loop ma rc2 ber2 (cl # fmt) args outs = ber_scanf_loop ma rc2 ber2 fmt args outs"
    for fmt args outs
    using r2(1) op by (auto simp: scanf_takes_arg_def scanf_noarg_def)
  show "\<exists>rc' ber'. rc' \<noteq> LBER_DEFAULT \<and> ber_rd ber' \<and> ber_view ber' = rest
           \<and> (\<forall>fmt args outs.
                ber_scanf_loop ma rc ber ((CHR ''t'' # op # F @ [cl]) @ fmt)
                    (replicate (length (SoTag t # vs)) SaOut @ args) outs
                  = ber_scanf_loop ma rc' ber' fmt args (rev (SoTag t # vs) @ outs))"
    using r2(1-3)
    by (intro exI [of _ rc2] exI [of _ ber2]) (simp only: append_Cons append_assoc append_Nil list.size
        replicate_Suc add_Suc_right add_0_right rev.simps tagc opc r2(4) clc simp_thms)
qed

text \<open>The format that reads a tree back, and what its arguments hold afterwards.\<close>

fun item_scan :: "ber_item \<Rightarrow> string" where
  "item_scan (BNull t) = ''tn''"
| "item_scan (BBool t v) = ''tb''"
| "item_scan (BInt t n) = ''ti''"
| "item_scan (BEnum t n) = ''te''"
| "item_scan (BOctets t s) = ''to''"
| "item_scan (BSeq t is) = CHR ''t'' # CHR ''{'' # concat (map item_scan is) @ ''}''"
| "item_scan (BSet t is) = CHR ''t'' # CHR ''['' # concat (map item_scan is) @ '']''"

fun item_outs :: "ber_item \<Rightarrow> scan_out list" where
  "item_outs (BNull t) = [SoTag (tag_or LBER_NULL t)]"
| "item_outs (BBool t v) = [SoTag (tag_or LBER_BOOLEAN t), SoInt (Some (if v = 0 then 0 else - 1))]"
| "item_outs (BInt t n) = [SoTag (tag_or LBER_INTEGER t), SoInt (Some n)]"
| "item_outs (BEnum t n) = [SoTag (tag_or LBER_ENUMERATED t), SoInt (Some n)]"
| "item_outs (BOctets t s) = [SoTag (tag_or LBER_OCTETSTRING t), SoBerval (SCopy s) (of_nat (length s))]"
| "item_outs (BSeq t is) = SoTag (tag_or LBER_SEQUENCE t) # concat (map item_outs is)"
| "item_outs (BSet t is) = SoTag (tag_or LBER_SET t) # concat (map item_outs is)"

fun item_tags :: "ber_item \<Rightarrow> bool" where
  "item_tags (BNull t) = valid_tag (tag_or LBER_NULL t)"
| "item_tags (BBool t v) = valid_tag (tag_or LBER_BOOLEAN t)"
| "item_tags (BInt t n) = valid_tag (tag_or LBER_INTEGER t)"
| "item_tags (BEnum t n) = valid_tag (tag_or LBER_ENUMERATED t)"
| "item_tags (BOctets t s) = valid_tag (tag_or LBER_OCTETSTRING t)"
| "item_tags (BSeq t is) = (valid_tag (tag_or LBER_SEQUENCE t) \<and> list_all item_tags is)"
| "item_tags (BSet t is) = (valid_tag (tag_or LBER_SET t) \<and> list_all item_tags is)"

lemma length_bool_content [simp]: "length (bool_content v) = 1"
  by (simp add: bool_content_def)

lemma scan_int:
  assumes "c = CHR ''i'' \<or> c = CHR ''e'' \<or> c = CHR ''b''" and "length cs \<le> 4" and "valid_tag t"
  shows "scans ma [CHR ''t'', c] [SoTag t, SoInt (Some (int_of_octets cs))] (tlv t cs)"
proof (rule scans_value [OF _ _ assms(3)])
  show "scanf_takes_arg c" using assms(1) by (auto simp: scanf_takes_arg_def)
  fix ber rest assume a: "ber_rd ber" "ber_view ber = tlv t cs @ rest"
  obtain ber' where "ber_get_int ber = (t, Some (int_of_octets cs), ber')" "ber_rd ber'" "ber_view ber' = rest"
    using get_int_ahead [OF tlv_ahead [OF a(1) assms(3) a(2)] assms(2)] by blast
  moreover from this have "scanf_value ma c ber SaOut = Some (t, SoInt (Some (int_of_octets cs)), ber')"
    using assms(1) by (elim disjE) (simp_all add: scanf_value.simps ber_get_boolean_def)
  ultimately show "\<exists>ber'. scanf_value ma c ber SaOut = Some (t, SoInt (Some (int_of_octets cs)), ber')
               \<and> ber_rd ber' \<and> ber_view ber' = rest"
    by blast
qed

lemma scan_octets:
  assumes "\<forall>n. ma n" and "valid_tag t"
  shows "scans ma ''to'' [SoTag t, SoBerval (SCopy cs) (of_nat (length cs))] (tlv t cs)"
proof (rule scans_value [OF _ _ assms(2)])
  show "scanf_takes_arg CHR ''o''" by (simp add: scanf_takes_arg_def)
  fix ber rest assume a: "ber_rd ber" "ber_view ber = tlv t cs @ rest"
  obtain s ber' where "ber_get_stringbv ma ber LBER_BV_ALLOC = (t, s, of_nat (length cs), ber')"
    "s = SCopy cs" "ber_rd ber'" "ber_view ber' = rest"
    using get_stringbv_ahead [OF tlv_ahead [OF a(1) assms(2) a(2)] assms(1), of LBER_BV_ALLOC] by auto
  then show "\<exists>ber'. scanf_value ma CHR ''o'' ber SaOut = Some (t, SoBerval (SCopy cs) (of_nat (length cs)), ber')
               \<and> ber_rd ber' \<and> ber_view ber' = rest"
    by (simp add: scanf_value.simps)
qed

lemma hd_item_scan: "concat (map item_scan is) = [] \<or> hd (concat (map item_scan is)) = CHR ''t''"
proof (cases "is")
  case (Cons i js)
  then show ?thesis by (cases i) simp_all
qed simp

lemma item_scans:
  assumes mem: "\<forall>n. ma n" and "item_tags it"
  shows "scans ma (item_scan it) (item_outs it) (item_enc der it)"
  using assms(2)
proof (induction it)
  case (BBool t v)
  then show ?case
    using scan_int [of "CHR ''b''" "bool_content v" "tag_or LBER_BOOLEAN t" ma] by simp
next
  case (BInt t n)
  then show ?case using scan_int [of "CHR ''i''" "int_content n" "tag_or LBER_INTEGER t" ma] length_int_content by simp
next
  case (BEnum t n)
  then show ?case using scan_int [of "CHR ''e''" "int_content n" "tag_or LBER_ENUMERATED t" ma] length_int_content by simp
next
  case (BSeq t "is")
  then have "scans ma (concat (map item_scan is)) (concat (map item_outs is)) (concat (map (item_enc der) is))"
    by (intro scans_concat) (auto simp: list_all_iff)
  then show ?case
    using scans_bracket [OF _ _ hd_item_scan, of ma "is" _ _ _ "CHR ''{''" "CHR ''}''"] BSeq.prems by simp
next
  case (BSet t "is")
  then have "scans ma (concat (map item_scan is)) (concat (map item_outs is)) (concat (map (item_enc der) is))"
    by (intro scans_concat) (auto simp: list_all_iff)
  then show ?case
    using scans_bracket [OF _ _ hd_item_scan, of ma "is" _ _ _ "CHR ''[''" "CHR '']''"] BSet.prems by simp
qed (simp_all add: scans_null scan_octets [OF mem])

section \<open>Properties\<close>

text \<open>
  C2: whatever list of element trees is written by \<^verbatim>\<open>ber_printf\<close> into a fresh element, in BER or
  DER mode, \<^verbatim>\<open>ber_reset\<close> and one \<^verbatim>\<open>ber_scanf\<close> with the matching format give back every tag,
  every integer, every octet string and the nesting, and leave the cursor at the end of the
  message.  Booleans come back as \<open>0\<close> or \<open>-1\<close>.
\<close>

theorem ber_printf_scanf_round_trip:
  assumes ok: "list_all item_ok is" and tags: "list_all item_tags is" and mem: "\<forall>n. ma n"
    and small: "sum_list (map item_cost is) < 2 ^ 31"
  shows "\<exists>rc ber rc' ber'.
           ber_printf ma (ber_alloc_t opt) (concat (map item_fmt is)) (concat (map item_args is)) = Some (rc, ber)
           \<and> rc \<noteq> -1
           \<and> ber_scanf ma (ber_reset ber True) (concat (map item_scan is))
               (replicate (length (concat (map item_outs is))) SaOut)
               = Inr (rc', ber', concat (map item_outs is))
           \<and> rc' \<noteq> LBER_DEFAULT \<and> ber_remaining ber' = 0"
proof -
  let ?der = "opt AND LBER_USE_DER \<noteq> 0"
  obtain rc ber where r:
    "ber_printf ma (ber_alloc_t opt) (concat (map item_fmt is)) (concat (map item_args is)) = Some (rc, ber)"
    "rc \<noteq> -1" "ber_wf ber" "ber_sos_ptr ber = None" "ber_end ber < 2 ^ 31"
    "take (ber_ptr ber) (ber_buf ber) = concat (map (item_enc ?der) is)"
    using ber_printf_run [OF ok mem small, of opt] by blast
  let ?b = "ber_reset ber True"
  have v: "ber_rd ?b" "ber_view ?b = take (ber_ptr ber) (ber_buf ber)" "length (ber_view ?b) < 2 ^ 32"
    using reset_view [OF r(3,4)] r(5) by auto
  have "scans ma (concat (map item_scan is)) (concat (map item_outs is)) (concat (map (item_enc ?der) is))"
    using tags by (intro scans_concat item_scans [OF mem]) (simp add: list_all_iff)
  then obtain rc' ber' where r': "rc' \<noteq> LBER_DEFAULT" "ber_rd ber'" "ber_view ber' = []"
    "\<And>fmt args outs. ber_scanf_loop ma 0 ?b (concat (map item_scan is) @ fmt)
           (replicate (length (concat (map item_outs is))) SaOut @ args) outs
       = ber_scanf_loop ma rc' ber' fmt args (rev (concat (map item_outs is)) @ outs)"
    by (rule scansD [of _ _ _ _ 0 ?b "[]"]) (use v r(6) in simp_all)
  have "ber_scanf ma ?b (concat (map item_scan is)) (replicate (length (concat (map item_outs is))) SaOut)
          = Inr (rc', ber', concat (map item_outs is))"
    using r'(1) r'(4) [of "[]" "[]" "[]"] by (simp add: ber_scanf_def)
  moreover have "ber_remaining ber' = 0"
    using length_view [OF r'(2)] r'(2,3) by (simp add: ber_remaining_def ber_pvt_ber_remaining_def ber_rd_def)
  ultimately show ?thesis using r(1,2) r'(1) by blast
qed

lemma universal_tags [simp]:
  "valid_tag 1" "valid_tag 2" "valid_tag 3" "valid_tag 4" "valid_tag 5" "valid_tag 10" "valid_tag 48" "valid_tag 49"
  by (simp_all add: valid_tag_def be_bytes_small tag_octets_def)

theorem ber_printf_scanf_round_trip_witness:
  "\<exists>rc ber rc' ber'.
     ber_printf (\<lambda>_. True) (ber_alloc_t 0) ''t{tit{to}}''
       [PaTag LBER_DEFAULT, PaTag LBER_DEFAULT, PaInt (- 129), PaTag LBER_DEFAULT, PaTag LBER_DEFAULT, PaOctets [7, 0, 9]]
       = Some (rc, ber)
     \<and> rc \<noteq> -1
     \<and> ber_scanf (\<lambda>_. True) (ber_reset ber True) ''t{tit{to}}'' [SaOut, SaOut, SaOut, SaOut, SaOut, SaOut]
         = Inr (rc', ber', [SoTag 48, SoTag 2, SoInt (Some (- 129)), SoTag 48, SoTag 4, SoBerval (SCopy [7, 0, 9]) 3])
     \<and> rc' \<noteq> LBER_DEFAULT \<and> ber_remaining ber' = 0"
  using ber_printf_scanf_round_trip
    [of "[BSeq LBER_DEFAULT [BInt LBER_DEFAULT (- 129), BSeq LBER_DEFAULT [BOctets LBER_DEFAULT [7, 0, 9]]]]" "\<lambda>_. True" 0]
  by (simp add: tag_or_def)

end
