(* ===== verification/Ber_Bounds.thy ===== *)
theory Ber_Bounds
  imports Ber_Reader
begin

text \<open>
  Safety of the decoder on arbitrary input: whatever octets a message holds, no operation
  moves the cursor out of it or hands out contents that reach behind its end.
\<close>

section \<open>Tags and lengths stay inside the message\<close>

lemma tag_octets_loop_sum:
  "tag_octets_loop ber tag ptr rest = (t, p, r) \<Longrightarrow> p + r = ptr + rest \<and> ptr \<le> p"
proof (induction rest arbitrary: tag ptr)
  case (Suc rest)
  show ?case
    using Suc.prems Suc.IH [of _ "Suc ptr"] by (fastforce simp: Let_def split: if_splits)
qed simp

lemma tag_and_rest_bounds:
  assumes "ber_rd ber" and "ber_tag_and_rest ber = (t, bv)"
  shows "ber_ptr ber \<le> bv_val bv" and "bv_val bv + unat (bv_len bv) = ber_end ber"
proof -
  have rd: "ber_ptr ber \<le> ber_end ber" "ber_end ber < 2 ^ 63" using assms(1) by (simp_all add: ber_rd_def)
  have small: "unat (of_nat n :: 64 word) = n" if "n \<le> ber_end ber" for n
    using that rd by (intro unat_of_nat64) simp
  have "ber_ptr ber \<le> bv_val bv \<and> bv_val bv + unat (bv_len bv) = ber_end ber"
  proof (cases "ber_ptr ber = ber_end ber")
    case True
    then show ?thesis using assms(2) by (auto simp: ber_tag_and_rest_def Let_def)
  next
    case False
    then have pos: "\<not> int (ber_end ber) - int (ber_ptr ber) \<le> 0" "ber_ptr ber < ber_end ber" using rd by simp_all
    have n: "nat (int (ber_end ber) - int (ber_ptr ber)) = ber_end ber - ber_ptr ber" by simp
    obtain t' p' r' where l: "tag_octets_loop ber
        (if ber_ptr ber = 0 then ucast (ber_at ber (ber_ptr ber)) else ber_tag ber)
        (Suc (ber_ptr ber)) (ber_end ber - ber_ptr ber - 1) = (t', p', r')"
      by (metis prod_cases3)
    have "p' + r' = ber_end ber" "ber_ptr ber \<le> p'" using tag_octets_loop_sum [OF l] pos by simp_all
    then show ?thesis
      using assms(2) pos l small [of r'] small [of "ber_end ber - ber_ptr ber - 1"]
      unfolding ber_tag_and_rest_def Let_def n by (auto split: if_splits)
  qed
  then show "ber_ptr ber \<le> bv_val bv" and "bv_val bv + unat (bv_len bv) = ber_end ber" by blast+
qed

lemma peek_element_bounds:
  assumes rd: "ber_rd ber" and p: "ber_peek_element ber = (t, bv)"
  shows "ber_ptr ber \<le> bv_val bv \<and> bv_val bv \<le> ber_end ber
       \<and> (t \<noteq> LBER_DEFAULT \<longrightarrow> ber_ptr ber < bv_val bv \<and> bv_val bv + unat (bv_len bv) \<le> ber_end ber)"
proof -
  obtain t0 b0 where r: "ber_tag_and_rest ber = (t0, b0)" by (cases "ber_tag_and_rest ber")
  note b = tag_and_rest_bounds [OF rd r]
  have strict: "t \<noteq> LBER_DEFAULT \<Longrightarrow> ber_ptr ber < bv_val bv" using peek_element_ptr [OF p] by blast
  show ?thesis
  proof (cases "t0 = LBER_DEFAULT \<or> bv_len b0 = 0")
    case True
    then show ?thesis using p b by (auto simp: ber_peek_element_def r Let_def)
  next
    case False
    define len where "len = (ucast (ber_at ber (bv_val b0)) :: 64 word)"
    define n where "n = len AND 0x7f"
    have pos: "unat (bv_len b0) > 0" using False by (simp add: unat_gt_0)
    have u1: "unat (bv_len b0 - 1) = unat (bv_len b0) - 1" using False by (simp add: unat_minus_one)
    show ?thesis
    proof (cases "len AND 0x80 \<noteq> 0")
      case short: False
      then have "bv = \<lparr>bv_val = Suc (bv_val b0), bv_len = len\<rparr>"
        and t: "t = (if len > bv_len b0 - 1 then LBER_DEFAULT else t0)"
        using p False by (simp_all add: ber_peek_element_def r Let_def len_def)
      then show ?thesis using b pos strict u1 by (auto simp: word_less_nat_alt split: if_splits)
    next
      case long: True
      show ?thesis
      proof (cases "n - 1 > 8 - 1 \<or> bv_len b0 - 1 < n")
        case True
        then have "t = LBER_DEFAULT" "bv_val bv = Suc (bv_val b0)"
          using p False long by (auto simp: ber_peek_element_def r Let_def len_def n_def)
        then show ?thesis using b pos by auto
      next
        case fits: False
        define l where "l = len_octets_loop ber (ucast (ber_at ber (Suc (bv_val b0)))) (Suc (Suc (bv_val b0))) (unat n - 1)"
        have bv: "bv = \<lparr>bv_val = Suc (bv_val b0) + unat n, bv_len = l\<rparr>"
          and t: "t = (if l > bv_len b0 - 1 - n then LBER_DEFAULT else t0)"
          using p False long fits by (simp_all add: ber_peek_element_def r Let_def len_def n_def l_def)
        have "unat n \<le> unat (bv_len b0) - 1" using fits u1 by (simp add: word_less_nat_alt)
        moreover from this have "unat (bv_len b0 - 1 - n) = unat (bv_len b0) - 1 - unat n"
          using u1 by (subst unat_sub) (simp_all add: word_le_nat_alt)
        ultimately show ?thesis using b pos strict bv t by (auto simp: word_less_nat_alt split: if_splits)
      qed
    qed
  qed
qed

lemma rd_moved:
  assumes "ber_rd ber" and "p \<le> ber_end ber"
  shows "ber_rd (ber\<lparr>ber_ptr := p, ber_tag := ucast (b :: byte)\<rparr>)"
  using assms unat_byte_less [of b] by (simp add: ber_rd_def unat_ucast_of_byte)

text \<open>What a skip gives: an element inside the message, a cursor inside it and an untouched buffer.\<close>

lemma skip_element_bounds:
  assumes rd: "ber_rd ber" and s: "ber_skip_element ber = (t, bv, ber')"
  shows "ber_rd ber' \<and> ber_ptr ber \<le> ber_ptr ber' \<and> ber_end ber' = ber_end ber \<and> ber_buf ber' = ber_buf ber
       \<and> (t \<noteq> LBER_DEFAULT \<longrightarrow> ber_ptr ber < bv_val bv \<and> bv_val bv + unat (bv_len bv) = ber_ptr ber')"
proof -
  obtain t0 b0 where p: "ber_peek_element ber = (t0, b0)" by (cases "ber_peek_element ber")
  show ?thesis
    using s peek_element_bounds [OF rd p] rd rd_moved [OF rd]
    by (auto simp: ber_skip_element_def p Let_def split: if_splits)
qed

lemma skip_tag_bounds:
  assumes rd: "ber_rd ber" and s: "ber_skip_tag ber = (t, l, ber')"
  shows "ber_rd ber' \<and> ber_ptr ber \<le> ber_ptr ber' \<and> ber_end ber' = ber_end ber \<and> ber_buf ber' = ber_buf ber
       \<and> (t \<noteq> LBER_DEFAULT \<longrightarrow> ber_ptr ber < ber_ptr ber' \<and> ber_ptr ber' + unat l \<le> ber_end ber)"
proof -
  obtain t0 b0 where p: "ber_peek_element ber = (t0, b0)" by (cases "ber_peek_element ber")
  show ?thesis
    using s peek_element_bounds [OF rd p] rd rd_moved [OF rd] by (auto simp: ber_skip_tag_def p)
qed

section \<open>Every decoding operation is a safe step\<close>

text \<open>The cursor moves forward inside the message, and the buffer keeps its size.\<close>

definition safe_step :: "berelement \<Rightarrow> berelement \<Rightarrow> bool" where
  "safe_step ber ber' \<longleftrightarrow> ber_rd ber' \<and> ber_ptr ber \<le> ber_ptr ber' \<and> ber_end ber' = ber_end ber
     \<and> length (ber_buf ber') = length (ber_buf ber)"

named_theorems safe \<open>decoding operations that are safe steps\<close>

lemma safe_refl: "ber_rd ber \<Longrightarrow> safe_step ber ber"
  by (simp add: safe_step_def)

lemma safe_trans: "safe_step a b \<Longrightarrow> safe_step b c \<Longrightarrow> safe_step a c"
  by (auto simp: safe_step_def)

lemma safe_rd: "safe_step a b \<Longrightarrow> ber_rd b"
  by (simp add: safe_step_def)

lemma skip_element_safe [safe]: "ber_rd ber \<Longrightarrow> ber_skip_element ber = (t, bv, ber') \<Longrightarrow> safe_step ber ber'"
  by (drule (1) skip_element_bounds) (simp add: safe_step_def)

lemma skip_tag_safe [safe]: "ber_rd ber \<Longrightarrow> ber_skip_tag ber = (t, l, ber') \<Longrightarrow> safe_step ber ber'"
  by (drule (1) skip_tag_bounds) (simp add: safe_step_def)

lemma get_int_safe [safe]: "ber_rd ber \<Longrightarrow> ber_get_int ber = (t, v, ber') \<Longrightarrow> safe_step ber ber'"
  by (auto simp: ber_get_int_def split: prod.splits if_splits dest: skip_element_safe)

lemma get_null_safe [safe]: "ber_rd ber \<Longrightarrow> ber_get_null ber = (t, ber') \<Longrightarrow> safe_step ber ber'"
  by (auto simp: ber_get_null_def split: prod.splits dest: skip_tag_safe)

lemma get_stringb_safe [safe]: "ber_rd ber \<Longrightarrow> ber_get_stringb ber n = (t, v, l, ber') \<Longrightarrow> safe_step ber ber'"
  by (auto simp: ber_get_stringb_def split: prod.splits if_splits dest: skip_element_safe)

lemma get_bitstringa_safe [safe]: "ber_rd ber \<Longrightarrow> ber_get_bitstringa ma ber = (t, v, l, ber') \<Longrightarrow> safe_step ber ber'"
  by (auto simp: ber_get_bitstringa_def Let_def split: prod.splits if_splits dest: skip_element_safe)

lemma finish_string_safe: "ber_rd ber \<Longrightarrow> finish_string ma ber bv opt tag = (t, s, l, ber') \<Longrightarrow> safe_step ber ber'"
  by (auto simp: finish_string_def safe_step_def ber_rd_def split: if_splits)

lemma get_stringbv_safe [safe]:
  assumes "ber_rd ber" and "ber_get_stringbv ma ber opt = (t, s, l, ber')"
  shows "safe_step ber ber'"
proof -
  obtain t0 bv b where k: "ber_skip_element ber = (t0, bv, b)" by (metis prod_cases3)
  note sk = skip_element_safe [OF assms(1) k]
  show ?thesis
    using assms(2) finish_string_safe [OF safe_rd [OF sk]] sk safe_trans [OF sk]
    by (auto simp: ber_get_stringbv_def k split: if_splits)
qed

lemma get_stringbv_null_safe [safe]:
  assumes "ber_rd ber" and "ber_get_stringbv_null ma ber opt = (t, s, l, ber')"
  shows "safe_step ber ber'"
proof -
  obtain t0 bv b where k: "ber_skip_element ber = (t0, bv, b)" by (metis prod_cases3)
  note sk = skip_element_safe [OF assms(1) k]
  show ?thesis
    using assms(2) finish_string_safe [OF safe_rd [OF sk]] sk safe_trans [OF sk]
    by (auto simp: ber_get_stringbv_null_def k split: if_splits)
qed

lemma get_stringa_safe [safe]: "ber_rd ber \<Longrightarrow> ber_get_stringa ma ber = (t, s, ber') \<Longrightarrow> safe_step ber ber'"
  by (auto simp: ber_get_stringa_def split: prod.splits dest: get_stringbv_safe)

lemma get_stringa_null_safe [safe]: "ber_rd ber \<Longrightarrow> ber_get_stringa_null ma ber = (t, s, ber') \<Longrightarrow> safe_step ber ber'"
  by (auto simp: ber_get_stringa_null_def split: prod.splits dest: get_stringbv_null_safe)

lemma get_stringal_safe [safe]: "ber_rd ber \<Longrightarrow> ber_get_stringal ma ber = (t, s, ber') \<Longrightarrow> safe_step ber ber'"
  by (auto simp: ber_get_stringal_def safe_refl split: prod.splits if_splits dest: get_stringbv_safe)

lemma count_elements_safe:
  "ber_rd ber \<Longrightarrow> count_elements siz ber lst i tot = (n, tot', ber')
     \<Longrightarrow> safe_step ber ber' \<and> ber_buf ber' = ber_buf ber"
proof (induction siz ber lst i tot rule: count_elements.induct)
  case (1 siz ber lst i tot)
  obtain t bv b where k: "ber_skip_element ber = (t, bv, b)" by (metis prod_cases3)
  note sk = skip_element_safe [OF 1(2) k]
  have "ber_buf b = ber_buf ber" using skip_element_bounds [OF 1(2) k] by simp
  then show ?case
    using 1(3) 1(1) [OF _ k [symmetric] refl] sk safe_refl [OF 1(2)] safe_trans [OF sk] safe_rd [OF sk]
    by (subst (asm) count_elements.simps) (auto simp: k split: if_splits)
qed

lemma stringbvl_loop_safe:
  "ber_rd ber \<Longrightarrow> stringbvl_loop ma ch opt ber tag acc k = (t, r, ber') \<Longrightarrow> safe_step ber ber'"
proof (induction k arbitrary: ber tag acc)
  case 0
  then show ?case by (simp add: safe_refl)
next
  case (Suc k)
  obtain t1 s l b where g: "ber_get_stringbv ma ber opt = (t1, s, l, b)" by (metis prod_cases4)
  note sb = get_stringbv_safe [OF Suc.prems(1) g]
  show ?case
    using Suc.prems(2) Suc.IH [OF safe_rd [OF sb]] sb safe_trans [OF sb] by (auto simp: g split: if_splits)
qed

lemma get_stringbvl_safe [safe]:
  assumes rd: "ber_rd ber" and g: "ber_get_stringbvl ma ch opt siz ber = (t, v, n, ber')"
  shows "safe_step ber ber'"
proof -
  obtain t0 l b1 where k: "ber_skip_tag ber = (t0, l, b1)" by (metis prod_cases3)
  note s1 = skip_tag_safe [OF rd k]
  obtain m tot b where c: "count_elements siz b1 (ber_ptr b1 + unat l) 0 0 = (m, tot, b)" by (metis prod_cases3)
  have s2: "safe_step b1 b" using count_elements_safe [OF safe_rd [OF s1] c] by blast
  let ?b2 = "b\<lparr>ber_ptr := ber_ptr b1, ber_tag := ucast (ber_at b (ber_ptr b1))\<rparr>"
  have "safe_step b1 ?b2"
    using s1 s2 rd_moved [OF safe_rd [OF s2], of "ber_ptr b1"] by (auto simp: safe_step_def ber_rd_def)
  then have s3: "safe_step ber ?b2" by (rule safe_trans [OF s1])
  have lp: "safe_step ber b'" if "stringbvl_loop ma ch opt ?b2 tag [] i = (t', r, b')" for tag i t' r b'
    using stringbvl_loop_safe [OF safe_rd [OF s3] that] s3 by (rule safe_trans [rotated])
  show ?thesis
    using g s1 s3 by (auto simp: ber_get_stringbvl_def k c Let_def split: if_splits prod.splits dest: lp)
qed

section \<open>Formatted decoding\<close>

definition hook_safe :: "(berelement \<Rightarrow> bool \<Rightarrow> ber_tag_t \<times> berelement) \<Rightarrow> bool" where
  "hook_safe f \<longleftrightarrow> (\<forall>ber mode. ber_rd ber \<longrightarrow> safe_step ber (snd (f ber mode)))"

definition arg_safe :: "scanf_arg \<Rightarrow> bool" where
  "arg_safe a \<longleftrightarrow> (\<forall>f. a = SaHook f \<longrightarrow> hook_safe f)"

definition out_safe :: "scan_out \<Rightarrow> bool" where
  "out_safe v \<longleftrightarrow> (\<forall>f. v = SoHook f \<longrightarrow> hook_safe f)"

lemma scanf_hook_safe:
  assumes rd: "ber_rd ber" and a: "arg_safe a"
    and v: "scanf_value ma (CHR ''!'') ber a = Some (t, v, ber')"
  shows "safe_step ber ber' \<and> out_safe v"
proof -
  obtain f where f: "a = SaHook f" "f ber False = (t, ber')" "v = SoHook f"
    using v by (auto simp: scanf_value.simps split: scanf_arg.splits prod.splits)
  have h: "hook_safe f" using a f(1) by (simp add: arg_safe_def)
  then have "safe_step ber (snd (f ber False))" using rd by (simp add: hook_safe_def)
  then show ?thesis using h f(2,3) by (simp add: out_safe_def)
qed

lemma scanf_value_safe:
  assumes rd: "ber_rd ber" and a: "arg_safe a" and v: "scanf_value ma c ber a = Some (t, v, ber')"
  shows "safe_step ber ber' \<and> out_safe v"
proof (cases "c = CHR ''!''")
  case True
  then show ?thesis using scanf_hook_safe [OF rd a] v by simp
next
  case False
  then show ?thesis
    using v rd unfolding scanf_value.simps ber_get_boolean_def scan_vec_def
    by (simp add: out_safe_def safe_refl split: if_splits prod.splits scanf_arg.splits)
       (auto dest: safe)
qed

lemma scanf_noarg_safe:
  "ber_rd ber \<Longrightarrow> scanf_noarg c fmt rc ber = Some (rc', ber') \<Longrightarrow> safe_step ber ber'"
  unfolding scanf_noarg_def
  by (auto simp: safe_refl split: if_splits prod.splits dest: safe)

lemma scanf_loop_safe:
  assumes "ber_rd ber" and "list_all arg_safe args" and "list_all out_safe outs"
    and "ber_scanf_loop ma rc ber fmt args outs = Inr (rc', ber', outs')"
  shows "safe_step ber ber' \<and> list_all out_safe outs'"
  using assms
proof (induction fmt arbitrary: rc ber args outs)
  case Nil
  then show ?case by (simp add: safe_refl)
next
  case (Cons c fmt)
  show ?case
  proof (cases "rc = LBER_DEFAULT")
    case True
    then show ?thesis using Cons.prems by (simp add: safe_refl)
  next
    case rc: False
    show ?thesis
    proof (cases "scanf_takes_arg c")
      case True
      then obtain a as t v b where a: "args = a # as" "scanf_value ma c ber a = Some (t, v, b)"
        "ber_scanf_loop ma t b fmt as (v # outs) = Inr (rc', ber', outs')"
        using Cons.prems(4) rc by (auto split: list.splits option.splits)
      have s: "safe_step ber b" "out_safe v" using scanf_value_safe [OF _ _ a(2)] Cons.prems a(1) by auto
      show ?thesis
        using Cons.IH [OF safe_rd [OF s(1)] _ _ a(3)] Cons.prems s a(1) safe_trans [OF s(1)] by auto
    next
      case False
      then obtain t b where b: "scanf_noarg c fmt rc ber = Some (t, b)"
        "ber_scanf_loop ma t b fmt args outs = Inr (rc', ber', outs')"
        using Cons.prems(4) rc by (auto split: option.splits)
      have s: "safe_step ber b" using scanf_noarg_safe [OF Cons.prems(1) b(1)] .
      show ?thesis using Cons.IH [OF safe_rd [OF s] _ _ b(2)] Cons.prems safe_trans [OF s] by auto
    qed
  qed
qed

lemma scanf_cleanup_safe:
  "ber_rd ber \<Longrightarrow> list_all out_safe vs \<Longrightarrow> scanf_cleanup ber vs = (ber', vs') \<Longrightarrow> safe_step ber ber'"
proof (induction vs arbitrary: ber ber' vs')
  case (Cons v vs)
  let ?b = "case v of SoHook f \<Rightarrow> snd (f ber True) | _ \<Rightarrow> ber"
  have s: "safe_step ber ?b"
    using Cons.prems(1,2) by (auto simp: out_safe_def hook_safe_def safe_refl split: scan_out.splits)
  obtain b' ws where w: "scanf_cleanup ?b vs = (b', ws)" by fastforce
  then have "safe_step ?b b'" using Cons.IH [OF safe_rd [OF s] _ w] Cons.prems(2) by simp
  then show ?case using Cons.prems(3) w safe_trans [OF s] by (simp add: Let_def)
qed (simp add: safe_refl)

lemma scanf_cleanup_outs: "scanf_cleanup ber vs = (ber', vs') \<Longrightarrow> vs' = map scanf_reset vs"
  by (induction vs arbitrary: ber vs') (auto simp: Let_def split: prod.splits)

section \<open>Properties\<close>

text \<open>
  C3: on any message, of whatever octets, \<^verbatim>\<open>ber_skip_element\<close> either fails and leaves the element
  as it was, or yields contents that lie strictly behind the old cursor and end at the new
  one, inside the message; the buffer is not written.
\<close>

theorem ber_skip_element_in_bounds:
  assumes "ber_rd ber" and "ber_skip_element ber = (tag, bv, ber')"
  shows "(tag = LBER_DEFAULT \<and> ber' = ber)
       \<or> (ber_ptr ber < bv_val bv \<and> bv_val bv + unat (bv_len bv) = ber_ptr ber'
           \<and> ber_ptr ber' \<le> ber_end ber \<and> ber_rd ber' \<and> ber_buf ber' = ber_buf ber)"
proof (cases "tag = LBER_DEFAULT")
  case True
  then show ?thesis using assms(2) by (auto simp: ber_skip_element_def Let_def split: prod.splits if_splits)
next
  case False
  then show ?thesis using skip_element_bounds [OF assms] by (auto simp: ber_rd_def)
qed

theorem ber_skip_element_in_bounds_witness:
  "(\<exists>tag bv ber'. ber_rd (ber_init2 (Some [0x30, 0x03, 1, 1, 255, 5, 0]) 0)
     \<and> ber_skip_element (ber_init2 (Some [0x30, 0x03, 1, 1, 255, 5, 0]) 0) = (tag, bv, ber')
     \<and> ((tag = LBER_DEFAULT \<and> ber' = ber_init2 (Some [0x30, 0x03, 1, 1, 255, 5, 0]) 0) \<or> ber_ptr ber' \<le> 7))"
proof -
  let ?b = "ber_init2 (Some [0x30, 0x03, 1, 1, 255, 5, 0]) 0"
  have rd: "ber_rd ?b" by (simp add: ber_rd_def ber_init2_def ber_alloc_t_def)
  obtain tag bv ber' where s: "ber_skip_element ?b = (tag, bv, ber')" by (metis prod_cases3)
  have "ber_end ?b = 7" by (simp add: ber_init2_def ber_alloc_t_def)
  then show ?thesis using ber_skip_element_in_bounds [OF rd s] rd s by auto
qed

text \<open>
  C4: for every message, every format and every argument list whose hooks are themselves safe,
  \<^verbatim>\<open>ber_scanf\<close> only moves the cursor forward inside the message and keeps the buffer's size,
  also on the error path.
\<close>

theorem ber_scanf_in_bounds:
  assumes "ber_rd ber" and "list_all arg_safe args" and "ber_scanf ma ber fmt args = Inr (rc, ber', outs)"
  shows "ber_ptr ber \<le> ber_ptr ber' \<and> ber_ptr ber' \<le> ber_end ber' \<and> ber_end ber' = ber_end ber
       \<and> length (ber_buf ber') = length (ber_buf ber)"
proof -
  obtain rc1 b vs where l: "ber_scanf_loop ma 0 ber fmt args [] = Inr (rc1, b, vs)"
    using assms(3) by (auto simp: ber_scanf_def split: sum.splits)
  have s: "safe_step ber b" "list_all out_safe vs" using scanf_loop_safe [OF assms(1,2) _ l] by simp_all
  have cl: "safe_step ber x" if "scanf_cleanup b (rev vs) = (x, y)" for x y
    using scanf_cleanup_safe [OF safe_rd [OF s(1)] _ that] s(2) safe_trans [OF s(1)] by simp
  have "safe_step ber ber'"
    using assms(3) l s(1) by (auto simp: ber_scanf_def split: if_splits prod.splits dest: cl)
  then show ?thesis by (auto simp: safe_step_def ber_rd_def)
qed

theorem ber_scanf_in_bounds_witness:
  "\<exists>rc ber' outs. ber_scanf (\<lambda>_. True) (ber_init2 (Some [2, 1, 5]) 0) ''i'' [SaOut] = Inr (rc, ber', outs)
     \<and> ber_ptr ber' \<le> 3 \<and> length (ber_buf ber') = 3"
proof -
  let ?b = "ber_init2 (Some [2, 1, 5]) 0"
  have "\<exists>r. ber_scanf (\<lambda>_. True) ?b ''i'' [SaOut] = Inr r"
    by (simp add: ber_scanf_def scanf_takes_arg_def scanf_value.simps split: prod.splits)
  then obtain rc ber' outs where s: "ber_scanf (\<lambda>_. True) ?b ''i'' [SaOut] = Inr (rc, ber', outs)"
    by (metis prod_cases3)
  have "ber_rd ?b" "list_all arg_safe [SaOut]" "ber_end ?b = 3" "length (ber_buf ?b) = 3"
    by (simp_all add: ber_rd_def ber_init2_def ber_alloc_t_def arg_safe_def)
  then show ?thesis using ber_scanf_in_bounds [OF _ _ s] s by auto
qed

text \<open>
  C5: when \<^verbatim>\<open>ber_scanf\<close> fails, no argument is left with a pointer that the caller would have
  to free or could use: strings, bervals and vectors are NULL and data lengths 0.
\<close>

fun holds_nothing :: "scan_out \<Rightarrow> bool" where
  "holds_nothing (SoStr s) = (s = SNull)"
| "holds_nothing (SoBits v l) = (v = None \<and> l = Some 0)"
| "holds_nothing (SoLen l) = (l = 0)"
| "holds_nothing (SoBerval s l) = (s = SNull \<and> l = 0)"
| "holds_nothing (SoBervalp p) = (p = None)"
| "holds_nothing (SoBuf s l) = (l = 0)"
| "holds_nothing (SoVec v) = (v = None)"
| "holds_nothing (SoRecords v n) = (v = None \<and> n = 0)"
| "holds_nothing _ = True"

lemma reset_holds_nothing: "holds_nothing (scanf_reset v)"
  by (cases v) simp_all

theorem ber_scanf_error_releases:
  assumes "ber_scanf ma ber fmt args = Inr (LBER_DEFAULT, ber', outs)"
  shows "list_all holds_nothing outs"
proof -
  obtain b vs where l: "ber_scanf_loop ma 0 ber fmt args [] = Inr (LBER_DEFAULT, b, vs)"
    using assms by (auto simp: ber_scanf_def split: sum.splits if_splits prod.splits)
  then have "scanf_cleanup b (rev vs) = (ber', outs)"
    using assms by (auto simp: ber_scanf_def split: prod.splits)
  then have "outs = map scanf_reset (rev vs)" by (rule scanf_cleanup_outs)
  then show ?thesis by (simp add: list_all_iff reset_holds_nothing)
qed

theorem ber_scanf_error_releases_witness:
  "\<exists>ber' outs. ber_scanf (\<lambda>_. True) (ber_init2 (Some []) 0) ''o'' [SaOut] = Inr (LBER_DEFAULT, ber', outs)
     \<and> list_all holds_nothing outs"
proof -
  have "ber_scanf (\<lambda>_. True) (ber_init2 (Some []) 0) ''o'' [SaOut]
          = Inr (LBER_DEFAULT, ber_init2 (Some []) 0, [SoBerval SNull 0])"
    by (simp add: ber_scanf_def scanf_takes_arg_def scanf_value.simps ber_get_stringbv_def ber_skip_element_def
        ber_peek_element_def ber_tag_and_rest_def ber_init2_def ber_alloc_t_def)
  then show ?thesis using ber_scanf_error_releases by blast
qed

end
