(* ===== verification/Ber_Sequences.thy ===== *)
theory Ber_Sequences
  imports Ber_Codec
begin

text \<open>
  Strings read in place, walks over the elements of a sequence with
  \<^verbatim>\<open>ber_first_element\<close> and \<^verbatim>\<open>ber_next_element\<close>, and vectors of strings.
\<close>

section \<open>Lists of elements\<close>

definition tlvs :: "(ber_tag_t \<times> byte list) list \<Rightarrow> byte list" where
  "tlvs es = concat (map (\<lambda>(t, c). tlv t c) es)"

lemma tlvs_simps [simp]: "tlvs [] = []" "tlvs ((t, c) # es) = tlv t c @ tlvs es"
  by (simp_all add: tlvs_def)

lemma tlv_nonempty [simp]: "tlv t c \<noteq> []"
  by (simp add: tlv_def)

lemma ptr_by_view: "ber_rd ber \<Longrightarrow> ber_ptr ber = ber_end ber - length (ber_view ber)"
  using length_view [of ber] by (auto simp: ber_rd_def)

lemma before_last:
  assumes "ber_rd ber" and "ber_view ber = tlv t c @ mid @ rest"
  shows "ber_ptr ber < ber_end ber - length rest"
proof -
  have "0 < length (tlv t c)" by (simp only: length_greater_0_conv) simp
  moreover have "length (tlv t c) + length mid + length rest = ber_end ber - ber_ptr ber"
    using length_view [OF assms(1)] assms(2) by simp
  ultimately show ?thesis by linarith
qed

text \<open>The caller's loop: ask for the next element, consume it, and so on until the end.\<close>

fun walk_elements ::
  "nat \<Rightarrow> berelement \<Rightarrow> ber_len_t \<Rightarrow> nat \<Rightarrow> (ber_tag_t \<times> byte list) list \<times> berelement" where
  "walk_elements 0 ber len lst = ([], ber)"
| "walk_elements (Suc k) ber len lst =
     (case ber_next_element ber len lst of (t, len') \<Rightarrow>
        if t = LBER_DEFAULT then ([], ber)
        else case ber_skip_element ber of (t', bv, ber') \<Rightarrow>
               (case walk_elements k ber' len' lst of (es, b) \<Rightarrow> ((t', ber_octets ber bv) # es, b)))"

lemma walk_elements_run:
  assumes "ber_rd ber" and "ber_view ber = tlvs es @ rest" and "list_all (valid_tag \<circ> fst) es"
    and "lst = ber_end ber - length rest" and "length es < k"
  shows "\<exists>ber'. walk_elements k ber len lst = (es, ber') \<and> ber_rd ber' \<and> ber_view ber' = rest"
  using assms
proof (induction es arbitrary: ber len k)
  case Nil
  then have "lst \<le> ber_ptr ber" using ptr_by_view [of ber] by simp
  moreover obtain j where "k = Suc j" using Nil.prems(5) by (cases k) auto
  ultimately show ?case using Nil.prems by (simp add: ber_next_element_def)
next
  case (Cons e es)
  obtain t c where e: "e = (t, c)" by (cases e)
  obtain j where j: "k = Suc j" "length es < j" using Cons.prems(5) by (cases k) auto
  have t: "valid_tag t" "t \<noteq> LBER_DEFAULT" using Cons.prems(3) by (auto simp: e valid_tag_def)
  have a: "element_ahead ber t c (tlvs es @ rest)"
    using Cons.prems(1,2) t(1) by (intro tlv_ahead) (simp_all add: e)
  have "ber_ptr ber < lst" using before_last [OF Cons.prems(1)] Cons.prems(2,4) e by simp
  then have n: "ber_next_element ber len lst = (t, of_nat (length c))"
    using peek_tag_ahead [OF a] by (simp add: ber_next_element_def)
  obtain bv b where s: "ber_skip_element ber = (t, bv, b)" "bv_ok ber bv c" "ber_rd b" "ber_view b = tlvs es @ rest"
    and b: "b = ber\<lparr>ber_ptr := bv_val bv + length c, ber_tag := ber_tag b\<rparr>"
    using skip_ahead [OF a] by blast
  have "ber_end b = ber_end ber" by (subst b) simp
  then obtain b' where "walk_elements j b (of_nat (length c)) lst = (es, b')" "ber_rd b'" "ber_view b' = rest"
    using Cons.IH [OF s(3,4) _ _ j(2), of "of_nat (length c)"] Cons.prems(3,4) by auto
  then show ?case using s(1,2) t(2) n by (simp add: j(1) e bv_ok_def)
qed

lemma first_element_run:
  assumes a: "element_ahead ber t (tlvs es) rest" and es: "list_all (valid_tag \<circ> fst) es"
  shows "\<exists>ber1. ber_first_element ber
            = (case es of [] \<Rightarrow> (LBER_DEFAULT, 0, Some (ber_end ber - length rest), ber1)
               | (t1, c1) # _ \<Rightarrow> (t1, of_nat (length c1), Some (ber_end ber - length rest), ber1))
         \<and> ber_rd ber1 \<and> ber_view ber1 = tlvs es @ rest \<and> ber_end ber1 = ber_end ber"
proof -
  obtain ber1 where s: "ber_skip_tag ber = (t, of_nat (length (tlvs es)), ber1)" "ber_rd ber1"
    "ber_view ber1 = tlvs es @ rest" "ber_end ber1 = ber_end ber"
    using skip_tag_ahead [OF a] by blast
  have t: "t \<noteq> LBER_DEFAULT" using a by (simp add: element_ahead_def valid_tag_def)
  have len: "length (tlvs es) < 2 ^ 64" and e: "ber_ptr ber1 + length (tlvs es) = ber_end ber - length rest"
    using s(2,3,4) length_view [OF s(2)] by (auto simp: ber_rd_def)
  then have u: "unat (of_nat (length (tlvs es)) :: 64 word) = length (tlvs es)" by (intro unat_of_nat64)
  show ?thesis
  proof (cases es)
    case Nil
    then show ?thesis using s t e by (simp add: ber_first_element_def Let_def)
  next
    case (Cons x xs)
    obtain t1 c1 where x: "x = (t1, c1)" by (cases x)
    have "of_nat (length (tlvs es)) \<noteq> (0 :: 64 word)" using u Cons x by (metis length_0_conv tlv_nonempty
        append_is_Nil_conv tlvs_simps(2) unsigned_0)
    moreover have "ber_peek_tag ber1 = (t1, of_nat (length c1))"
      using s(2,3) es by (intro peek_tag_ahead [of _ _ _ "tlvs xs @ rest"] tlv_ahead) (simp_all add: Cons x)
    ultimately show ?thesis using s t e u by (simp add: ber_first_element_def Let_def Cons x)
  qed
qed

section \<open>Vectors of strings\<close>

lemma count_elements_run:
  assumes "ber_rd ber" and "ber_view ber = tlvs es @ rest" and "list_all (valid_tag \<circ> fst) es"
    and "lst = ber_end ber - length rest"
  shows "\<exists>ber'. count_elements siz ber lst i tot = (i + of_nat (length es), tot + of_nat (length es) * siz, ber')
           \<and> ber_rd ber' \<and> ber_view ber' = rest
           \<and> ber' = ber\<lparr>ber_ptr := ber_ptr ber', ber_tag := ber_tag ber'\<rparr>"
  using assms
proof (induction es arbitrary: ber i tot)
  case Nil
  then have "\<not> ber_ptr ber < lst" using ptr_by_view [of ber] by simp
  then show ?case using Nil.prems by (subst count_elements.simps) simp
next
  case (Cons e es)
  obtain t c where e: "e = (t, c)" by (cases e)
  have t: "valid_tag t" "t \<noteq> LBER_DEFAULT" using Cons.prems(3) by (auto simp: e valid_tag_def)
  have a: "element_ahead ber t c (tlvs es @ rest)"
    using Cons.prems(1,2) t(1) by (intro tlv_ahead) (simp_all add: e)
  have lt: "ber_ptr ber < lst" using before_last [OF Cons.prems(1)] Cons.prems(2,4) e by simp
  obtain bv b where s: "ber_skip_element ber = (t, bv, b)" "ber_rd b" "ber_view b = tlvs es @ rest"
    and b: "b = ber\<lparr>ber_ptr := bv_val bv + length c, ber_tag := ber_tag b\<rparr>"
    using skip_ahead [OF a] by blast
  have "ber_end b = ber_end ber" by (subst b) simp
  then obtain b' where b': "count_elements siz b lst (i + 1) (tot + siz)
      = (i + 1 + of_nat (length es), tot + siz + of_nat (length es) * siz, b')" "ber_rd b'" "ber_view b' = rest"
    "b' = b\<lparr>ber_ptr := ber_ptr b', ber_tag := ber_tag b'\<rparr>"
    using Cons.IH [OF s(2,3), of "i + 1" "tot + siz"] Cons.prems(3,4) by auto
  have "b' = ber\<lparr>ber_ptr := ber_ptr b', ber_tag := ber_tag b'\<rparr>"
    by (subst b'(4), subst b) simp
  then show ?case
    using lt t(2) s(1) b'(1-3) by (subst count_elements.simps) (simp add: algebra_simps)
qed

lemma stringbvl_loop_run:
  assumes "ber_rd ber" and "ber_view ber = tlvs es @ rest" and "list_all (valid_tag \<circ> fst) es" and mem: "\<forall>n. ma n"
    and "opt AND LBER_BV_ALLOC \<noteq> 0" and "opt AND LBER_BV_STRING = 0 \<or> (\<forall>(t, c) \<in> set es. 0 \<notin> set c)"
  shows "\<exists>ber'. stringbvl_loop ma ch opt ber tag acc (length es)
            = (if es = [] then tag else fst (last es),
               Some (acc @ map (\<lambda>(t, c). (SCopy c, of_nat (length c))) es), ber')
         \<and> ber_rd ber' \<and> ber_view ber' = rest"
  using assms(1-3,5,6)
proof (induction es arbitrary: ber tag acc)
  case Nil
  then show ?case by simp
next
  case (Cons e es)
  obtain t c where e: "e = (t, c)" by (cases e)
  have t: "valid_tag t" "t \<noteq> LBER_DEFAULT" using Cons.prems(3) by (auto simp: e valid_tag_def)
  have a: "element_ahead ber t c (tlvs es @ rest)"
    using Cons.prems(1,2) t(1) by (intro tlv_ahead) (simp_all add: e)
  obtain b where g: "ber_get_stringbv ma ber opt = (t, SCopy c, of_nat (length c), b)" "ber_rd b"
    "ber_view b = tlvs es @ rest"
    using get_stringbv_ahead [OF a mem, of opt] Cons.prems(4,5) e by auto
  obtain b' where "stringbvl_loop ma ch opt b t (acc @ [(SCopy c, of_nat (length c))]) (length es)
            = (if es = [] then t else fst (last es),
               Some ((acc @ [(SCopy c, of_nat (length c))]) @ map (\<lambda>(t, c). (SCopy c, of_nat (length c))) es), b')"
    "ber_rd b'" "ber_view b' = rest"
    using Cons.IH [OF g(2,3) _ Cons.prems(4), of t "acc @ [(SCopy c, of_nat (length c))]"] Cons.prems(3,5) by auto
  moreover have "ber_memalloc_x ma 16" using mem by (simp add: memalloc_granted)
  ultimately show ?case using g(1) t(2) e by (intro exI [of _ b']) simp
qed

lemma skip_tag_saves_octet:
  "ber_skip_tag ber = (t, l, b) \<Longrightarrow> ucast (ber_at b (ber_ptr b)) = ber_tag b"
  by (auto simp: ber_skip_tag_def split: prod.splits)

lemma count_fits:
  assumes "es \<noteq> []" and "length es < 2 ^ 31"
  shows "of_nat (length es) \<noteq> (0 :: 32 word)" and "nat (max 1 (sint (of_nat (length es) :: 32 word))) = length es"
    and "scast (of_nat (length es) :: 32 word) = (of_nat (length es) :: 64 word)"
proof -
  have s: "sint (of_nat (length es) :: 32 word) = int (length es)" using assms(2) by (rule sint_of_nat32)
  then show "of_nat (length es) \<noteq> (0 :: 32 word)" using assms(1) by (metis length_0_conv of_nat_0_eq_iff signed_0)
  have "1 \<le> length es" using assms(1) by (simp add: Suc_le_eq)
  then show "nat (max 1 (sint (of_nat (length es) :: 32 word))) = length es" unfolding s by simp
  show "scast (of_nat (length es) :: 32 word) = (of_nat (length es) :: 64 word)"
    using s by (metis of_int_of_nat_eq of_int_sint)
qed

lemma room_for_entries:
  assumes "n < 2 ^ 31" and "siz \<in> {8, 16}"
  shows "of_nat n * siz + siz \<noteq> (0 :: ber_len_t)"
proof -
  have e: "siz = of_nat (unat siz)" "unat siz \<in> {8, 16}" using assms(2) by auto
  have "(of_nat n * siz + siz) = of_nat (n * unat siz + unat siz)" by simp
  moreover have "n * unat siz + unat siz < 2 ^ 64" "n * unat siz + unat siz \<noteq> 0" using assms(1) e(2) by auto
  ultimately show ?thesis by (metis unat_of_nat64 unsigned_0)
qed

lemma get_stringbvl_run:
  assumes a: "element_ahead ber t (tlvs es) rest" and es: "list_all (valid_tag \<circ> fst) es" "es \<noteq> []"
    and mem: "\<forall>n. ma n" and opt: "opt AND LBER_BV_ALLOC \<noteq> 0"
    and nul: "opt AND LBER_BV_STRING = 0 \<or> (\<forall>(t, c) \<in> set es. 0 \<notin> set c)"
    and few: "length es < 2 ^ 31" and siz: "siz \<in> {8, 16}"
  shows "\<exists>ber'. ber_get_stringbvl ma ch opt siz ber
            = (fst (last es), Some (map (\<lambda>(t, c). (SCopy c, of_nat (length c))) es), of_nat (length es), ber')
         \<and> ber_rd ber' \<and> ber_view ber' = rest"
proof -
  obtain b1 where s: "ber_skip_tag ber = (t, of_nat (length (tlvs es)), b1)" "ber_rd b1"
    "ber_view b1 = tlvs es @ rest" "ber_end b1 = ber_end ber"
    using skip_tag_ahead [OF a] by blast
  have t: "t \<noteq> LBER_DEFAULT" using a by (simp add: element_ahead_def valid_tag_def)
  have len: "length (tlvs es) < 2 ^ 64" and e: "ber_ptr b1 + length (tlvs es) = ber_end b1 - length rest"
    using s(2,3) length_view [OF s(2)] by (auto simp: ber_rd_def)
  have u: "unat (of_nat (length (tlvs es)) :: 64 word) = length (tlvs es)" using len by (rule unat_of_nat64)
  obtain b where c: "count_elements siz b1 (ber_end b1 - length rest) 0 0
      = (of_nat (length es), of_nat (length es) * siz, b)" "ber_rd b" "ber_view b = rest"
    and b: "b = b1\<lparr>ber_ptr := ber_ptr b, ber_tag := ber_tag b\<rparr>"
    using count_elements_run [OF s(2,3) es(1) refl, of siz 0 0] by auto
  have "ber_end b = ber_end b1" by (subst b) simp
  then have p: "ber_ptr b = ber_end b1 - length rest" using ptr_by_view [OF c(2)] c(3) by simp
  have "b\<lparr>ber_ptr := ber_ptr b1, ber_tag := ucast (ber_at b (ber_ptr b1))\<rparr>
          = b1\<lparr>ber_ptr := ber_ptr b1, ber_tag := ucast (ber_at b1 (ber_ptr b1))\<rparr>"
    by (subst b, subst (2) b) simp
  also have "\<dots> = b1" by (simp add: skip_tag_saves_octet [OF s(1)])
  finally have again: "b\<lparr>ber_ptr := ber_ptr b1, ber_tag := ucast (ber_at b (ber_ptr b1))\<rparr> = b1" .
  obtain b' where "stringbvl_loop ma ch opt b1 0 [] (length es)
      = (fst (last es), Some (map (\<lambda>(t, c). (SCopy c, of_nat (length c))) es), b')" "ber_rd b'" "ber_view b' = rest"
    using stringbvl_loop_run [OF s(2,3) es(1) mem opt nul, of ch 0 "[]"] es(2) by auto
  moreover note count_fits [OF es(2) few] room_for_entries [OF few siz]
  ultimately show ?thesis
    using t p again mem by (simp add: ber_get_stringbvl_def s(1) Let_def u e c(1) memalloc_granted flip: unat_eq_0)
qed

section \<open>Bit strings\<close>

lemma get_bitstringa_run:
  assumes a: "element_ahead ber t (u # data) rest" and u: "u \<le> 7" and mem: "\<forall>n. ma n"
    and len: "8 * length data < 2 ^ 64"
  shows "\<exists>ber'. ber_get_bitstringa ma ber
            = (if 0 \<in> set data \<or> data = [] then (LBER_DEFAULT, None, None, ber')
               else (t, Some data, Some (of_nat (length data) * 8 - ucast u), ber'))
         \<and> ber_rd ber' \<and> ber_view ber' = rest"
proof -
  obtain bv b where s: "ber_skip_element ber = (t, bv, b)" "bv_ok ber bv (u # data)" "ber_rd b" "ber_view b = rest"
    using skip_ahead [OF a] by blast
  have t: "t \<noteq> LBER_DEFAULT" using a by (simp add: element_ahead_def valid_tag_def)
  have l: "bv_len bv = of_nat (Suc (length data))"
    using s(2) unfolding bv_ok_def by (metis length_Cons of_nat_unat ucast_id)
  then have l1: "bv_len bv - 1 = of_nat (length data)" by simp
  have ud: "unat (of_nat (length data) :: 64 word) = length data" using len by (intro unat_of_nat64) simp
  have "\<not> of_nat (length data) > ((-1) div 8 :: 64 word)" using len ud by (simp add: word_less_nat_alt)
  moreover have oct: "ber_octets ber bv = u # data" and ul: "unat (bv_len bv) = Suc (length data)"
    using s(2) by (simp_all add: bv_ok_def)
  then have "ber_at ber (bv_val bv) = u" "ber_octets ber \<lparr>bv_val = Suc (bv_val bv), bv_len = of_nat (length data)\<rparr> = data"
    using ud by (simp_all add: ber_octets_def upt_conv_Cons del: upt_Suc)
  moreover have "\<not> u > 7" using u by (simp add: not_less)
  ultimately show ?thesis using s t mem by (simp add: ber_get_bitstringa_def Let_def l1 ud memalloc_granted)
qed

section \<open>Properties\<close>

text \<open>
  C6: an octet string read in place (\<^verbatim>\<open>ber_get_stringbv\<close> without \<^verbatim>\<open>LBER_BV_ALLOC\<close>) is a pointer
  to exactly the encoded octets, followed by a \<^verbatim>\<open>'\0'\<close> where the buffer has room for it; and although that
  \<^verbatim>\<open>'\0'\<close> overwrites the tag of the next element, everything behind the string is still decoded.
\<close>

theorem ber_get_stringbv_in_place:
  assumes a: "element_ahead ber t c rest"
  shows "\<exists>p ber'. ber_get_stringbv ma ber 0 = (t, SInPlace p, of_nat (length c), ber')
           \<and> ber_octets ber' \<lparr>bv_val = p, bv_len = of_nat (length c)\<rparr> = c
           \<and> (p + length c < length (ber_buf ber) \<longrightarrow> ber_at ber' (p + length c) = 0)
           \<and> ber_rd ber' \<and> ber_view ber' = rest"
proof -
  obtain bv b where s: "ber_skip_element ber = (t, bv, b)" "bv_ok ber bv c" "ber_rd b" "ber_view b = rest"
    and b: "b = ber\<lparr>ber_ptr := bv_val bv + length c, ber_tag := ber_tag b\<rparr>"
    using skip_ahead [OF a] by blast
  have t: "t \<noteq> LBER_DEFAULT" using a by (simp add: element_ahead_def valid_tag_def)
  have u: "unat (bv_len bv) = length c" using s(2) by (simp add: bv_ok_def)
  have pos: "0 < ber_ptr b" by (subst b) (use s(2) in \<open>simp add: bv_ok_def\<close>)
  have l: "bv_len bv = of_nat (length c)" using u by (metis of_nat_unat ucast_id)
  let ?z = "b\<lparr>ber_buf := (ber_buf b)[bv_val bv + length c := 0]\<rparr>"
  have "ber_ptr b = bv_val bv + length c" by (subst b) simp
  moreover have "ber_buf b = ber_buf ber" by (subst b) simp
  ultimately have v: "ber_view ?z = rest" using view_terminate [OF pos] s(4) by simp
  have rd: "ber_rd ?z" using s(3) by (simp add: ber_rd_def)
  have "ber_octets ?z bv = ber_octets ber bv"
    unfolding ber_octets_def u using \<open>ber_buf b = ber_buf ber\<close> by (intro map_cong) (auto simp: ber_at_def)
  then have "ber_octets ?z \<lparr>bv_val = bv_val bv, bv_len = of_nat (length c)\<rparr> = c"
    using s(2) l by (metis bv_ok_def berval.surjective old.unit.exhaust)
  moreover have "ber_get_stringbv ma ber 0 = (t, SInPlace (bv_val bv), of_nat (length c), ?z)"
    using t u l by (simp add: ber_get_stringbv_def s(1) finish_string_def)
  ultimately show ?thesis
    using v rd \<open>ber_buf b = ber_buf ber\<close> by (intro exI [of _ "bv_val bv"] exI [of _ ?z]) (simp add: ber_at_def)
qed

theorem ber_get_stringbv_in_place_witness:
  "\<exists>p ber'. ber_get_stringbv (\<lambda>_. False) (ber_init2 (Some (tlv 4 [65, 66] @ tlv 2 [7])) 0) 0
       = (4, SInPlace p, 2, ber') \<and> ber_view ber' = tlv 2 [7]"
proof -
  let ?b = "ber_init2 (Some (tlv 4 [65, 66] @ tlv 2 [7])) 0"
  have "ber_rd ?b \<and> ber_view ?b = tlv 4 [65, 66] @ tlv 2 [7]"
    by (rule init2_view) (simp add: tlv_def be_bytes_small len_octets_def)
  then have "element_ahead ?b 4 [65, 66] (tlv 2 [7])" by (intro tlv_ahead) simp_all
  from ber_get_stringbv_in_place [OF this, of "\<lambda>_. False"] show ?thesis by auto
qed

text \<open>
  C7: the loop of \<^verbatim>\<open>ber_first_element\<close> and \<^verbatim>\<open>ber_next_element\<close> over a sequence visits exactly its
  elements, in order, then stops with what follows the sequence still ahead; on an empty
  sequence \<^verbatim>\<open>ber_first_element\<close> stops at once.
\<close>

theorem sequence_walk_visits_elements:
  assumes a: "element_ahead ber t (tlvs es) rest" and es: "list_all (valid_tag \<circ> fst) es"
    and k: "length es < k"
  shows "\<exists>tag len lst ber1 ber2. ber_first_element ber = (tag, len, Some lst, ber1)
           \<and> tag = (if es = [] then LBER_DEFAULT else fst (hd es))
           \<and> walk_elements k ber1 len lst = (es, ber2) \<and> ber_rd ber2 \<and> ber_view ber2 = rest"
proof -
  obtain b1 where f: "ber_first_element ber
            = (case es of [] \<Rightarrow> (LBER_DEFAULT, 0, Some (ber_end ber - length rest), b1)
               | (t1, c1) # _ \<Rightarrow> (t1, of_nat (length c1), Some (ber_end ber - length rest), b1))"
    and b1: "ber_rd b1" "ber_view b1 = tlvs es @ rest" "ber_end b1 = ber_end ber"
    using first_element_run [OF a es] by blast
  show ?thesis
    using f walk_elements_run [OF b1(1,2) es _ k] b1(3) by (cases es) auto
qed

theorem sequence_walk_visits_elements_witness:
  "\<exists>tag len lst ber1 ber2. ber_first_element (ber_init2 (Some (tlv 48 (tlvs [(2, [5]), (4, [65])]) @ [1])) 0)
       = (tag, len, Some lst, ber1)
     \<and> tag = 2 \<and> walk_elements 3 ber1 len lst = ([(2, [5]), (4, [65])], ber2) \<and> ber_view ber2 = [1]"
proof -
  let ?b = "ber_init2 (Some (tlv 48 (tlvs [(2, [5]), (4, [65])]) @ [1])) 0"
  have "ber_rd ?b \<and> ber_view ?b = tlv 48 (tlvs [(2, [5]), (4, [65])]) @ [1]"
    by (rule init2_view) (simp add: tlv_def be_bytes_small len_octets_def)
  then have "element_ahead ?b 48 (tlvs [(2, [5]), (4, [65])]) [1]" by (intro tlv_ahead) simp_all
  from sequence_walk_visits_elements [OF this, of 3] show ?thesis by auto
qed

text \<open>
  C8: a sequence of strings is read back in one call of \<^verbatim>\<open>ber_get_stringbvl\<close> (the conversions \<^verbatim>\<open>v\<close>,
  \<^verbatim>\<open>V\<close> and \<^verbatim>\<open>W\<close> of \<^verbatim>\<open>ber_scanf\<close>, whose entries have 8 or 16 octets): the counting pass and the
  copying pass agree, every string is copied, the count is left in the cookie, and the rest of the
  message is ahead.  The sequence has fewer than \<open>2 ^ 31\<close> strings, so that the \<^verbatim>\<open>int\<close> counter holds
  their number.
\<close>

theorem ber_get_stringbvl_collects:
  assumes "element_ahead ber t (tlvs es) rest" and "list_all (valid_tag \<circ> fst) es" and "es \<noteq> []"
    and "\<forall>n. ma n" and "opt AND LBER_BV_ALLOC \<noteq> 0"
    and "opt AND LBER_BV_STRING = 0 \<or> (\<forall>(t, c) \<in> set es. 0 \<notin> set c)"
    and "length es < 2 ^ 31" and "(ch, siz) \<in> {(ChArray, 8), (BvVec, 8), (BvArray, 16)}"
  shows "\<exists>ber'. ber_get_stringbvl ma ch opt siz ber
            = (fst (last es), Some (map (\<lambda>(t, c). (SCopy c, of_nat (length c))) es), of_nat (length es), ber')
         \<and> ber_rd ber' \<and> ber_view ber' = rest"
  using assms by (intro get_stringbvl_run) auto

theorem ber_get_stringbvl_collects_witness:
  "\<exists>ber'. ber_get_stringbvl (\<lambda>_. True) BvVec LBER_BV_ALLOC 8
       (ber_init2 (Some (tlv 48 (tlvs [(4, [65]), (4, [])]) @ [9])) 0)
     = (4, Some [(SCopy [65], 1), (SCopy [], 0)], 2, ber') \<and> ber_view ber' = [9]"
proof -
  let ?b = "ber_init2 (Some (tlv 48 (tlvs [(4, [65]), (4, [])]) @ [9])) 0"
  have "ber_rd ?b \<and> ber_view ?b = tlv 48 (tlvs [(4, [65]), (4, [])]) @ [9]"
    by (rule init2_view) (simp add: tlv_def be_bytes_small len_octets_def)
  then have "element_ahead ?b 48 (tlvs [(4, [65]), (4, [])]) [9]" by (intro tlv_ahead) simp_all
  from ber_get_stringbvl_collects [OF this, of "\<lambda>_. True" LBER_BV_ALLOC BvVec 8] show ?thesis by auto
qed

text \<open>
  C9: \<^verbatim>\<open>ber_get_bitstringa\<close> gives back the data octets and the number of bits of a bit string,
  except that a bit string with an octet 0 in its data is refused, and so is the empty bit string
  (\<^verbatim>\<open>ber_memalloc_x\<close> gives NULL for 0 octets), although \<^verbatim>\<open>ber_put_bitstring\<close> writes such bit
  strings.
\<close>

theorem ber_get_bitstringa_result:
  assumes "element_ahead ber t (u # data) rest" and "u \<le> 7" and "\<forall>n. ma n" and "8 * length data < 2 ^ 64"
  shows "\<exists>ber'. ber_get_bitstringa ma ber
            = (if 0 \<in> set data \<or> data = [] then (LBER_DEFAULT, None, None, ber')
               else (t, Some data, Some (of_nat (length data) * 8 - ucast u), ber'))
         \<and> ber_rd ber' \<and> ber_view ber' = rest"
  using assms by (rule get_bitstringa_run)

theorem ber_get_bitstringa_result_witness:
  "\<exists>ber'. ber_get_bitstringa (\<lambda>_. True) (ber_init2 (Some (tlv 3 [4, 0x80, 0xf0])) 0) = (3, Some [0x80, 0xf0], Some 12, ber')"
proof -
  let ?b = "ber_init2 (Some (tlv 3 [4, 0x80, 0xf0])) 0"
  have "ber_rd ?b \<and> ber_view ?b = tlv 3 [4, 0x80, 0xf0] @ []"
    using init2_view [of "tlv 3 [4, 0x80, 0xf0]" 0] by (simp add: tlv_def be_bytes_small len_octets_def)
  then have "element_ahead ?b 3 [4, 0x80, 0xf0] []" by (intro tlv_ahead) simp_all
  from ber_get_bitstringa_result [OF this, of "\<lambda>_. True"] show ?thesis by auto
qed

end
