(* ===== verification/Ber_Output.thy ===== *)
theory Ber_Output
  imports Ber_Sequences
begin

text \<open>
  Properties of the output side: writing is all or nothing, integers take the fewest
  octets, lists of values survive a round trip, and the limits of \<^verbatim>\<open>ber_flatten2\<close> and of the
  bit string decoder.
\<close>

section \<open>Lemmas\<close>

lemma length_put_int_octets_pos: "length ptr < length (put_int_octets s u ptr)"
proof (induction s u ptr rule: put_int_octets.induct)
  case (1 s u ptr)
  then show ?case
    by (cases "u < 0x80") (auto simp: put_int_octets.simps [of s u ptr] Let_def simp del: not_less dest: Suc_lessD)
qed

lemma put_int_octets_length_iff:
  "0 < k \<Longrightarrow> length (put_int_octets s u ptr) \<le> length ptr + k \<longleftrightarrow> unat u < 128 * 256 ^ (k - 1)"
proof (induction k arbitrary: u ptr)
  case IH: (Suc k)
  show ?case
  proof (cases "u < 0x80")
    case True
    then have u: "unat u < 128" by (simp add: word_less_nat_alt)
    have "(128::nat) \<le> 128 * 256 ^ k" by simp
    then have "unat u < 128 * 256 ^ k" using u by linarith
    then show ?thesis using True by (simp add: put_int_octets.simps [of s u ptr])
  next
    case False
    then have u: "128 \<le> unat u" by (simp add: word_less_nat_alt)
    have step: "put_int_octets s u ptr = put_int_octets s (drop_bit 8 u) ((s XOR ucast u) # ptr)"
      using False by (simp only: put_int_octets.simps [of s u ptr] Let_def if_False)
    show ?thesis
    proof (cases k)
      case 0
      have "Suc (length ptr) < length (put_int_octets s u ptr)"
        unfolding step using length_put_int_octets_pos [of "(s XOR ucast u) # ptr"] by simp
      then show ?thesis using 0 u by simp
    next
      case (Suc j)
      have "length (put_int_octets s u ptr) \<le> length ptr + Suc k
              \<longleftrightarrow> unat (drop_bit 8 u) < 128 * 256 ^ (k - 1)"
        using IH.IH [of "drop_bit 8 u" "(s XOR ucast u) # ptr"] Suc by (simp add: step)
      also have "\<dots> \<longleftrightarrow> unat u < 128 * 256 ^ k"
        unfolding unat_drop_bit8 Suc by (simp add: div_less_iff_less_mult mult.assoc mult.commute)
      finally show ?thesis by simp
    qed
  qed
qed simp

text \<open>The signed value of a word in terms of the magnitude the encoder works on.\<close>

lemma sint_nonnegative:
  assumes "\<not> (w :: 32 word) <s 0"
  shows "sint w = int (unat w)"
proof -
  have b: "\<not> bit w 31" using assms by (simp add: sless_0_iff_bit)
  have "int (unat w) < int (2 ^ 31)" using unat_nonnegative [OF assms] by (simp only: of_nat_less_iff)
  then have "take_bit 31 (uint w) = uint w" by (intro take_bit_int_eq_self) simp_all
  then show ?thesis using b by (simp add: sint_uint signed_take_bit_eq_if_positive bit_uint_iff)
qed

lemma sint_negative:
  assumes "(w :: 32 word) <s 0"
  shows "sint w = - 1 - int (unat (NOT w))"
proof -
  have "\<not> NOT w <s 0" using assms by (simp add: sless_0_iff_bit bit_not_iff)
  then have "sint (NOT w) = int (unat (NOT w))" by (rule sint_nonnegative)
  moreover have "sint (NOT w) = NOT (sint w)"
  proof -
    have "- (2 ^ 31) \<le> sint w" "sint w < 2 ^ 31" using sint_greater_eq [of w] sint_less [of w] by simp_all
    then show ?thesis by (simp add: signed_not_eq not_int_def signed_take_bit_int_eq_self)
  qed
  ultimately show ?thesis by (simp add: not_int_def)
qed

lemma int_content_length_iff:
  assumes "0 < k"
  shows "length (int_content n) \<le> k \<longleftrightarrow> - (2 ^ (8 * k - 1)) \<le> sint n \<and> sint n < 2 ^ (8 * k - 1)"
proof -
  obtain j where k: "k = Suc j" using assms by (cases k) auto
  have p: "(128::nat) * 256 ^ (k - 1) = 2 ^ (8 * k - 1)"
    by (simp add: k power_add power_mult)
  have conv: "unat u < 128 * 256 ^ (k - 1) \<longleftrightarrow> int (unat u) < 2 ^ (8 * k - 1)" for u :: "32 word"
    unfolding p by (metis of_nat_less_iff of_nat_numeral of_nat_power)
  have pos: "(0::int) < 2 ^ (8 * k - 1)" by simp
  show ?thesis
  proof (cases "n <s 0")
    case True
    have l: "length (int_content n) \<le> k \<longleftrightarrow> int (unat (NOT n)) < 2 ^ (8 * k - 1)"
      using True put_int_octets_length_iff [OF assms, where s = "0xff" and u = "NOT n" and ptr = "[]"] conv by (simp add: int_content_def)
    show ?thesis unfolding l sint_negative [OF True] using pos by linarith
  next
    case False
    have l: "length (int_content n) \<le> k \<longleftrightarrow> int (unat n) < 2 ^ (8 * k - 1)"
      using False put_int_octets_length_iff [OF assms, where s = 0 and u = n and ptr = "[]"] conv by (simp add: int_content_def)
    show ?thesis unfolding l sint_nonnegative [OF False] using pos by linarith
  qed
qed

section \<open>Properties\<close>

text \<open>
  C10: \<^verbatim>\<open>ber_write\<close> is all or nothing: it fails and leaves the element exactly as it was, which
  only happens when memory is refused or the element would approach 2 GB, or it appends exactly
  the given octets at the write cursor, returns their number and keeps the element well-formed.
\<close>

theorem ber_write_all_or_nothing:
  assumes "ber_wf ber" and "length bs < 2 ^ 64"
  shows "(ber_write ma ber bs 0 = (-1, ber) \<and> \<not> affordable ma ber (length bs + 4061))
       \<or> (\<exists>ber'. ber_write ma ber bs 0 = (int (length bs), ber') \<and> ber_wf ber'
            \<and> ber_written ber' = ber_written ber @ bs \<and> same_frame ber' ber)"
  using ber_write_cases [OF assms, of ma] by blast

theorem ber_write_all_or_nothing_witness:
  "(ber_write (\<lambda>_. False) (ber_alloc_t 0) [1, 2] 0 = (-1, ber_alloc_t 0) \<and> \<not> affordable (\<lambda>_. False) (ber_alloc_t 0) 4063)
   \<or> (\<exists>ber'. ber_write (\<lambda>_. False) (ber_alloc_t 0) [1, 2] 0 = (2, ber') \<and> ber_written ber' = [1, 2])"
  using ber_write_all_or_nothing [of "ber_alloc_t 0" "[1, 2]" "\<lambda>_. False"] by auto

text \<open>
  C11: the contents octets that \<^verbatim>\<open>ber_put_int\<close> writes for a 32-bit integer are the shortest
  two's complement form: they take at most \<open>k\<close> octets exactly when the value fits \<open>8 * k\<close> bits;
  and \<^verbatim>\<open>ber_get_int\<close> recovers the value from them.
\<close>

theorem int_content_shortest:
  assumes "0 < k"
  shows "(length (int_content n) \<le> k \<longleftrightarrow> - (2 ^ (8 * k - 1)) \<le> sint n \<and> sint n < 2 ^ (8 * k - 1))
       \<and> int_of_octets (int_content n) = n"
  using int_content_length_iff [OF assms] by simp

theorem int_content_shortest_witness:
  "(length (int_content (- 129)) \<le> 1 \<longleftrightarrow> - 128 \<le> sint (- 129 :: 32 word) \<and> sint (- 129 :: 32 word) < 128)
   \<and> int_of_octets (int_content (- 129)) = - 129"
  using int_content_shortest [of 1 "- 129"] by simp

text \<open>
  A run of tagged octet strings, one after the other, is read back by as many
  \<^verbatim>\<open>ber_get_stringbv\<close> calls, each giving the tag and a copy of the octets.
\<close>

theorem octet_strings_round_trip:
  assumes "list_all (\<lambda>(t, c). valid_tag t) xs" and "ber_rd ber"
    and "ber_view ber = concat (map (\<lambda>(t, c). tlv t c) xs) @ rest"
  shows "\<exists>ber'. get_list get_tagged_octets (length xs) ber = (Some xs, ber') \<and> ber_rd ber' \<and> ber_view ber' = rest"
  using octets_codec.get_list_enc [OF assms] by simp

theorem octet_strings_round_trip_witness:
  "\<exists>ber'. get_list get_tagged_octets 2 (ber_init2 (Some (tlv 4 [1, 2] @ tlv 0x81 [] @ [7])) 0)
       = (Some [(4, [1, 2]), (0x81, [])], ber') \<and> ber_view ber' = [7]"
proof -
  let ?b = "ber_init2 (Some (tlv 4 [1, 2] @ tlv 0x81 [] @ [7])) 0"
  have "ber_rd ?b \<and> ber_view ?b = tlv 4 [1, 2] @ tlv 0x81 [] @ [7]"
    by (rule init2_view) (simp add: tlv_def be_bytes_small len_octets_def)
  moreover have "valid_tag 0x81" by (simp add: valid_tag_def be_bytes_small tag_octets_def)
  ultimately show ?thesis
    using octet_strings_round_trip [of "[(4, [1, 2]), (0x81, [])]" ?b "[7]"] by (auto simp: numeral_2_eq_2)
qed

text \<open>
  Encodings of tagged integers are prefix-free: two messages that start with an encoded
  integer and agree as octets agree in tag, value and in what follows.
\<close>

theorem int_encodings_prefix_free:
  assumes "valid_tag t" and "valid_tag t'"
    and "tlv t (int_content n) @ r = tlv t' (int_content n') @ r'" and "length (tlv t (int_content n) @ r) < 2 ^ 63"
  shows "t = t' \<and> n = n' \<and> r = r'"
  using int_codec.prefix_free [of "(t, n)" "(t', n')" r r'] assms by simp

theorem int_encodings_prefix_free_witness:
  "(2 :: ber_tag_t) = 2 \<and> (5 :: ber_int_t) = 5 \<and> [1 :: byte] = [1]"
  using int_encodings_prefix_free [of 2 2 5 "[1]" 5 "[1]"] length_int_content [of 5]
  by (simp add: tlv_def be_bytes_small len_octets_def)

text \<open>
  C14: \<^verbatim>\<open>ber_flatten2\<close> without \<open>alloc\<close> stores its \<^verbatim>\<open>'\0'\<close> behind the element's buffer when the
  octets written fill the buffer: one octet, which makes the buffer 4060 octets long, and then
  4059 more.
\<close>

lemma first_write_4060:
  "ber_write (\<lambda>_. True) (ber_alloc_t opt) [b] 0
     = (1, (ber_alloc_t opt)\<lparr>ber_buf := memcpy (resize 4060 []) 0 [b], ber_end := 4060, ber_ptr := 1\<rparr>)"
  by (simp add: ber_write_def ber_ensure_def ber_realloc_def ber_alloc_t_def ber_wcur_def ber_pvt_ber_total_def
      ber_set_wcur_def Let_def)

theorem ber_flatten2_overrun:
  assumes "length bs = 4059"
  shows "\<exists>ber1 ber2. ber_write (\<lambda>_. True) (ber_alloc_t opt) [b] 0 = (1, ber1)
           \<and> ber_write (\<lambda>_. True) ber1 bs 0 = (4059, ber2)
           \<and> ber_flatten2 (\<lambda>_. True) (Some ber2) False = Inl (Overrun 4060)"
proof -
  define buf where "buf = memcpy (resize 4060 []) 0 [b]"
  define ber1 where "ber1 = (ber_alloc_t opt)\<lparr>ber_buf := buf, ber_end := 4060, ber_ptr := 1\<rparr>"
  have lb: "length buf = 4060" by (simp add: buf_def)
  have w: "ber_write (\<lambda>_. True) ber1 bs 0 = (4059, ber1\<lparr>ber_buf := memcpy buf 1 bs, ber_ptr := 4060\<rparr>)"
    using assms by (simp add: ber_write_def ber_ensure_def ber_wcur_def ber_set_wcur_def ber1_def ber_alloc_t_def Let_def)
  have l2: "length (memcpy buf 1 bs) = 4060" using lb assms by simp
  then have "memcpy buf 1 bs \<noteq> []" by auto
  then have "ber_flatten2 (\<lambda>_. True) (Some (ber1\<lparr>ber_buf := memcpy buf 1 bs, ber_ptr := 4060\<rparr>)) False = Inl (Overrun 4060)"
    using l2 by (simp add: ber_flatten2_def ber_pvt_ber_write_def ber1_def ber_alloc_t_def)
  then show ?thesis using w first_write_4060 [of opt b] by (auto simp: ber1_def buf_def)
qed

theorem ber_flatten2_overrun_witness:
  "\<exists>ber1 ber2. ber_write (\<lambda>_. True) (ber_alloc_t 0) [1] 0 = (1, ber1)
           \<and> ber_write (\<lambda>_. True) ber1 (replicate 4059 0) 0 = (4059, ber2)
           \<and> ber_flatten2 (\<lambda>_. True) (Some ber2) False = Inl (Overrun 4060)"
  using ber_flatten2_overrun [of "replicate 4059 0" 0 1] by simp

text \<open>
  C15: an element with at least one free octet behind its data is flattened correctly in both
  modes: the berval holds exactly the octets written, and a later \<^verbatim>\<open>ber_reset\<close> reads them again.
\<close>

theorem ber_flatten2_gives_written:
  assumes "ber_wf ber" and "ber_sos_ptr ber = None" and "ber_ptr ber < ber_end ber" and "\<forall>n. ma n"
  shows "\<exists>ber'. ber_flatten2 ma (Some ber) alloc = Inr (0, ber_written ber, Some ber')
           \<and> ber_wf ber' \<and> ber_view (ber_reset ber' True) = ber_written ber"
proof -
  have l: "length (ber_buf ber) = ber_end ber" and w: "ber_written ber = take (ber_ptr ber) (ber_buf ber)"
    using assms(1,2) by (simp_all add: ber_wf_def ber_written_def ber_wcur_def)
  let ?b = "if alloc then ber else ber\<lparr>ber_buf := (ber_buf ber)[ber_ptr ber := 0]\<rparr>"
  have wf: "ber_wf ?b" "ber_sos_ptr ?b = None" "take (ber_ptr ?b) (ber_buf ?b) = ber_written ber"
    using assms(1,2) w by (auto simp: ber_wf_def ber_wcur_def)
  have "ber_buf ber \<noteq> []" using l assms(3) by auto
  then have "ber_flatten2 ma (Some ber) alloc = Inr (0, ber_written ber, Some ?b)"
    using assms(2-4) l w by (simp add: ber_flatten2_def ber_pvt_ber_write_def Let_def)
  then show ?thesis using reset_view [OF wf(1,2)] wf by (intro exI [of _ ?b]) auto
qed

theorem ber_flatten2_gives_written_witness:
  "\<exists>ber' ber''. ber_write (\<lambda>_. True) (ber_alloc_t 0) [7] 0 = (1, ber')
     \<and> ber_flatten2 (\<lambda>_. True) (Some ber') False = Inr (0, [7], Some ber'')"
proof -
  let ?b = "(ber_alloc_t 0)\<lparr>ber_buf := memcpy (resize 4060 []) 0 [7], ber_end := 4060, ber_ptr := 1\<rparr>"
  have "ber_wf ?b" "ber_sos_ptr ?b = None" "ber_ptr ?b < ber_end ?b"
    by (simp_all add: ber_wf_def ber_wcur_def ber_alloc_t_def)
  moreover have "ber_written ?b = [7]"
    by (simp add: ber_written_def ber_wcur_def ber_alloc_t_def memcpy_def)
  ultimately show ?thesis
    using ber_flatten2_gives_written [of ?b "\<lambda>_. True" False] first_write_4060 [of 0 7] by auto
qed

end
