(* ===== verification/Ber_Oid.thy ===== *)
theory Ber_Oid
  imports Ldap_Prelude
begin

text \<open>
  Object identifiers: \<^verbatim>\<open>ber_encode_oid\<close> of \<^verbatim>\<open>liblber/encode.c\<close> and \<^verbatim>\<open>ber_decode_oid\<close> of
  \<^verbatim>\<open>liblber/decode.c\<close>, with what they use of the C library (\<^verbatim>\<open>isdigit\<close>, \<^verbatim>\<open>strtoul\<close>, \<^verbatim>\<open>sprintf\<close>).
  An \<^verbatim>\<open>unsigned long\<close> has 64 bits.
\<close>

section \<open>Decimal numbers\<close>

definition c_isdigit :: "byte \<Rightarrow> bool" where
  "c_isdigit c \<longleftrightarrow> 0x30 \<le> c \<and> c \<le> 0x39"

text \<open>\<^verbatim>\<open>strtoul\<close> on a text that starts with a digit: the value, ULONG_MAX on overflow, and the digits.\<close>

definition dec_val :: "byte list \<Rightarrow> nat" where
  "dec_val ds = foldl (\<lambda>n d. n * 10 + unat (d - 0x30)) 0 ds"

definition c_strtoul :: "byte list \<Rightarrow> nat \<times> byte list" where
  "c_strtoul s =
     (let ds = takeWhile c_isdigit s in (min (dec_val ds) (2 ^ 64 - 1), dropWhile c_isdigit s))"

text \<open>\<^verbatim>\<open>sprintf\<close> with \<^verbatim>\<open>%lu\<close> or \<^verbatim>\<open>%u\<close>.\<close>

fun c_decimal :: "nat \<Rightarrow> byte list" where
  "c_decimal n = (if n < 10 then [0x30 + of_nat n] else c_decimal (n div 10) @ [0x30 + of_nat (n mod 10)])"

declare c_decimal.simps [simp del]

section \<open>Encoding\<close>

definition LBER_OID_COMPONENT_MAX :: nat where
  "LBER_OID_COMPONENT_MAX = 2 ^ 64 - 1 - 128"

text \<open>The octets of a component, least significant first, each with its high bit set.\<close>

fun oid_le_octets :: "nat \<Rightarrow> byte list" where
  "oid_le_octets val =
     (of_nat (val mod 256) OR 0x80) # (if val div 128 \<noteq> 0 then oid_le_octets (val div 128) else [])"

declare oid_le_octets.simps [simp del]

text \<open>The component as it is stored: the first octet loses its high bit, then the octets are reversed.\<close>

definition oid_component :: "nat \<Rightarrow> byte list" where
  "oid_component val = (case oid_le_octets val of [] \<Rightarrow> [] | b # bs \<Rightarrow> rev ((b AND 0x7f) # bs))"

text \<open>
  The loop over the components.  \<open>ptr\<close> is the text from the pointer on and \<open>left\<close> the number of octets
  up to \<^verbatim>\<open>inend\<close>, negative where the pointer is behind it; \<open>None\<close> is the return value -1.
\<close>

function encode_oid_loop :: "byte list \<Rightarrow> int \<Rightarrow> nat \<Rightarrow> byte list \<Rightarrow> byte list option" where
  "encode_oid_loop ptr left val der =
     (if left < 0 then None
      else let der = der @ oid_component val
           in if left = 0 then Some der
              else if octet_at ptr 0 \<noteq> 0x2e then None
              else if \<not> c_isdigit (octet_at ptr 1) then None
              else let (val, endp) = c_strtoul (drop 1 ptr)
                   in if val > LBER_OID_COMPONENT_MAX then None
                      else encode_oid_loop endp (left - (int (length ptr) - int (length endp))) val der)"
  by pat_completeness auto
termination
proof (relation "measure (\<lambda>(ptr, left, val, der). length ptr)")
  fix ptr :: "byte list" and left :: int and val and der x y val' endp
  assume "\<not> octet_at ptr 0 \<noteq> 0x2e" "x = c_strtoul (drop 1 ptr)" "(val', endp) = x"
  then have "ptr \<noteq> []" "length endp \<le> length ptr - 1"
    using length_dropWhile_le [of c_isdigit "drop 1 ptr"] by (auto simp: octet_at_def c_strtoul_def Let_def)
  then show "((endp, left - (int (length ptr) - int (length endp)), val', y), ptr, left, val, der)
      \<in> measure (\<lambda>(ptr, left, val, der). length ptr)" by (cases ptr) auto
qed auto

declare encode_oid_loop.simps [simp del]

text \<open>
  \<open>inp\<close> is the memory at \<^verbatim>\<open>in->bv_val\<close>, \<open>in_len\<close> its \<^verbatim>\<open>bv_len\<close>, \<open>out_len\<close> the room in the output (\<open>None\<close>: no
  buffer).  The result is the octets written.
\<close>

definition ber_encode_oid :: "byte list \<Rightarrow> nat \<Rightarrow> nat option \<Rightarrow> byte list option" where
  "ber_encode_oid inp in_len out_len =
     (case out_len of
        None \<Rightarrow> None
      | Some n \<Rightarrow>
          if n < in_len div 2 then None
          else if \<not> c_isdigit (octet_at inp 0) then None
          else let (val1, endp) = c_strtoul inp
               in if val1 > 2 then None
                  else if octet_at endp 0 \<noteq> 0x2e \<or> \<not> c_isdigit (octet_at endp 1) then None
                  else let (val, ptr) = c_strtoul (drop 1 endp)
                       in if val > (if val1 < 2 then 39 else LBER_OID_COMPONENT_MAX - 80) then None
                          else encode_oid_loop ptr (int in_len - (int (length inp) - int (length ptr))) (val + val1 * 40) [])"

section \<open>Decoding\<close>

text \<open>The loop: \<open>out\<close> is the text printed so far, \<open>None\<close> while \<^verbatim>\<open>ptr\<close> is NULL.\<close>

fun decode_oid_loop :: "byte list \<Rightarrow> byte list option \<Rightarrow> 64 word \<Rightarrow> (byte list option \<times> 64 word) option" where
  "decode_oid_loop [] out val = Some (out, val)"
| "decode_oid_loop (d # der) out val =
     (let val = val OR ucast (d AND 0x7f)
      in if d AND 0x80 = 0 then
           (let (txt, val) =
              (case out of
                 None \<Rightarrow> let val1 = (if val < 80 then val div 40 else 2) in (c_decimal (unat val1), val - val1 * 40)
               | Some txt \<Rightarrow> (txt, val))
            in decode_oid_loop der (Some (txt @ 0x2e # c_decimal (unat val))) 0)
         else if val - 1 < of_nat (LBER_OID_COMPONENT_MAX div 128) then decode_oid_loop der out (push_bit 7 val)
         else None)"

definition ber_decode_oid :: "byte list \<Rightarrow> nat option \<Rightarrow> byte list option" where
  "ber_decode_oid inp out_len =
     (case out_len of
        None \<Rightarrow> None
      | Some n \<Rightarrow>
          if (n + 3) div 4 \<le> length inp then None
          else case decode_oid_loop inp None 0 of
                 None \<Rightarrow> None
               | Some (out, val) \<Rightarrow> if val \<noteq> 0 then None else out)"


section \<open>Decimal text\<close>

lemma digit_octet: "n < 10 \<Longrightarrow> c_isdigit (0x30 + of_nat n) \<and> unat (0x30 + of_nat n - (0x30 :: byte)) = n"
proof -
  assume "n < 10"
  then have "n \<in> {0, 1, 2, 3, 4, 5, 6, 7, 8, 9}" by auto
  then show ?thesis by (auto simp: c_isdigit_def)
qed

lemma c_decimal_small: "n < 10 \<Longrightarrow> c_decimal n = [0x30 + of_nat n]"
  and c_decimal_big: "10 \<le> n \<Longrightarrow> c_decimal n = c_decimal (n div 10) @ [0x30 + of_nat (n mod 10)]"
  by (subst c_decimal.simps; simp)+

lemma c_decimal_digits: "\<forall>d\<in>set (c_decimal n). c_isdigit d"
proof (induction n rule: c_decimal.induct)
  case (1 n)
  then show ?case using digit_octet [of n] digit_octet [of "n mod 10"]
    by (cases "n < 10") (auto simp: c_decimal_small c_decimal_big)
qed

lemma dec_val_decimal: "dec_val (c_decimal n) = n"
proof (induction n rule: c_decimal.induct)
  case (1 n)
  then show ?case using digit_octet [of n] digit_octet [of "n mod 10"]
    by (cases "n < 10") (auto simp: c_decimal_small c_decimal_big dec_val_def)
qed

lemma c_decimal_nonempty: "c_decimal n \<noteq> []"
  by (subst c_decimal.simps) simp

lemma length_decimal: "length (c_decimal n) = (if n < 10 then 1 else Suc (length (c_decimal (n div 10))))"
  by (subst c_decimal.simps) simp

lemma length_decimal_mono: "m \<le> n \<Longrightarrow> length (c_decimal m) \<le> length (c_decimal n)"
proof (induction n arbitrary: m rule: c_decimal.induct)
  case (1 n)
  show ?case
  proof (cases "m < 10")
    case True
    then show ?thesis using c_decimal_nonempty [of n] by (simp add: length_decimal [of m] Suc_leI)
  next
    case False
    then have "length (c_decimal (m div 10)) \<le> length (c_decimal (n div 10))" using 1 by (intro "1.IH") (auto simp: div_le_mono)
    then show ?thesis using False 1(2) by (simp add: length_decimal [of m] length_decimal [of n])
  qed
qed

text \<open>What may follow a number in the text.\<close>

definition no_digit :: "byte list \<Rightarrow> bool" where
  "no_digit s \<longleftrightarrow> (s = [] \<or> \<not> c_isdigit (hd s))"

lemma strtoul_decimal:
  assumes "n < 2 ^ 64" and "no_digit rest"
  shows "c_strtoul (c_decimal n @ rest) = (n, rest)"
proof -
  have t: "takeWhile c_isdigit rest = []" "dropWhile c_isdigit rest = rest"
    using assms(2) by (cases rest; simp add: no_digit_def)+
  have "takeWhile c_isdigit (c_decimal n @ rest) = c_decimal n" "dropWhile c_isdigit (c_decimal n @ rest) = rest"
    using t c_decimal_digits by (simp_all add: takeWhile_append2 dropWhile_append2)
  then show ?thesis using assms(1) by (simp add: c_strtoul_def dec_val_decimal)
qed

section \<open>Components\<close>

text \<open>The octets before the last one of a component.\<close>

fun oid_high :: "nat \<Rightarrow> byte list" where
  "oid_high w = (if w = 0 then [] else oid_high (w div 128) @ [of_nat (w mod 128) OR 0x80])"

declare oid_high.simps [simp del]

lemma oid_high_0 [simp]: "oid_high 0 = []"
  by (subst oid_high.simps) simp

lemma and_low7: "(of_nat v :: byte) AND 0x7f = of_nat (v mod 128)"
proof -
  have "(of_nat v :: byte) AND 0x7f = take_bit 7 (of_nat v)" by (simp add: take_bit_eq_mask mask_eq_exp_minus_1)
  also have "\<dots> = of_nat (take_bit 7 v)" by (rule take_bit_of_nat)
  finally show ?thesis by (simp add: take_bit_eq_mod)
qed

lemma or_high_bit: "((b :: byte) AND 0x7f) OR 0x80 = b OR 0x80"
proof -
  have "(b AND 0x7f) OR 0x80 = (b OR 0x80) AND (0x7f OR 0x80)" by (rule bit.disj_conj_distrib2)
  moreover have "(0x7f OR 0x80 :: byte) = - 1" by simp
  ultimately show ?thesis by (simp only: and_minus_numerals bit.conj_one_right)
qed

lemma high_octet: "(of_nat (v mod 256) OR 0x80 :: byte) = of_nat (v mod 128) OR 0x80"
proof -
  have "(of_nat (v mod 256) :: byte) AND 0x7f = of_nat (v mod 256 mod 128)" by (rule and_low7)
  moreover have "v mod 256 mod 128 = v mod (128 :: nat)" by (rule mod_mod_cancel) simp
  ultimately show ?thesis using or_high_bit [of "of_nat (v mod 256)"] by (simp only:)
qed

lemma low_octet: "(of_nat (v mod 256) OR 0x80 :: byte) AND 0x7f = of_nat (v mod 128)"
proof -
  have "((of_nat (v mod 128) :: byte) OR 0x80) AND 0x7f
      = (of_nat (v mod 128) AND 0x7f) OR (0x80 AND 0x7f)" by (rule bit.conj_disj_distrib2)
  moreover have "(of_nat (v mod 128) :: byte) AND 0x7f = of_nat (v mod 128 mod 128)" by (rule and_low7)
  moreover have "(0x80 AND 0x7f :: byte) = 0" by simp
  ultimately show ?thesis unfolding high_octet by (simp only: mod_mod_trivial or.right_neutral)
qed

lemma oid_le_high: "w \<noteq> 0 \<Longrightarrow> rev (oid_le_octets w) = oid_high w"
proof (induction w rule: oid_le_octets.induct)
  case (1 w)
  have s: "rev (oid_le_octets w) = (if w div 128 \<noteq> 0 then rev (oid_le_octets (w div 128)) else [])
      @ [of_nat (w mod 128) OR 0x80]"
    by (subst oid_le_octets.simps) (simp only: high_octet rev.simps if_distrib [of rev])
  have t: "oid_high w = oid_high (w div 128) @ [of_nat (w mod 128) OR 0x80]"
    using 1(2) by (subst oid_high.simps) simp
  show ?case
  proof (cases "w div 128 = 0")
    case True
    then show ?thesis unfolding s t by simp
  next
    case False
    then show ?thesis unfolding s t using 1(1) by simp
  qed
qed

lemma oid_component_high: "oid_component v = oid_high (v div 128) @ [of_nat (v mod 128)]"
proof -
  have "oid_le_octets v = (of_nat (v mod 256) OR 0x80) # (if v div 128 \<noteq> 0 then oid_le_octets (v div 128) else [])"
    by (rule oid_le_octets.simps)
  then have "oid_component v
      = (if v div 128 \<noteq> 0 then rev (oid_le_octets (v div 128)) else []) @ [of_nat (v mod 128)]"
    by (simp only: oid_component_def list.case low_octet rev.simps if_distrib [of rev])
  then show ?thesis using oid_le_high [of "v div 128"] by (cases "v div 128 = 0") simp_all
qed

lemma length_component: "length (oid_component v) = (if v < 128 then 1 else Suc (length (oid_component (v div 128))))"
proof -
  have "length (oid_component v) = length (oid_le_octets v)" for v
    by (simp add: oid_component_def split: list.split)
  moreover have "v div 128 = 0 \<longleftrightarrow> v < 128" by (simp add: div_eq_0_iff)
  ultimately show ?thesis by (simp add: oid_le_octets.simps [of v])
qed

text \<open>Two octets of text pay for one octet of encoding.\<close>

lemma component_short: "2 * length (oid_component v) \<le> length (c_decimal v) + 1"
proof (induction v rule: less_induct)
  case (less v)
  show ?case
  proof (cases "v < 128")
    case True
    then show ?thesis using c_decimal_nonempty [of v] by (simp add: length_component Suc_leI)
  next
    case False
    have "length (c_decimal v) = Suc (Suc (length (c_decimal (v div 100))))"
    proof -
      have "\<not> v < 10" "\<not> v div 10 < 10" "v div 10 div 10 = v div 100" using False by auto
      then show ?thesis by (simp only: length_decimal [of v] length_decimal [of "v div 10"] if_False)
    qed
    moreover have "v div 128 \<le> v div 100" by (rule div_le_mono2) simp_all
    then have "length (c_decimal (v div 128)) \<le> length (c_decimal (v div 100))" by (rule length_decimal_mono)
    ultimately show ?thesis using less [of "v div 128"] False by (simp add: length_component [of v])
  qed
qed

section \<open>Encoding a text\<close>

definition oid_dots :: "nat list \<Rightarrow> byte list" where
  "oid_dots cs = concat (map (\<lambda>c. 0x2e # c_decimal c) cs)"

definition oid_text :: "nat \<Rightarrow> nat \<Rightarrow> nat list \<Rightarrow> byte list" where
  "oid_text x y cs = c_decimal x @ oid_dots (y # cs)"

definition oid_ok :: "nat \<Rightarrow> nat \<Rightarrow> nat list \<Rightarrow> bool" where
  "oid_ok x y cs \<longleftrightarrow> x \<le> 2 \<and> y \<le> (if x < 2 then 39 else LBER_OID_COMPONENT_MAX - 80)
     \<and> (\<forall>c\<in>set cs. c \<le> LBER_OID_COMPONENT_MAX)"

definition oid_der :: "nat \<Rightarrow> nat \<Rightarrow> nat list \<Rightarrow> byte list" where
  "oid_der x y cs = concat (map oid_component ((y + x * 40) # cs))"

lemma oid_dots_Cons: "oid_dots (c # cs) = 0x2e # c_decimal c @ oid_dots cs"
  by (simp add: oid_dots_def)

lemma oid_dots_Nil [simp]: "oid_dots [] = []"
  by (simp add: oid_dots_def)

lemma no_digit_dots: "no_digit rest \<Longrightarrow> no_digit (oid_dots cs @ rest)"
  by (cases cs) (auto simp: oid_dots_Cons no_digit_def c_isdigit_def)

lemma first_digit: "c_isdigit (octet_at (c_decimal c @ r) 0)"
proof -
  obtain d ds where d: "c_decimal c = d # ds" using c_decimal_nonempty by (cases "c_decimal c") auto
  then have "c_isdigit d" using c_decimal_digits [of c] by simp
  then show ?thesis by (simp add: d octet_at_def)
qed

lemma after_dot: "octet_at (0x2e # c_decimal c @ r) 0 = 0x2e"
    "c_isdigit (octet_at (0x2e # c_decimal c @ r) 1)"
    "c_isdigit (octet_at (0x2e # c_decimal c @ r) (Suc 0))"
  using first_digit [of c r] by (simp_all add: octet_at_def c_decimal_nonempty)

lemma max_component: "LBER_OID_COMPONENT_MAX < 2 ^ 64"
  by (simp add: LBER_OID_COMPONENT_MAX_def)

lemma encode_loop_text:
  assumes "\<forall>c\<in>set cs. c \<le> LBER_OID_COMPONENT_MAX" and "no_digit rest"
  shows "encode_oid_loop (oid_dots cs @ rest) (int (length (oid_dots cs))) val der
           = Some (der @ oid_component val @ concat (map oid_component cs))"
  using assms(1)
proof (induction cs arbitrary: val der)
  case Nil
  show ?case by (subst encode_oid_loop.simps) simp
next
  case (Cons c cs)
  have "c < 2 ^ 64" using Cons.prems max_component by simp
  then have s: "c_strtoul (c_decimal c @ oid_dots cs @ rest) = (c, oid_dots cs @ rest)"
    by (rule strtoul_decimal) (rule no_digit_dots [OF assms(2)])
  have IH: "encode_oid_loop (oid_dots cs @ rest) (int (length (oid_dots cs))) c (der @ oid_component val)
      = Some ((der @ oid_component val) @ oid_component c @ concat (map oid_component cs))"
    using Cons by simp
  show ?case
    using Cons.prems IH after_dot [of c "oid_dots cs @ rest"]
    by (subst encode_oid_loop.simps) (simp add: oid_dots_Cons s)
qed

lemma encode_text:
  assumes ok: "oid_ok x y cs" and rest: "no_digit rest" and room: "length (oid_text x y cs) div 2 \<le> n"
  shows "ber_encode_oid (oid_text x y cs @ rest) (length (oid_text x y cs)) (Some n) = Some (oid_der x y cs)"
proof -
  have x: "x < 2 ^ 64" "x \<le> 2" and y: "y \<le> (if x < 2 then 39 else LBER_OID_COMPONENT_MAX - 80)" and y64: "y < 2 ^ 64"
    using ok by (auto simp: oid_ok_def LBER_OID_COMPONENT_MAX_def split: if_splits)
  have s1: "c_strtoul (c_decimal x @ oid_dots (y # cs) @ rest) = (x, oid_dots (y # cs) @ rest)"
    by (rule strtoul_decimal [OF x(1)]) (rule no_digit_dots [OF rest])
  have s2: "c_strtoul (c_decimal y @ oid_dots cs @ rest) = (y, oid_dots cs @ rest)"
    by (rule strtoul_decimal [OF y64]) (rule no_digit_dots [OF rest])
  have l: "encode_oid_loop (oid_dots cs @ rest) (int (length (oid_dots cs))) (y + x * 40) []
      = Some (oid_der x y cs)"
    using encode_loop_text [of cs rest] ok rest by (simp add: oid_ok_def oid_der_def)
  have len: "int (length (oid_text x y cs)) - (int (length (oid_text x y cs @ rest)) - int (length (oid_dots cs @ rest)))
      = int (length (oid_dots cs))"
    by (simp add: oid_text_def)
  have d: "c_isdigit (octet_at (oid_text x y cs @ rest) 0)" unfolding oid_text_def append_assoc by (rule first_digit)
  have s1': "c_strtoul (oid_text x y cs @ rest) = (x, 0x2e # c_decimal y @ oid_dots cs @ rest)"
    using s1 by (simp add: oid_text_def oid_dots_Cons)
  show ?thesis
    using room x(2) y after_dot [of y "oid_dots cs @ rest"]
    unfolding ber_encode_oid_def by (simp add: d s1' s2 len l del: of_nat_add length_append)
qed

section \<open>Decoding\<close>

text \<open>Seven bits shifted in.\<close>

lemma or_seven:
  assumes "w * 128 + b < 2 ^ 64" and "b < 128"
  shows "(of_nat (w * 128) :: 64 word) OR of_nat b = of_nat (w * 128 + b)"
proof -
  have "(of_nat b :: 64 word) = take_bit 7 (of_nat b)"
    using assms(2) by (simp add: take_bit_of_nat take_bit_nat_eq_self)
  moreover have "(of_nat (w * 128) :: 64 word) = push_bit 7 (of_nat w)" by (simp add: push_bit_eq_mult mult.commute)
  moreover have "\<not> bit (push_bit 7 (of_nat w :: 64 word)) n \<or> \<not> bit (take_bit 7 (of_nat b :: 64 word)) n" for n
    by (auto simp: bit_push_bit_iff bit_take_bit_iff)
  then have "push_bit 7 (of_nat w :: 64 word) + take_bit 7 (of_nat b) = push_bit 7 (of_nat w) OR take_bit 7 (of_nat b)"
    by (rule disjunctive_add)
  ultimately show ?thesis by (simp only: of_nat_add)
qed

lemma octet_low7: "b < 128 \<Longrightarrow> (ucast ((of_nat b :: byte) AND 0x7f) :: 64 word) = of_nat b"
proof -
  assume b: "b < 128"
  then have "(of_nat b :: byte) AND 0x7f = of_nat b" using and_low7 [of b] by simp
  moreover have "(ucast (of_nat b :: byte) :: 64 word) = of_nat (unat (of_nat b :: byte))" by simp
  ultimately show ?thesis using b by (simp only: unat_of_nat_byte)
qed

lemma octet_high7: "b < 128 \<Longrightarrow> ((of_nat b :: byte) OR 0x80) AND 0x7f = of_nat b"
  using and_low7 [of b] by (simp add: bit.conj_disj_distrib2)

lemma octet_flag: "((b :: byte) OR 0x80) AND 0x80 \<noteq> 0" "b' < 128 \<Longrightarrow> (of_nat b' :: byte) AND 0x80 = 0"
proof -
  have "(b OR 0x80) AND 0x80 = (b AND 0x80) OR (0x80 AND 0x80)" by (rule bit.conj_disj_distrib2)
  then show "(b OR 0x80) AND 0x80 \<noteq> 0" by simp
next
  assume "b' < 128"
  then have "(of_nat b' :: byte) = of_nat b' AND 0x7f" using and_low7 [of b'] by simp
  then have "(of_nat b' :: byte) AND 0x80 = (of_nat b' AND 0x7f) AND 0x80" by (rule arg_cong)
  also have "\<dots> = of_nat b' AND (0x7f AND 0x80)" by (rule and.assoc)
  finally show "(of_nat b' :: byte) AND 0x80 = 0" by simp
qed

lemma decode_high:
  assumes "w \<le> LBER_OID_COMPONENT_MAX div 128"
  shows "decode_oid_loop (oid_high w @ rest) out 0 = decode_oid_loop rest out (of_nat (w * 128))"
  using assms
proof (induction w arbitrary: rest rule: oid_high.induct)
  case (1 w)
  show ?case
  proof (cases "w = 0")
    case True
    then show ?thesis by simp
  next
    case False
    let ?b = "w mod 128"
    have small: "w * 128 < 2 ^ 64" "w < 2 ^ 64" using 1(2) by (simp_all add: LBER_OID_COMPONENT_MAX_def)
    have "w div 128 \<le> LBER_OID_COMPONENT_MAX div 128" using 1(2) by (meson div_le_dividend order_trans)
    then have IH: "decode_oid_loop (oid_high (w div 128) @ (of_nat ?b OR 0x80) # rest) out 0
        = decode_oid_loop ((of_nat ?b OR 0x80) # rest) out (of_nat (w div 128 * 128))"
      using 1(1) [OF False] by simp
    have v: "(of_nat (w div 128 * 128) :: 64 word) OR ucast (((of_nat ?b :: byte) OR 0x80) AND 0x7f) = of_nat w"
    proof -
      have "(ucast (((of_nat ?b :: byte) OR 0x80) AND 0x7f) :: 64 word) = ucast ((of_nat ?b :: byte) AND 0x7f)"
        using octet_high7 [of ?b] and_low7 [of ?b] by simp
      also have "\<dots> = of_nat ?b" by (rule octet_low7) simp
      finally show ?thesis using or_seven [of "w div 128" ?b] small(2) by (simp only: div_mod_decomp) simp
    qed
    have g: "(of_nat w :: 64 word) - 1 < of_nat (LBER_OID_COMPONENT_MAX div 128)"
    proof -
      have "(of_nat w :: 64 word) - 1 = of_nat (w - 1)" using False by (simp add: of_nat_diff)
      moreover have "w - 1 < LBER_OID_COMPONENT_MAX div 128" using 1(2) False by simp
      ultimately show ?thesis using small(2)
        by (simp add: word_less_nat_alt unat_of_nat64 LBER_OID_COMPONENT_MAX_def del: of_nat_diff)
    qed
    have p: "push_bit 7 (of_nat w :: 64 word) = of_nat (w * 128)" by (simp add: push_bit_eq_mult mult.commute)
    show ?thesis
      using False by (subst oid_high.simps) (simp only: if_False append_assoc append.simps IH decode_oid_loop.simps Let_def v octet_flag g p if_True)
  qed
qed

lemma decode_component:
  assumes "v \<le> LBER_OID_COMPONENT_MAX"
  shows "decode_oid_loop (oid_component v @ rest) (Some txt) 0 = decode_oid_loop rest (Some (txt @ 0x2e # c_decimal v)) 0"
    and "decode_oid_loop (oid_component v @ rest) None 0
      = decode_oid_loop rest
          (Some (c_decimal (if v < 80 then v div 40 else 2) @ 0x2e # c_decimal (v - (if v < 80 then v div 40 else 2) * 40))) 0"
proof -
  have v64: "v < 2 ^ 64" using assms max_component by simp
  have h: "decode_oid_loop (oid_component v @ rest) out 0
      = decode_oid_loop (of_nat (v mod 128) # rest) out (of_nat (v div 128 * 128))" for out
    using decode_high [of "v div 128" "of_nat (v mod 128) # rest" out] assms
    by (simp add: oid_component_high div_le_mono)
  have "(ucast ((of_nat (v mod 128) :: byte) AND 0x7f) :: 64 word) = of_nat (v mod 128)" by (rule octet_low7) simp
  then have w: "(of_nat (v div 128 * 128) :: 64 word) OR ucast ((of_nat (v mod 128) :: byte) AND 0x7f) = of_nat v"
    using or_seven [of "v div 128" "v mod 128"] v64 by simp
  have u: "unat (of_nat v :: 64 word) = v" using v64 by (rule unat_of_nat64)
  have f: "(of_nat (v mod 128) :: byte) AND 0x80 = 0" by (rule octet_flag) simp
  note step = h decode_oid_loop.simps(2) Let_def w
  show "decode_oid_loop (oid_component v @ rest) (Some txt) 0 = decode_oid_loop rest (Some (txt @ 0x2e # c_decimal v)) 0"
    unfolding step using f u by simp
  let ?x = "if v < 80 then v div 40 else 2"
  have x: "(if (of_nat v :: 64 word) < 80 then of_nat v div 40 else 2) = (of_nat ?x :: 64 word)"
  proof -
    have "((of_nat v :: 64 word) < 80) = (v < 80)" by (simp add: word_less_nat_alt u)
    moreover have "(of_nat v :: 64 word) div 40 = of_nat (v div 40)" 
      using v64 by (intro word_unat_eq_iff [THEN iffD2]) (simp add: unat_div u unat_of_nat64)
    ultimately show ?thesis by simp
  qed
  have xv: "?x * 40 \<le> v" by auto
  have "(of_nat v :: 64 word) - of_nat ?x * 40 = of_nat (v - ?x * 40)" using xv by (simp add: of_nat_diff)
  moreover have "unat (of_nat (v - ?x * 40) :: 64 word) = v - ?x * 40" "unat (of_nat ?x :: 64 word) = ?x"
    using v64 by (intro unat_of_nat64; auto intro: le_less_trans [OF div_le_dividend])+
  ultimately show "decode_oid_loop (oid_component v @ rest) None 0
      = decode_oid_loop rest (Some (c_decimal ?x @ 0x2e # c_decimal (v - ?x * 40))) 0"
    unfolding step x using f by (simp only: option.case Let_def prod.case if_True simp_thms)
qed

lemma decode_components:
  "\<forall>c\<in>set cs. c \<le> LBER_OID_COMPONENT_MAX \<Longrightarrow>
     decode_oid_loop (concat (map oid_component cs)) (Some acc) 0 = Some (Some (acc @ oid_dots cs), 0)"
  by (induction cs arbitrary: acc) (simp_all add: decode_component oid_dots_Cons)

lemma decode_der:
  assumes "oid_ok x y cs" and "4 * length (oid_der x y cs) < n"
  shows "ber_decode_oid (oid_der x y cs) (Some n) = Some (oid_text x y cs)"
proof -
  let ?v = "y + x * 40"
  have v: "?v \<le> LBER_OID_COMPONENT_MAX" and x: "(if ?v < 80 then ?v div 40 else 2) = x"
    using assms(1) by (auto simp: oid_ok_def LBER_OID_COMPONENT_MAX_def split: if_splits)
  have "decode_oid_loop (oid_der x y cs) None 0 = Some (Some (oid_text x y cs), 0)"
    using assms(1) decode_component(2) [OF v] by (simp add: oid_der_def x decode_components oid_ok_def oid_text_def oid_dots_Cons)
  then show ?thesis using assms(2) by (simp add: ber_decode_oid_def)
qed

section \<open>Lengths\<close>

lemma length_decimal_power: "n < 10 ^ j \<Longrightarrow> 0 < j \<Longrightarrow> length (c_decimal n) \<le> j"
proof (induction j arbitrary: n)
  case 0
  then show ?case by simp
next
  case (Suc j)
  show ?case
  proof (cases "n < 10")
    case True
    then show ?thesis by (simp add: length_decimal [of n])
  next
    case False
    then have "0 < j" using Suc.prems by (cases j) auto
    moreover have "n div 10 < 10 ^ j" using Suc.prems(1) by (simp add: less_mult_imp_div_less mult.commute)
    ultimately have "length (c_decimal (n div 10)) \<le> j" using Suc.IH by blast
    then show ?thesis using False by (simp add: length_decimal [of n])
  qed
qed

lemma length_decimal_octets: "n < 128 ^ k \<Longrightarrow> 0 < k \<Longrightarrow> length (c_decimal n) \<le> 3 * k"
proof -
  assume n: "n < 128 ^ k" and k: "0 < k"
  have "(128 :: nat) ^ k \<le> (10 ^ 3) ^ k" by (rule power_mono) simp_all
  then have "n < 10 ^ (3 * k)" using n by (simp only: power_mult)
  then show ?thesis by (rule length_decimal_power) (use k in simp)
qed

text \<open>One octet more in a component of \<open>k\<close> octets.\<close>

lemma or_low7_bound:
  assumes "unat (val :: 64 word) < 128 ^ (k + 1)"
  shows "unat (val OR ucast ((d :: byte) AND 0x7f)) < 128 ^ (k + 1)"
proof -
  have e: "(128 :: nat) ^ (k + 1) = 2 ^ (7 * (k + 1))" by (simp only: power_mult) simp
  have d: "unat (ucast (d AND 0x7f) :: 64 word) < 128 ^ (k + 1)"
  proof -
    have "d AND 0x7f = take_bit 7 d" by (simp add: take_bit_eq_mask mask_eq_exp_minus_1)
    then have "unat (d AND 0x7f) = take_bit 7 (unat d)" by (simp only: unsigned_take_bit_eq)
    then have "unat (ucast (d AND 0x7f) :: 64 word) < 128 ^ 1"
      using take_bit_nat_less_exp [of 7 "unat d"] by (simp add: unat_ucast_of_byte)
    also have "(128 :: nat) ^ 1 \<le> 128 ^ (k + 1)" by (rule power_increasing) simp_all
    finally show ?thesis .
  qed
  have "unat (val OR ucast (d AND 0x7f)) = unat val OR unat (ucast (d AND 0x7f) :: 64 word)" by (rule unsigned_or_eq)
  also have "\<dots> = take_bit (7 * (k + 1)) (unat val OR unat (ucast (d AND 0x7f) :: 64 word))"
    using assms d unfolding e by (simp only: take_bit_or take_bit_nat_eq_self)
  also have "\<dots> < 2 ^ (7 * (k + 1))" by (rule take_bit_nat_less_exp)
  finally show ?thesis unfolding e .
qed

lemma unat_push7: "unat (push_bit 7 (v :: 64 word)) \<le> unat v * 128"
proof -
  have "push_bit 7 v = of_nat (unat v * 128)" by (simp add: push_bit_eq_mult mult.commute)
  then show ?thesis by (simp add: unsigned_of_nat del: of_nat_mult)
qed

text \<open>The text of a first component of \<open>k\<close> octets.\<close>

lemma first_component_length:
  assumes "unat (v :: 64 word) < 128 ^ k" and "0 < k" and "x = (if v < 80 then v div 40 else 2)"
  shows "length (c_decimal (unat x)) + 1 + length (c_decimal (unat (v - x * 40))) \<le> 4 * k"
proof -
  have x2: "unat x \<le> 2" using assms(3) by (auto simp: word_less_nat_alt unat_div)
  have le: "unat x * 40 \<le> unat v" using assms(3) by (auto simp: word_less_nat_alt unat_div)
  have "x * 40 = of_nat (unat x * 40)" by simp
  then have xv: "unat (x * 40) = unat x * 40" using x2 by (simp only:) (rule unat_of_nat64, simp)
  then have y: "unat (v - x * 40) = unat v - unat x * 40" using le by (simp add: unat_sub word_le_nat_alt)
  have l1: "length (c_decimal (unat x)) = 1" using x2 by (simp add: length_decimal)
  show ?thesis
  proof (cases "k = 1")
    case True
    then have "unat v - unat x * 40 < 10 ^ 2" using assms(1,3) by (auto simp: word_less_nat_alt unat_div split: if_splits)
    then have "length (c_decimal (unat (v - x * 40))) \<le> 2" unfolding y by (rule length_decimal_power) simp
    then show ?thesis using True l1 by simp
  next
    case False
    have "unat (v - x * 40) < 128 ^ k" using assms(1) unfolding y by simp
    then have "length (c_decimal (unat (v - x * 40))) \<le> 3 * k" using assms(2) by (rule length_decimal_octets)
    then show ?thesis using False assms(2) l1 by linarith
  qed
qed

lemma decode_loop_length:
  assumes "decode_oid_loop der out val = Some (Some t, v)" and "unat val < 128 ^ (k + 1)"
  shows "length t \<le> (case out of None \<Rightarrow> 0 | Some s \<Rightarrow> length s) + 4 * (k + length der)"
  using assms
proof (induction der arbitrary: out val k)
  case Nil
  then show ?case by simp
next
  case (Cons d der)
  let ?v = "val OR ucast (d AND 0x7f)"
  have b: "unat ?v < 128 ^ (k + 1)" by (rule or_low7_bound [OF Cons.prems(2)])
  show ?case
  proof (cases "d AND 0x80 = 0")
    case False
    then have "decode_oid_loop der out (push_bit 7 ?v) = Some (Some t, v)"
      using Cons.prems(1) by (simp add: Let_def split: if_splits)
    moreover have "unat (push_bit 7 ?v) < 128 ^ (k + 1 + 1)" using unat_push7 [of ?v] b by simp
    ultimately show ?thesis using Cons.IH [of out "push_bit 7 ?v" "k + 1"] by (simp split: option.splits)
  next
    case True
    show ?thesis
    proof (cases out)
      case None
      let ?x = "if ?v < 80 then ?v div 40 else 2"
      let ?s = "c_decimal (unat ?x) @ 0x2e # c_decimal (unat (?v - ?x * 40))"
      have "decode_oid_loop der (Some ?s) 0 = Some (Some t, v)"
        using Cons.prems(1) True None by (simp only: decode_oid_loop.simps Let_def option.case prod.case if_True simp_thms)
      then have "length t \<le> length ?s + 4 * (0 + length der)" using Cons.IH [of "Some ?s" 0 0] by simp
      moreover have "length ?s \<le> 4 * (k + 1)" using first_component_length [OF b _ refl] by simp
      ultimately show ?thesis using None by simp
    next
      case (Some s)
      let ?s = "s @ 0x2e # c_decimal (unat ?v)"
      have "decode_oid_loop der (Some ?s) 0 = Some (Some t, v)"
        using Cons.prems(1) True Some by (simp add: Let_def)
      then have "length t \<le> length ?s + 4 * (0 + length der)" using Cons.IH [of "Some ?s" 0 0] by simp
      moreover have "length (c_decimal (unat ?v)) \<le> 3 * (k + 1)" using b by (rule length_decimal_octets) simp
      ultimately show ?thesis using Some by simp
    qed
  qed
qed

lemma decode_fits:
  assumes "ber_decode_oid inp (Some n) = Some t"
  shows "length t < n"
proof -
  obtain v where v: "decode_oid_loop inp None 0 = Some (Some t, v)" and n: "\<not> (n + 3) div 4 \<le> length inp"
    using assms by (auto simp: ber_decode_oid_def split: if_splits option.splits prod.splits)
  have "length t \<le> 4 * length inp" using decode_loop_length [OF v, of 0] by simp
  then show ?thesis using n by auto
qed

lemma length_oid_der: "oid_ok x y cs \<Longrightarrow> length (oid_der x y cs) \<le> length (oid_text x y cs) div 2"
proof -
  assume ok: "oid_ok x y cs"
  have cs: "2 * length (concat (map oid_component cs)) \<le> length (oid_dots cs)"
  proof (induction cs)
    case (Cons c cs)
    then show ?case using component_short [of c] by (simp add: oid_dots_Cons)
  qed simp
  have x: "length (c_decimal x) = 1" using ok by (simp add: length_decimal oid_ok_def)
  have x2: "x \<le> 2" using ok by (simp add: oid_ok_def)
  have "length (c_decimal ((y + x * 40) div 10)) \<le> length (c_decimal y)"
  proof (cases "y < 8")
    case True
    then show ?thesis using x2 c_decimal_nonempty [of y] by (simp add: length_decimal [of "(y + x * 40) div 10"] Suc_leI)
  next
    case False
    then show ?thesis using x2 by (intro length_decimal_mono) simp
  qed
  then have "length (c_decimal (y + x * 40)) \<le> length (c_decimal y) + 1"
    using length_decimal [of "y + x * 40"] by (simp split: if_splits)
  then show ?thesis using cs x component_short [of "y + x * 40"] by (simp add: oid_der_def oid_text_def oid_dots_Cons)
qed

section \<open>The form of the encoding\<close>

text \<open>
  ITU-T X.690, 8.19: a subidentifier is a number in base 128, most significant digit first, with the high bit
  set in every octet but the last and no leading octet 0x80; the first two components share one.
\<close>

definition sub_val :: "byte list \<Rightarrow> nat" where
  "sub_val bs = foldl (\<lambda>n b. n * 128 + unat (b AND 0x7f)) 0 bs"

definition subidentifier :: "nat \<Rightarrow> byte list \<Rightarrow> bool" where
  "subidentifier v bs \<longleftrightarrow> bs \<noteq> [] \<and> (\<forall>b\<in>set (butlast bs). b AND 0x80 \<noteq> 0) \<and> last bs AND 0x80 = 0
     \<and> hd bs \<noteq> 0x80 \<and> sub_val bs = v"

definition der_oid :: "nat \<Rightarrow> nat \<Rightarrow> nat list \<Rightarrow> byte list \<Rightarrow> bool" where
  "der_oid x y cs der \<longleftrightarrow> (\<exists>subs. der = concat subs \<and> list_all2 subidentifier ((40 * x + y) # cs) subs)"

lemma sub_val_snoc [simp]: "sub_val (bs @ [b]) = sub_val bs * 128 + unat (b AND 0x7f)"
  by (simp add: sub_val_def)

lemma unat_low7_less: "unat ((b :: byte) AND 0x7f) < 128"
proof -
  have "b AND 0x7f = take_bit 7 b" by (simp add: take_bit_eq_mask mask_eq_exp_minus_1)
  then have "unat (b AND 0x7f) = take_bit 7 (unat b)" by (simp only: unsigned_take_bit_eq)
  then show ?thesis using take_bit_nat_less_exp [of 7 "unat b"] by simp
qed

lemma with_flag: "(b :: byte) AND 0x80 \<noteq> 0 \<Longrightarrow> (b AND 0x7f) OR 0x80 = b"
proof -
  assume "b AND 0x80 \<noteq> 0"
  then have "bit b 7" using and_exp_eq_0_iff_not_bit [of b 7] by simp
  then have "b OR 0x80 = b" by (intro bit_word_eqI) (auto simp: bit_or_iff bit_exp_iff [where m = 7, simplified])
  then show ?thesis using or_high_bit [of b] by simp
qed

lemma high_octets:
  assumes "\<forall>b\<in>set bs. b AND 0x80 \<noteq> 0" and "bs \<noteq> [] \<Longrightarrow> hd bs \<noteq> 0x80"
  shows "bs = oid_high (sub_val bs) \<and> (bs \<noteq> [] \<longrightarrow> sub_val bs \<noteq> 0)"
  using assms
proof (induction bs rule: rev_induct)
  case Nil
  show ?case by (simp add: sub_val_def)
next
  case (snoc b bs)
  let ?l = "unat (b AND 0x7f)"
  have b: "of_nat ?l OR 0x80 = b" using snoc.prems(1) with_flag [of b] by simp
  have IH: "bs = oid_high (sub_val bs)" "bs \<noteq> [] \<Longrightarrow> sub_val bs \<noteq> 0"
    using snoc.IH snoc.prems by (cases bs; simp)+
  have v: "sub_val (bs @ [b]) \<noteq> 0"
  proof (cases "bs = []")
    case True
    then have "b \<noteq> 0x80" using snoc.prems(2) by simp
    then have "?l \<noteq> 0" using b by (cases "?l = 0") simp_all
    then show ?thesis by simp
  qed (use IH(2) in simp)
  have "sub_val (bs @ [b]) div 128 = sub_val bs" "sub_val (bs @ [b]) mod 128 = ?l"
    using unat_low7_less [of b] by simp_all
  then have "oid_high (sub_val (bs @ [b])) = oid_high (sub_val bs) @ [of_nat ?l OR 0x80]"
    using v by (subst oid_high.simps) (simp only: if_False)
  then show ?case using b v IH(1) by simp
qed

lemma oid_high_form:
  "(\<forall>b\<in>set (oid_high w). b AND 0x80 \<noteq> 0) \<and> sub_val (oid_high w) = w \<and> (w \<noteq> 0 \<longrightarrow> oid_high w \<noteq> [] \<and> hd (oid_high w) \<noteq> 0x80)"
proof (induction w rule: oid_high.induct)
  case (1 w)
  show ?case
  proof (cases "w = 0")
    case True
    then show ?thesis by (simp add: sub_val_def)
  next
    case False
    let ?b = "of_nat (w mod 128) OR 0x80 :: byte"
    have h: "oid_high w = oid_high (w div 128) @ [?b]" using False by (subst oid_high.simps) simp
    have low: "unat (?b AND 0x7f) = w mod 128" by (simp only: octet_high7 unat_of_nat_byte) 
    have "hd (oid_high w) \<noteq> 0x80"
    proof (cases "w div 128 = 0")
      case True
      then have "unat (?b AND 0x7f) \<noteq> 0" using low False by auto
      then have "?b \<noteq> 0x80" by auto
      then show ?thesis using h True by simp
    qed (use h 1 False in simp)
    then show ?thesis using 1 [OF False] h low octet_flag(1) by simp
  qed
qed

lemma subidentifier_iff: "subidentifier v bs \<longleftrightarrow> bs = oid_component v"
proof
  assume s: "subidentifier v bs"
  then obtain cs b where bs: "bs = cs @ [b]" by (cases bs rule: rev_cases) (auto simp: subidentifier_def)
  have cs: "cs = oid_high (sub_val cs)" using s high_octets [of cs] by (cases cs) (auto simp: subidentifier_def bs)
  have b: "b = of_nat (unat (b AND 0x7f))"
  proof -
    have "\<not> bit b 7" using s and_exp_eq_0_iff_not_bit [of b 7] by (simp add: subidentifier_def bs)
    have "b AND 0x7f = take_bit 7 b" by (simp add: take_bit_eq_mask mask_eq_exp_minus_1)
    also have "\<dots> = b" 
    proof (rule bit_word_eqI)
      fix n assume "n < LENGTH(8)"
      then show "bit (take_bit 7 b) n = bit b n" using \<open>\<not> bit b 7\<close> by (cases "n = 7") (auto simp: bit_take_bit_iff)
    qed
    finally show ?thesis by simp
  qed
  have "v = sub_val cs * 128 + unat (b AND 0x7f)" using s by (simp add: subidentifier_def bs)
  then have "v div 128 = sub_val cs" "v mod 128 = unat (b AND 0x7f)" using unat_low7_less [of b] by simp_all
  then show "bs = oid_component v" using bs cs b by (simp only: oid_component_high)
next
  assume "bs = oid_component v"
  then have bs: "bs = oid_high (v div 128) @ [of_nat (v mod 128)]" by (simp only: oid_component_high)
  have "(of_nat (v mod 128) :: byte) AND 0x7f = of_nat (v mod 128)" using and_low7 [of "v mod 128"] by simp
  then have l: "unat ((of_nat (v mod 128) :: byte) AND 0x7f) = v mod 128" by (simp only:) (rule unat_of_nat_byte, simp)
  have f: "(of_nat (v mod 128) :: byte) AND 0x80 = 0" by (rule octet_flag) simp
  have "hd bs \<noteq> 0x80"
  proof (cases "v div 128 = 0")
    case True
    then show ?thesis using bs f by auto
  next
    case False
    then show ?thesis using oid_high_form [of "v div 128"] bs by simp
  qed
  then show "subidentifier v bs" using oid_high_form [of "v div 128"] l f by (simp add: subidentifier_def bs)
qed

lemma der_oid_iff: "der_oid x y cs der \<longleftrightarrow> der = oid_der x y cs"
proof -
  have "list_all2 subidentifier vs subs \<longleftrightarrow> subs = map oid_component vs" for vs subs
    by (induction vs arbitrary: subs) (auto simp: subidentifier_iff list_all2_Cons1)
  then show ?thesis by (auto simp: der_oid_def oid_der_def add.commute mult.commute)
qed
section \<open>Properties\<close>

text \<open>
  C36: object identifiers survive encoding and decoding.  A dotted text with a first component up to 2, a second one in its
  range and further components up to \<^verbatim>\<open>LBER_OID_COMPONENT_MAX\<close> is accepted, whatever follows it in memory; its encoding is
  the one sequence of octets that X.690 allows for it, and has no more octets than the output buffer that \<^verbatim>\<open>ber_encode_oid\<close>
  asks for; and \<^verbatim>\<open>ber_decode_oid\<close> gives back the same text.
  On any octets at all, a text that \<^verbatim>\<open>ber_decode_oid\<close> prints fits the buffer together with its final NUL.
\<close>

theorem oid_round_trip:
  assumes ok: "oid_ok x y cs" and rest: "no_digit rest" and room: "length (oid_text x y cs) div 2 \<le> n"
  shows "(\<exists>der. ber_encode_oid (oid_text x y cs @ rest) (length (oid_text x y cs)) (Some n) = Some der
            \<and> (\<forall>d. der_oid x y cs d \<longleftrightarrow> d = der)
            \<and> length der \<le> n
            \<and> (\<forall>m > 4 * length der. ber_decode_oid der (Some m) = Some (oid_text x y cs)))
       \<and> (\<forall>inp m t. ber_decode_oid inp (Some m) = Some t \<longrightarrow> length t < m)"
proof -
  have "length (oid_der x y cs) \<le> n" using length_oid_der [OF ok] room by simp
  then have "\<exists>der. ber_encode_oid (oid_text x y cs @ rest) (length (oid_text x y cs)) (Some n) = Some der
       \<and> (\<forall>d. der_oid x y cs d \<longleftrightarrow> d = der)
       \<and> length der \<le> n
       \<and> (\<forall>m > 4 * length der. ber_decode_oid der (Some m) = Some (oid_text x y cs))"
    using encode_text [OF assms] decode_der [OF ok] by (intro exI [of _ "oid_der x y cs"]) (simp add: der_oid_iff)
  then show ?thesis using decode_fits by blast
qed

theorem oid_round_trip_witness:
  "\<exists>der. ber_encode_oid (oid_text 1 3 [6, 1, 4, 1, 4203] @ [0]) 16 (Some 8) = Some der
      \<and> (\<forall>d. der_oid 1 3 [6, 1, 4, 1, 4203] d \<longleftrightarrow> d = der)
      \<and> length der \<le> 8
      \<and> (\<forall>m > 4 * length der. ber_decode_oid der (Some m) = Some (oid_text 1 3 [6, 1, 4, 1, 4203]))"
proof -
  have "length (oid_text 1 3 [6, 1, 4, 1, 4203]) = 16"
    by (simp add: oid_text_def oid_dots_def length_decimal)
  then show ?thesis
    using oid_round_trip [of 1 3 "[6, 1, 4, 1, 4203]" "[0]" 8]
    by (simp add: oid_ok_def no_digit_def c_isdigit_def LBER_OID_COMPONENT_MAX_def)
qed

end
