(* ===== verification/Ber_Format.thy ===== *)
theory Ber_Format
  imports Ber_Printf
begin

text \<open>
  Formats that leave sequences open: what a \<^verbatim>\<open>ber_printf\<close> call does to the abstract writer, computed
  from its format and arguments, and how the outcomes of successive calls combine.  The encoders
  of \<^verbatim>\<open>libldap\<close> build a message from many such calls.
\<close>

section \<open>Formats on the abstract writer\<close>

text \<open>
  One conversion: the writer, the tag for the next element, the memory needed and the arguments left.  \<open>None\<close>: the
  conversion does not fit the arguments or closes a sequence that is not open.
\<close>

definition w_each :: "ber_tag_t \<Rightarrow> byte list list \<Rightarrow> writer \<Rightarrow> writer" where
  "w_each t l w = w_put (concat (map (tlv (tag_or LBER_OCTETSTRING t)) l)) w"

definition each_cost :: "byte list list \<Rightarrow> nat" where
  "each_cost l = sum_list (map (\<lambda>s. length s + 8135) l)"

fun w_conv ::
  "bool \<Rightarrow> char \<Rightarrow> printf_arg list \<Rightarrow> writer \<Rightarrow> ber_tag_t \<Rightarrow> (writer \<times> ber_tag_t \<times> nat \<times> printf_arg list) option" where
  "w_conv der c args w t =
     (if c = CHR ''b'' then
        (case args of PaInt i # r \<Rightarrow> Some (w_put (tlv (tag_or LBER_BOOLEAN t) (bool_content i)) w, LBER_DEFAULT, 4074, r)
         | _ \<Rightarrow> None)
      else if c = CHR ''i'' then
        (case args of PaInt i # r \<Rightarrow> Some (w_put (tlv (tag_or LBER_INTEGER t) (int_content i)) w, LBER_DEFAULT, 4074, r)
         | _ \<Rightarrow> None)
      else if c = CHR ''e'' then
        (case args of PaInt i # r \<Rightarrow> Some (w_put (tlv (tag_or LBER_ENUMERATED t) (int_content i)) w, LBER_DEFAULT, 4074, r)
         | _ \<Rightarrow> None)
      else if c = CHR ''n'' then Some (w_put (tlv (tag_or LBER_NULL t) []) w, LBER_DEFAULT, 4074, args)
      else if c = CHR ''N'' then Some (w, LBER_DEFAULT, 0, args)
      else if c = CHR ''o'' then
        (case args of PaOctets s # r \<Rightarrow>
           if length s < 2 ^ 64 then Some (w_each t [s] w, LBER_DEFAULT, each_cost [s], r) else None
         | _ \<Rightarrow> None)
      else if c = CHR ''O'' then
        (case args of PaBerval bv # r \<Rightarrow>
           (case bv of None \<Rightarrow> Some (w, LBER_DEFAULT, 0, r)
            | Some s \<Rightarrow> if length s < 2 ^ 64 then Some (w_each t [s] w, LBER_DEFAULT, each_cost [s], r) else None)
         | _ \<Rightarrow> None)
      else if c = CHR ''s'' then
        (case args of PaString s # r \<Rightarrow>
           if length (c_string s) < 2 ^ 64
           then Some (w_each t [c_string s] w, LBER_DEFAULT, each_cost [c_string s], r) else None
         | _ \<Rightarrow> None)
      else if c = CHR ''t'' then
        (case args of PaTag t' # r \<Rightarrow> Some (w, t', 0, r) | _ \<Rightarrow> None)
      else if c = CHR ''v'' then
        (case args of PaStrings ss # r \<Rightarrow>
           (case ss of None \<Rightarrow> Some (w, LBER_DEFAULT, 0, r)
            | Some l \<Rightarrow> if \<forall>s\<in>set l. length (c_string s) < 2 ^ 64
                then Some (w_each t (map c_string l) w, LBER_DEFAULT, each_cost (map c_string l), r) else None)
         | _ \<Rightarrow> None)
      else if c = CHR ''V'' \<or> c = CHR ''W'' then
        (case args of PaBervals bs # r \<Rightarrow>
           (case bs of None \<Rightarrow> Some (w, LBER_DEFAULT, 0, r)
            | Some l \<Rightarrow> if \<forall>s\<in>set l. length s < 2 ^ 64
                then Some (w_each t l w, LBER_DEFAULT, each_cost l, r) else None)
         | _ \<Rightarrow> None)
      else if c = CHR ''{'' then Some (w_open (tag_or LBER_SEQUENCE t) w, LBER_DEFAULT, 4074, args)
      else if c = CHR ''['' then Some (w_open (tag_or LBER_SET t) w, LBER_DEFAULT, 4074, args)
      else if c = CHR ''}'' \<or> c = CHR '']'' then
        (if snd w = [] then None else Some (w_close der w, LBER_DEFAULT, 4061, args))
      else None)"

declare w_conv.simps [simp del]

text \<open>A whole format, which must leave no tag behind.\<close>

fun w_run :: "bool \<Rightarrow> string \<Rightarrow> printf_arg list \<Rightarrow> writer \<Rightarrow> ber_tag_t \<Rightarrow> (writer \<times> nat) option" where
  "w_run der [] args w t = (if t = LBER_DEFAULT then Some (w, 0) else None)"
| "w_run der (c # fmt) args w t =
     (case w_conv der c args w t of
        None \<Rightarrow> None
      | Some (w', t', k, args') \<Rightarrow>
          (case w_run der fmt args' w' t' of None \<Rightarrow> None | Some (w'', j) \<Rightarrow> Some (w'', k + j)))"

section \<open>Outcomes\<close>

text \<open>An element between two calls: what has been written, and no tag left over.\<close>

definition at_writer :: "berelement \<Rightarrow> writer \<Rightarrow> bool" where
  "at_writer ber w \<longleftrightarrow> ber_writes ber w \<and> ber_tag ber = LBER_DEFAULT"

text \<open>
  A call on \<open>ber\<close> either returns -1, which it does not where \<open>k\<close> octets are affordable, or succeeds and
  leaves the writer \<open>w\<close>.
\<close>

definition leaves :: "allocator \<Rightarrow> nat \<Rightarrow> berelement \<Rightarrow> writer \<Rightarrow> (int \<times> berelement) option \<Rightarrow> bool" where
  "leaves ma k ber w r \<longleftrightarrow>
     ((\<exists>b. r = Some (-1, b)) \<and> \<not> affordable ma ber k)
   \<or> (\<exists>rc b. r = Some (rc, b) \<and> 0 \<le> rc \<and> at_writer b w \<and> ber_options b = ber_options ber
        \<and> ber_end b \<le> ber_end ber + k)"

text \<open>\<^verbatim>\<open>if ( f(...) == -1 ) return -1;\<close> and on with what follows.\<close>

definition on_ok ::
  "(int \<times> berelement) option \<Rightarrow> (berelement \<Rightarrow> (int \<times> berelement) option) \<Rightarrow> (int \<times> berelement) option" where
  "on_ok r f = (case r of None \<Rightarrow> None | Some (rc, ber) \<Rightarrow> if rc = -1 then Some (-1, ber) else f ber)"

lemma on_ok_cong [fundef_cong]:
  "r = r' \<Longrightarrow> (\<And>ber. f ber = g ber) \<Longrightarrow> on_ok r f = on_ok r' g"
  by (simp add: on_ok_def split: option.splits)

lemma leaves_charge:
  assumes "leaves ma j b w r" and "ber_options b = ber_options a" and "ber_end b + j \<le> ber_end a + k"
  shows "leaves ma k a w r"
  using assms unfolding leaves_def by (auto simp: affordable_def)

lemma leaves_on_ok:
  assumes r: "leaves ma j ber w1 r"
    and f: "\<And>b. at_writer b w1 \<Longrightarrow> ber_options b = ber_options ber \<Longrightarrow> leaves ma k b w2 (f b)"
  shows "leaves ma (j + k) ber w2 (on_ok r f)"
  using r unfolding leaves_def [of ma j]
proof (elim disjE exE conjE)
  fix b assume "r = Some (-1, b)" "\<not> affordable ma ber j"
  then show ?thesis by (auto simp: leaves_def on_ok_def affordable_def)
next
  fix rc b assume b: "r = Some (rc, b)" "0 \<le> rc" "at_writer b w1" "ber_options b = ber_options ber"
    "ber_end b \<le> ber_end ber + j"
  have "leaves ma (j + k) ber w2 (f b)"
    by (rule leaves_charge [OF f [OF b(3,4)] b(4)]) (use b(5) in simp)
  then show ?thesis using b(1,2) by (simp add: on_ok_def)
qed

lemma leaves_done: "at_writer ber w \<Longrightarrow> 0 \<le> rc \<Longrightarrow> leaves ma 0 ber w (Some (rc, ber))"
  by (simp add: leaves_def)

lemma leaves_mono: "leaves ma j ber w r \<Longrightarrow> j \<le> k \<Longrightarrow> leaves ma k ber w r"
  by (erule leaves_charge) simp_all

text \<open>Enough memory: the call succeeds.\<close>

lemma leaves_affordable:
  assumes "leaves ma k ber w r" and "affordable ma ber k"
  obtains rc b where "r = Some (rc, b)" "0 \<le> rc" "at_writer b w" "ber_options b = ber_options ber"
    "ber_end b \<le> ber_end ber + k"
  using assms unfolding leaves_def by blast

section \<open>The code follows the abstract writer\<close>

text \<open>What a conversion leaves, the tag reset included.\<close>

definition conv_ok ::
  "allocator \<Rightarrow> nat \<Rightarrow> berelement \<Rightarrow> writer \<Rightarrow> int \<times> berelement \<Rightarrow> bool" where
  "conv_ok ma k ber w r \<longleftrightarrow>
     (fst r = -1 \<and> \<not> affordable ma ber k)
   \<or> (0 \<le> fst r \<and> ber_writes (snd r) w \<and> ber_options (snd r) = ber_options ber \<and> ber_end (snd r) \<le> ber_end ber + k)"

lemma appends_conv_ok: "appends ma k ber w bs r \<Longrightarrow> conv_ok ma k ber (w_put bs w) r"
  by (auto simp: appends_def conv_ok_def same_frame_def)

lemma put_each_conv_ok:
  assumes put: "\<And>b w s. s \<in> set l \<Longrightarrow> ber_writes b w \<Longrightarrow> ber_tag b = t \<Longrightarrow>
       appends ma (length (g s) + 8135) b w (tlv u (g s)) (put b s)"
    and "ber_writes ber w" and "ber_tag ber = t" and "0 \<le> rc"
  shows "conv_ok ma (each_cost (map g l)) ber (w_put (concat (map (tlv u) (map g l))) w) (put_each put rc ber l)"
  using assms
proof (induction l arbitrary: ber w rc)
  case Nil
  then show ?case by (simp add: conv_ok_def)
next
  case (Cons s l)
  obtain rc' b where p: "put ber s = (rc', b)" by (cases "put ber s")
  have a: "appends ma (length (g s) + 8135) ber w (tlv u (g s)) (rc', b)"
    using Cons.prems(1) [of s ber w] Cons.prems(2,3) p by simp
  show ?case
  proof (cases "rc' = -1")
    case True
    then show ?thesis using a p by (auto simp: conv_ok_def appends_def each_cost_def affordable_def)
  next
    case False
    then have b: "ber_writes b (w_put (tlv u (g s)) w)" "ber_tag b = t" "ber_options b = ber_options ber"
        "ber_end b \<le> ber_end ber + (length (g s) + 8135)" and rc': "0 \<le> rc'"
      using a Cons.prems(3) by (auto simp: appends_def same_frame_def)
    have "conv_ok ma (each_cost (map g l)) b (w_put (concat (map (tlv u) (map g l))) (w_put (tlv u (g s)) w))
        (put_each put rc' b l)"
      by (rule Cons.IH [OF _ b(1,2) rc']) (simp add: Cons.prems(1))
    then show ?thesis using b(3,4) False p
      by (auto simp: conv_ok_def each_cost_def affordable_def)
  qed
qed

lemma ostring_conv_ok:
  assumes "ber_writes ber w" and "length s < 2 ^ 64" and "ber_tag ber = t"
  shows "conv_ok ma (each_cost [s]) ber (w_each t [s] w) (ber_put_ostring ma ber s (ber_tag ber))"
  using appends_conv_ok [OF ber_put_ostring_appends [OF assms(1,2), of ma t]] assms(3)
  by (simp add: each_cost_def w_each_def)

lemma berval_ostring: "ber_put_berval ma ber (Some s) t = ber_put_ostring ma ber s t"
  by (simp add: ber_put_berval_def)

lemma open_conv_ok:
  assumes "ber_writes ber w"
  shows "conv_ok ma 4074 ber (w_open t w) (ber_start_seqorset ma ber t)"
  using ber_start_seqorset_sim [OF assms, of ma t] by (auto simp: conv_ok_def)

lemma close_conv_ok:
  assumes w: "ber_writes ber w" and f: "snd w \<noteq> []"
  shows "conv_ok ma 4061 ber (w_close (ber_der ber) w) (ber_put_seqorset ber)"
proof -
  obtain base t c fs where wp: "w = (base, (t, c) # fs)" using f by (cases w; cases "snd w") auto
  show ?thesis
  proof (cases "length c \<le> unat MAXINT_BERSIZE")
    case True
    then show ?thesis using ber_put_seqorset_sim [of ber base t c fs] w wp by (auto simp: conv_ok_def)
  next
    case False
    then show ?thesis using ber_put_seqorset_too_long [of ber base t c fs ma] w wp by (auto simp: conv_ok_def)
  qed
qed

lemma w_conv_sim:
  assumes c: "w_conv (ber_der ber) c args w t = Some (w', t', k, args')"
    and w: "ber_writes ber w" and t: "ber_tag ber = t" and rc: "0 \<le> rc"
  shows "\<exists>rc' b keep. printf_conv ma c rc ber args = Some (rc', b, keep, args') \<and> conv_ok ma k ber w' (rc', b)
           \<and> ber_tag (if keep then b else b\<lparr>ber_tag := LBER_DEFAULT\<rparr>) = t'" (is ?thesis)
proof -
  have fin: ?thesis if "printf_conv ma c rc ber args = (case r of (rc', b) \<Rightarrow> Some (rc', b, False, args'))"
      "conv_ok ma k ber w' r" "t' = LBER_DEFAULT" for r
    using that by (cases r) auto
  have each: "conv_ok ma (each_cost (map g l)) ber (w_each t (map g l) w) (put_each put rc ber l)"
    if "\<And>b s. put b s = ber_put_ostring ma b (g s) (ber_tag b)" "\<forall>s\<in>set l. length (g s) < 2 ^ 64" for g l put
    unfolding w_each_def using that w t rc
    by (intro put_each_conv_ok) (auto intro: ber_put_ostring_appends)
  have nop: "conv_ok ma 0 ber w (rc, ber)" "conv_ok ma 0 ber w (0, ber)"
    using w rc by (simp_all add: conv_ok_def)
  note app = ber_put_boolean_appends ber_put_int_appends ber_put_enum_appends ber_put_null_appends
  note app' = app [OF w, of ma t, THEN appends_conv_ok]
  consider "c = CHR ''b''" | "c = CHR ''i''" | "c = CHR ''e''" | "c = CHR ''n''" | "c = CHR ''N''" | "c = CHR ''o''"
    | "c = CHR ''O''" | "c = CHR ''s''" | "c = CHR ''t''" | "c = CHR ''v''" | "c = CHR ''V'' \<or> c = CHR ''W''"
    | "c = CHR ''{''" | "c = CHR ''[''" | "c = CHR ''}'' \<or> c = CHR '']''"
    using c by (simp add: w_conv.simps split: if_splits)
  then show ?thesis
  proof cases
    case 1
    then obtain i where "args = PaInt i # args'" "w' = w_put (tlv (tag_or LBER_BOOLEAN t) (bool_content i)) w" "t' = LBER_DEFAULT" "k = 4074"
      using c by (auto simp: w_conv.simps split: list.splits printf_arg.splits)
    then show ?thesis using 1 app'(1) t by (intro fin) (simp_all add: printf_conv.simps)
  next
    case 2
    then obtain i where "args = PaInt i # args'" "w' = w_put (tlv (tag_or LBER_INTEGER t) (int_content i)) w" "t' = LBER_DEFAULT" "k = 4074"
      using c by (auto simp: w_conv.simps split: list.splits printf_arg.splits)
    then show ?thesis using 2 app'(2) t by (intro fin) (simp_all add: printf_conv.simps)
  next
    case 3
    then obtain i where "args = PaInt i # args'" "w' = w_put (tlv (tag_or LBER_ENUMERATED t) (int_content i)) w" "t' = LBER_DEFAULT" "k = 4074"
      using c by (auto simp: w_conv.simps split: list.splits printf_arg.splits)
    then show ?thesis using 3 app'(3) t by (intro fin) (simp_all add: printf_conv.simps)
  next
    case 4
    then show ?thesis using c app'(4) t by (intro fin) (simp_all add: printf_conv.simps w_conv.simps)
  next
    case 5
    then show ?thesis using c nop by (intro fin [of "(0, ber)"]) (simp_all add: printf_conv.simps w_conv.simps)
  next
    case 6
    then obtain s where "args = PaOctets s # args'" "w' = w_each t [s] w" "t' = LBER_DEFAULT" "k = each_cost [s]" "length s < 2 ^ 64"
      using c by (auto simp: w_conv.simps split: list.splits printf_arg.splits if_splits)
    then show ?thesis using 6 ostring_conv_ok [OF w _ t] t by (intro fin) (simp_all add: printf_conv.simps)
  next
    case 7
    then obtain bv where bv: "args = PaBerval bv # args'" "t' = LBER_DEFAULT"
        "case bv of None \<Rightarrow> w' = w \<and> k = 0 | Some s \<Rightarrow> length s < 2 ^ 64 \<and> w' = w_each t [s] w \<and> k = each_cost [s]"
      using c by (auto simp: w_conv.simps split: list.splits printf_arg.splits option.splits if_splits)
    show ?thesis
    proof (cases bv)
      case None
      then show ?thesis using 7 bv nop by (intro fin [of "(rc, ber)"]) (simp_all add: printf_conv.simps)
    next
      case (Some s)
      then show ?thesis using 7 bv ostring_conv_ok [OF w _ t, of s ma] t
        by (intro fin) (simp_all add: printf_conv.simps berval_ostring)
    qed
  next
    case 8
    then obtain s where "args = PaString s # args'" "w' = w_each t [c_string s] w" "t' = LBER_DEFAULT"
        "k = each_cost [c_string s]" "length (c_string s) < 2 ^ 64"
      using c by (auto simp: w_conv.simps split: list.splits printf_arg.splits if_splits)
    then show ?thesis using 8 ostring_conv_ok [OF w _ t] t by (intro fin) (simp_all add: printf_conv.simps ber_put_string_def)
  next
    case 9
    then obtain u where "args = PaTag u # args'" "w' = w" "t' = u" "k = 0"
      using c by (auto simp: w_conv.simps split: list.splits printf_arg.splits)
    then show ?thesis using 9 nop
      by (intro exI [of _ rc] exI [of _ "ber\<lparr>ber_tag := u\<rparr>"] exI [of _ True]) (simp add: printf_conv.simps conv_ok_def)
  next
    case 10
    then obtain ss where ss: "args = PaStrings ss # args'" "t' = LBER_DEFAULT"
        "case ss of None \<Rightarrow> w' = w \<and> k = 0 | Some l \<Rightarrow> (\<forall>s\<in>set l. length (c_string s) < 2 ^ 64)
           \<and> w' = w_each t (map c_string l) w \<and> k = each_cost (map c_string l)"
      using c by (auto simp: w_conv.simps split: list.splits printf_arg.splits option.splits if_splits)
    show ?thesis
    proof (cases ss)
      case None
      then show ?thesis using 10 ss nop by (intro fin [of "(rc, ber)"]) (simp_all add: printf_conv.simps)
    next
      case (Some l)
      then show ?thesis using 10 ss each [of "\<lambda>b s. ber_put_string ma b s (ber_tag b)" c_string l]
        by (intro fin) (simp_all add: printf_conv.simps ber_put_string_def)
    qed
  next
    case 11
    then have "w_conv (ber_der ber) c args w t =
        (case args of PaBervals bs # r \<Rightarrow>
           (case bs of None \<Rightarrow> Some (w, LBER_DEFAULT, 0, r)
            | Some l \<Rightarrow> if \<forall>s\<in>set l. length s < 2 ^ 64
                then Some (w_each t l w, LBER_DEFAULT, each_cost l, r) else None)
         | _ \<Rightarrow> None)"
      by (elim disjE) (simp_all add: w_conv.simps)
    then obtain bs where bs: "args = PaBervals bs # args'" "t' = LBER_DEFAULT"
        "case bs of None \<Rightarrow> w' = w \<and> k = 0 | Some l \<Rightarrow> (\<forall>s\<in>set l. length s < 2 ^ 64)
           \<and> w' = w_each t l w \<and> k = each_cost l"
      using c by (auto split: list.splits printf_arg.splits option.splits if_splits)
    show ?thesis
    proof (cases bs)
      case None
      have "printf_conv ma c rc ber args = Some (rc, ber, False, args')"
        using 11 unfolding bs(1) None by (elim disjE) (simp_all add: printf_conv.simps)
      then show ?thesis using bs None nop by (intro fin [of "(rc, ber)"]) simp_all
    next
      case (Some l)
      have "printf_conv ma c rc ber args = (case put_each (\<lambda>b s. ber_put_berval ma b (Some s) (ber_tag b)) rc ber l of
          (rc', b) \<Rightarrow> Some (rc', b, False, args'))"
        using 11 unfolding bs(1) Some by (elim disjE) (simp_all add: printf_conv.simps)
      then show ?thesis using bs Some each [of "\<lambda>b s. ber_put_berval ma b (Some s) (ber_tag b)" "\<lambda>s. s" l]
        by (intro fin) (simp_all add: berval_ostring)
    qed
  next
    case 12
    then have "w' = w_open (tag_or LBER_SEQUENCE t) w" "t' = LBER_DEFAULT" "k = 4074" "args' = args"
      using c by (simp_all add: w_conv.simps)
    then show ?thesis using 12 open_conv_ok [OF w, of ma "tag_or LBER_SEQUENCE t"] t
      by (intro fin [of "ber_start_seqorset ma ber (tag_or LBER_SEQUENCE t)"])
        (simp_all add: printf_conv.simps ber_start_seq_def tag_or_def)
  next
    case 13
    then have "w' = w_open (tag_or LBER_SET t) w" "t' = LBER_DEFAULT" "k = 4074" "args' = args"
      using c by (simp_all add: w_conv.simps)
    then show ?thesis using 13 open_conv_ok [OF w, of ma "tag_or LBER_SET t"] t
      by (intro fin [of "ber_start_seqorset ma ber (tag_or LBER_SET t)"])
        (simp_all add: printf_conv.simps ber_start_set_def tag_or_def)
  next
    case 14
    then have "snd w \<noteq> []" "w' = w_close (ber_der ber) w" "t' = LBER_DEFAULT" "k = 4061" "args' = args"
      using c by (elim disjE; simp add: w_conv.simps split: if_splits)+
    moreover have "printf_conv ma c rc ber args = (case ber_put_seqorset ber of (rc', b) \<Rightarrow> Some (rc', b, False, args))"
      using 14 by (elim disjE) (simp_all add: printf_conv.simps)
    ultimately show ?thesis using close_conv_ok [OF w] by (intro fin) simp_all
  qed
qed

text \<open>A whole format.\<close>

lemma w_run_sim:
  assumes "w_run (ber_der ber) fmt args w t = Some (w', k)" and "ber_writes ber w" and "ber_tag ber = t" and "0 \<le> rc"
  shows "leaves ma k ber w' (ber_printf_loop ma rc ber fmt args)"
  using assms
proof (induction fmt arbitrary: ber args w t k rc)
  case Nil
  then show ?case by (auto simp: leaves_def at_writer_def split: if_splits)
next
  case (Cons c fmt)
  obtain w1 t1 k1 args1 j where 1: "w_conv (ber_der ber) c args w t = Some (w1, t1, k1, args1)"
      "w_run (ber_der ber) fmt args1 w1 t1 = Some (w', j)" "k = k1 + j"
    using Cons.prems(1) by (auto split: option.splits)
  obtain rc' b keep where 2: "printf_conv ma c rc ber args = Some (rc', b, keep, args1)" "conv_ok ma k1 ber w1 (rc', b)"
      "ber_tag (if keep then b else b\<lparr>ber_tag := LBER_DEFAULT\<rparr>) = t1"
    using w_conv_sim [OF 1(1) Cons.prems(2-4)] by blast
  let ?b = "if keep then b else b\<lparr>ber_tag := LBER_DEFAULT\<rparr>"
  have r: "ber_printf_loop ma rc ber (c # fmt) args = ber_printf_loop ma rc' ?b fmt args1"
    using 2(1) Cons.prems(4) by simp
  show ?case
  proof (cases "rc' = -1")
    case True
    then show ?thesis using 2(2) 1(3) unfolding r by (auto simp: leaves_def conv_ok_def affordable_def)
  next
    case False
    then have b: "ber_writes ?b w1" "ber_options ?b = ber_options ber" "ber_end ?b \<le> ber_end ber + k1" and rc': "0 \<le> rc'"
      using 2(2) by (auto simp: conv_ok_def)
    have "leaves ma j ?b w' (ber_printf_loop ma rc' ?b fmt args1)"
      using Cons.IH [of ?b args1 w1 t1 j rc'] 1(2) b(1) 2(3) rc' ber_der_cong [OF b(2)] by simp
    then show ?thesis unfolding r by (rule leaves_charge [OF _ b(2)]) (use b(3) 1(3) in simp)
  qed
qed

lemma ber_printf_leaves:
  assumes "w_run (ber_der ber) fmt args w LBER_DEFAULT = Some (w', k)" and "at_writer ber w"
  shows "leaves ma k ber w' (ber_printf ma ber fmt args)"
  using w_run_sim [OF assms(1)] assms(2) by (simp add: ber_printf_def at_writer_def)

section \<open>Writing elements\<close>

text \<open>The outcome of writing one element.\<close>

definition writes_item :: "allocator \<Rightarrow> berelement \<Rightarrow> writer \<Rightarrow> ber_item \<Rightarrow> (int \<times> berelement) option \<Rightarrow> bool" where
  "writes_item ma ber w it r \<longleftrightarrow> leaves ma (item_cost it) ber (w_put (item_enc (ber_der ber) it) w) r"

lemma w_close_open [simp]:
  "w_close der (w_put x (w_open t w)) = w_put (seq_tlv der t x) w" "snd (w_put x (w_open t w)) \<noteq> []"
  "w_close der (w_open t w) = w_put (seq_tlv der t []) w" "snd (w_open t w) \<noteq> []"
  by (cases w; simp)+

lemma each_cost_simps [simp]: "each_cost [s] = length s + 8135"
  by (simp add: each_cost_def)

lemma w_each_one [simp]: "w_each t [s] w = w_put (tlv (tag_or LBER_OCTETSTRING t) s) w"
  by (simp add: w_each_def)

lemmas format_run = w_conv.simps tag_or_def

lemma leaves_then_done: "leaves ma k ber w r \<Longrightarrow> leaves ma k ber w (on_ok r (\<lambda>ber. Some (0, ber)))"
  by (auto simp: leaves_def on_ok_def)

text \<open>The single elements that the encoders write with one call.\<close>

lemma put_string_item:
  assumes "at_writer ber w" and "c_string s = s" and "length s < 2 ^ 64" and "t \<noteq> LBER_DEFAULT"
  shows "writes_item ma ber w (BOctets t s) (ber_printf ma ber ''ts'' [PaTag t, PaString s])"
  unfolding writes_item_def
  by (rule ber_printf_leaves [OF _ assms(1)]) (use assms in \<open>simp add: format_run\<close>)

lemma put_octets_item:
  assumes "at_writer ber w" and "length s < 2 ^ 64"
  shows "writes_item ma ber w (BOctets t s) (ber_printf ma ber ''to'' [PaTag t, PaOctets s])"
  unfolding writes_item_def
  by (rule ber_printf_leaves [OF _ assms(1)]) (use assms in \<open>simp add: format_run\<close>)

lemma put_bool_item:
  assumes "at_writer ber w"
  shows "writes_item ma ber w (BBool t v) (ber_printf ma ber ''tb'' [PaTag t, PaInt v])"
  unfolding writes_item_def
  by (rule ber_printf_leaves [OF _ assms(1)]) (simp add: format_run)

lemma writes_item_done: "writes_item ma ber w it r \<Longrightarrow> writes_item ma ber w it (on_ok r (\<lambda>ber. Some (0, ber)))"
  unfolding writes_item_def by (rule leaves_then_done)

text \<open>A list of elements, written one after the other.\<close>

definition writes_items ::
  "allocator \<Rightarrow> berelement \<Rightarrow> writer \<Rightarrow> ber_item list \<Rightarrow> (int \<times> berelement) option \<Rightarrow> bool" where
  "writes_items ma ber w its r \<longleftrightarrow>
     leaves ma (sum_list (map item_cost its)) ber (w_put (concat (map (item_enc (ber_der ber)) its)) w) r"

lemma writes_items_Nil: "at_writer ber w \<Longrightarrow> 0 \<le> rc \<Longrightarrow> writes_items ma ber w [] (Some (rc, ber))"
  by (simp add: writes_items_def leaves_def)

lemma writes_items_one: "writes_items ma ber w [it] r \<longleftrightarrow> writes_item ma ber w it r"
  by (simp add: writes_items_def writes_item_def)

lemma writes_items_append:
  assumes "writes_items ma ber w is r"
    and "\<And>b. at_writer b (w_put (concat (map (item_enc (ber_der ber)) is)) w) \<Longrightarrow> ber_options b = ber_options ber \<Longrightarrow>
       writes_items ma b (w_put (concat (map (item_enc (ber_der ber)) is)) w) js (f b)"
  shows "writes_items ma ber w (is @ js) (on_ok r f)"
  unfolding writes_items_def map_append sum_list_append concat_append
proof (rule leaves_on_ok)
  show "leaves ma (sum_list (map item_cost is)) ber (w_put (concat (map (item_enc (ber_der ber)) is)) w) r"
    using assms(1) by (simp add: writes_items_def)
  fix b assume b: "at_writer b (w_put (concat (map (item_enc (ber_der ber)) is)) w)" "ber_options b = ber_options ber"
  show "leaves ma (sum_list (map item_cost js)) b
      (w_put (concat (map (item_enc (ber_der ber)) is) @ concat (map (item_enc (ber_der ber)) js)) w) (f b)"
    using assms(2) [OF b] by (simp add: writes_items_def ber_der_cong [OF b(2)])
qed

text \<open>A bracket around a list of elements: opening, contents, closing.\<close>

lemma writes_bracket:
  assumes w: "at_writer ber w" and o: "leaves ma 4074 ber (w_open t' w) r"
    and t: "t' = tag_or LBER_SEQUENCE t"
    and body: "\<And>b. at_writer b (w_open t' w) \<Longrightarrow> ber_options b = ber_options ber \<Longrightarrow> writes_items ma b (w_open t' w) its (f b)"
    and cl: "\<And>b x. at_writer b (w_put x (w_open t' w)) \<Longrightarrow> ber_options b = ber_options ber \<Longrightarrow>
       leaves ma 4061 b (w_put (seq_tlv (ber_der ber) t' x) w) (g b)"
  shows "writes_item ma ber w (BSeq t its) (on_ok r (\<lambda>b. on_ok (f b) g))"
proof -
  let ?x = "concat (map (item_enc (ber_der ber)) its)"
  have "leaves ma (4074 + (sum_list (map item_cost its) + 4061)) ber (w_put (seq_tlv (ber_der ber) t' ?x) w)
      (on_ok r (\<lambda>b. on_ok (f b) g))"
  proof (rule leaves_on_ok [OF o])
    fix b assume b: "at_writer b (w_open t' w)" "ber_options b = ber_options ber"
    show "leaves ma (sum_list (map item_cost its) + 4061) b (w_put (seq_tlv (ber_der ber) t' ?x) w) (on_ok (f b) g)"
    proof (rule leaves_on_ok)
      show "leaves ma (sum_list (map item_cost its)) b (w_put ?x (w_open t' w)) (f b)"
        using body [OF b] by (simp add: writes_items_def ber_der_cong [OF b(2)])
      fix c assume "at_writer c (w_put ?x (w_open t' w))" "ber_options c = ber_options b"
      then show "leaves ma 4061 c (w_put (seq_tlv (ber_der ber) t' ?x) w) (g c)" using cl b(2) by simp
    qed
  qed
  then show ?thesis by (simp add: writes_item_def t)
qed

text \<open>Opening with a tag of its own, and closing.\<close>

lemma open_leaves:
  "at_writer ber w \<Longrightarrow> t \<noteq> LBER_DEFAULT \<Longrightarrow> leaves ma 4074 ber (w_open t w) (ber_printf ma ber ''t{'' [PaTag t])"
  by (erule ber_printf_leaves [rotated]) (simp add: format_run)

lemma close_leaves:
  "at_writer ber (w_put x (w_open t w)) \<Longrightarrow>
     leaves ma 4061 ber (w_put (seq_tlv (ber_der ber) t x) w) (ber_printf ma ber ''N}'' [])"
  by (erule ber_printf_leaves [rotated]) (simp add: format_run)

lemma writes_tagged:
  assumes w: "at_writer ber w" and t: "t \<noteq> LBER_DEFAULT"
    and body: "\<And>b. at_writer b (w_open t w) \<Longrightarrow> ber_options b = ber_options ber \<Longrightarrow> writes_items ma b (w_open t w) its (f b)"
  shows "writes_item ma ber w (BSeq t its)
           (on_ok (ber_printf ma ber ''t{'' [PaTag t]) (\<lambda>b. on_ok (f b) (\<lambda>b. ber_printf ma b ''N}'' [])))"
proof (rule writes_bracket [OF w open_leaves [OF w t] _ body])
  show "t = tag_or LBER_SEQUENCE t" using t by (simp add: tag_or_def)
  fix b x assume "at_writer b (w_put x (w_open t w))" "ber_options b = ber_options ber"
  then show "leaves ma 4061 b (w_put (seq_tlv (ber_der ber) t x) w) (ber_printf ma b ''N}'' [])"
    using close_leaves ber_der_cong by metis
qed

end
