(* ===== verification/Avl.thy ===== *)
theory Avl
  imports Ldap_Prelude
begin

text \<open>
  The AVL trees of \<^verbatim>\<open>liblutil/avl.c\<close>.  Every node is owned by its parent, so a tree is a
  datatype and the pointers that the code keeps into it (the parent stack of
  \<^verbatim>\<open>avl_delete\<close>, the nodes \<^verbatim>\<open>s\<close> and \<^verbatim>\<open>t\<close> of \<^verbatim>\<open>avl_insert\<close>) are positions on the path from
  the root, kept as a list of the nodes passed, each without the child on the path.
  \<^verbatim>\<open>avl_link[0]\<close> and \<^verbatim>\<open>avl_link[1]\<close> are the left and right subtree; a direction is a bool.
  The callers' functions (\<^verbatim>\<open>AVL_CMP\<close>, \<^verbatim>\<open>AVL_DUP\<close>, \<^verbatim>\<open>AVL_APPLY\<close>, \<^verbatim>\<open>AVL_FREE\<close>) are arguments.
\<close>

section \<open>Nodes\<close>

datatype 'a avlnode =
    Null
  | Node (avl_left: "'a avlnode") (avl_data: 'a) (avl_bf: int) (avl_right: "'a avlnode")

abbreviation (input) LH :: int where "LH \<equiv> - 1"
abbreviation (input) EH :: int where "EH \<equiv> 0"
abbreviation (input) RH :: int where "RH \<equiv> 1"

definition avl_bfs :: "bool \<Rightarrow> int" where
  "avl_bfs side = (if side then RH else LH)"

fun avl_link :: "bool \<Rightarrow> 'a avlnode \<Rightarrow> 'a avlnode" where
  "avl_link side Null = Null"
| "avl_link side (Node l x bf r) = (if side then r else l)"

text \<open>The node with \<open>a\<close> at \<^verbatim>\<open>avl_link[side]\<close> and \<open>b\<close> on the other side.\<close>

definition avl_node :: "bool \<Rightarrow> 'a avlnode \<Rightarrow> 'a \<Rightarrow> int \<Rightarrow> 'a avlnode \<Rightarrow> 'a avlnode" where
  "avl_node side a x bf b = (if side then Node b x bf a else Node a x bf b)"

text \<open>A node on the path from the root: the direction taken, its data, its balance, its other subtree.\<close>

record 'a avlstep =
  st_side :: bool
  st_data :: 'a
  st_bf :: int
  st_other :: "'a avlnode"

definition st_link :: "'a avlstep \<Rightarrow> 'a avlnode \<Rightarrow> 'a avlnode" where
  "st_link f t = avl_node (st_side f) t (st_data f) (st_bf f) (st_other f)"

text \<open>The whole tree above a subtree; the innermost step is the head.\<close>

fun relink :: "'a avlstep list \<Rightarrow> 'a avlnode \<Rightarrow> 'a avlnode" where
  "relink [] t = t"
| "relink (f # fs) t = relink fs (st_link f t)"

section \<open>Insertion\<close>

text \<open>
  The search loop: the path to the NULL link where the node goes, or the node that compares
  equal.
\<close>

fun avl_descend ::
  "('a \<Rightarrow> 'a \<Rightarrow> int) \<Rightarrow> 'a \<Rightarrow> 'a avlstep list \<Rightarrow> 'a avlnode \<Rightarrow> 'a avlstep list \<times> 'a avlnode" where
  "avl_descend fcmp data path Null = (path, Null)"
| "avl_descend fcmp data path (Node l x bf r) =
     (let cmp = fcmp data x
      in if cmp = 0 then (path, Node l x bf r)
         else if cmp > 0
         then avl_descend fcmp data (\<lparr>st_side = True, st_data = x, st_bf = bf, st_other = l\<rparr> # path) r
         else avl_descend fcmp data (\<lparr>st_side = False, st_data = x, st_bf = bf, st_other = r\<rparr> # path) l)"

text \<open>
  The node \<^verbatim>\<open>s\<close>: the last one on the path with a balance factor other than EH, or else the
  root.  The steps below it, \<^verbatim>\<open>s\<close>, and the steps above it.
\<close>

fun split_at_s :: "'a avlstep \<Rightarrow> 'a avlstep list \<Rightarrow> 'a avlstep list \<times> 'a avlstep \<times> 'a avlstep list" where
  "split_at_s f [] = ([], f, [])"
| "split_at_s f (g # fs) =
     (if st_bf f \<noteq> EH then ([], f, g # fs)
      else case split_at_s g fs of (below, s, up) \<Rightarrow> (f # below, s, up))"

text \<open>Adjusting the balance factors of the nodes between \<^verbatim>\<open>s\<close> and the new node.\<close>

fun adjust_bfs :: "'a avlstep list \<Rightarrow> 'a avlnode \<Rightarrow> 'a avlnode" where
  "adjust_bfs [] q = q"
| "adjust_bfs (f # fs) q = adjust_bfs fs (st_link (f\<lparr>st_bf := avl_bfs (st_side f)\<rparr>) q)"

text \<open>
  Checks and balances at \<^verbatim>\<open>s\<close>, with \<^verbatim>\<open>r\<close> its subtree on the path: what \<^verbatim>\<open>s\<close>'s parent links to
  afterwards.  \<open>q\<close> is the new node, which \<^verbatim>\<open>p\<close> still points to when neither rotation applies.
\<close>

definition insert_balance :: "'a avlstep \<Rightarrow> 'a avlnode \<Rightarrow> 'a avlnode \<Rightarrow> 'a avlnode" where
  "insert_balance s r q =
     (let cmp = st_side s; ncmp = (\<not> cmp); a = avl_bfs cmp
      in if st_bf s = EH then st_link (s\<lparr>st_bf := a\<rparr>) r
         else if st_bf s = - a then st_link (s\<lparr>st_bf := EH\<rparr>) r
         else if st_bf s = a then
           (if avl_bf r = a then
              avl_node ncmp (avl_node cmp (avl_link ncmp r) (st_data s) 0 (st_other s))
                (avl_data r) 0 (avl_link cmp r)
            else if avl_bf r = - a then
              (let p = avl_link ncmp r;
                   (sbf, rbf) = (if avl_bf p = a then (- a, 0) else if avl_bf p = - a then (0, a) else (0, 0));
                   r' = avl_node ncmp (avl_link cmp p) (avl_data r) rbf (avl_link cmp r);
                   s' = avl_node cmp (avl_link ncmp p) (st_data s) sbf (st_other s)
               in avl_node cmp r' (avl_data p) 0 s')
            else q)
         else st_link s r)"

text \<open>The return code and the tree.  A node takes 32 octets.\<close>

definition avl_insert ::
  "allocator \<Rightarrow> 'a avlnode \<Rightarrow> 'a \<Rightarrow> ('a \<Rightarrow> 'a \<Rightarrow> int) \<Rightarrow> ('a \<Rightarrow> 'a \<Rightarrow> int) \<Rightarrow> int \<times> 'a avlnode" where
  "avl_insert ma root data fcmp fdup =
     (let q = Node Null data EH Null
      in if root = Null then (if ma 32 then (0, q) else (-1, root))
         else case avl_descend fcmp data [] root of
                (path, Node l x bf r) \<Rightarrow> (fdup x data, root)
              | ([], Null) \<Rightarrow> (0, q)
              | (f # fs, Null) \<Rightarrow>
                  if \<not> ma 32 then (-1, root)
                  else case split_at_s f fs of (below, s, up) \<Rightarrow>
                         (0, relink up (insert_balance s (adjust_bfs below q) q)))"

section \<open>Deletion\<close>

text \<open>The walk to the immediate predecessor: its data, its left subtree and the steps passed.\<close>

fun avl_predecessor ::
  "'a avlstep list \<Rightarrow> 'a avlnode \<Rightarrow> 'a \<Rightarrow> int \<Rightarrow> 'a avlnode \<Rightarrow> 'a \<times> 'a avlnode \<times> 'a avlstep list" where
  "avl_predecessor path l x bf Null = (x, l, path)"
| "avl_predecessor path l x bf (Node l' x' bf' r') =
     avl_predecessor (\<lparr>st_side = True, st_data = x, st_bf = bf, st_other = l\<rparr> # path) l' x' bf' r'"

text \<open>
  One round of the loop \<^verbatim>\<open>while ( shorter )\<close>: step \<open>f\<close> whose subtree \<open>t\<close> on the path became
  shorter; the subtree that replaces the node and whether it is shorter in turn.
\<close>

definition delete_balance :: "'a avlstep \<Rightarrow> 'a avlnode \<Rightarrow> 'a avlnode \<times> bool" where
  "delete_balance f t =
     (let side = st_side f; nside = (\<not> side); side_bf = avl_bfs side; q = st_other f
      in if st_bf f = EH then (st_link (f\<lparr>st_bf := avl_bfs nside\<rparr>) t, False)
         else if st_bf f = side_bf then (st_link (f\<lparr>st_bf := EH\<rparr>) t, True)
         else if avl_bf q = EH then
           (avl_node side (avl_node side t (st_data f) (- side_bf) (avl_link side q))
              (avl_data q) side_bf (avl_link nside q), False)
         else if avl_bf q = st_bf f then
           (avl_node side (avl_node side t (st_data f) EH (avl_link side q))
              (avl_data q) EH (avl_link nside q), True)
         else
           let r = avl_link side q;
               (qbf, pbf) = (if avl_bf r = side_bf then (- side_bf, EH)
                             else if avl_bf r = - side_bf then (EH, side_bf) else (EH, EH));
               q' = avl_node side (avl_link nside r) (avl_data q) qbf (avl_link nside q);
               p' = avl_node side t (st_data f) pbf (avl_link side r)
           in (avl_node side p' (avl_data r) EH q', True))"

fun delete_loop :: "'a avlstep list \<Rightarrow> 'a avlnode \<Rightarrow> 'a avlnode" where
  "delete_loop [] t = t"
| "delete_loop (f # fs) t =
     (case delete_balance f t of (t', shorter) \<Rightarrow> if shorter then delete_loop fs t' else relink fs t')"

text \<open>
  The path to the node that is finally freed, and the subtree that takes its place.  A node
  with two children first changes places with its predecessor.
\<close>

fun delete_target ::
  "'a avlstep list \<Rightarrow> 'a avlnode \<Rightarrow> int \<Rightarrow> 'a avlnode \<Rightarrow> 'a avlstep list \<times> 'a avlnode" where
  "delete_target path Null bf r = (path, r)"
| "delete_target path (Node ll y ybf lr) bf r =
     (if r \<noteq> Null then
        (case avl_predecessor [] ll y ybf lr of (q, ql, steps) \<Rightarrow>
           (steps @ \<lparr>st_side = False, st_data = q, st_bf = bf, st_other = r\<rparr> # path, ql))
      else (path, Node ll y ybf lr))"

text \<open>The data of the deleted node, \<open>None\<close> for NULL, and the tree.\<close>

definition avl_delete :: "'a avlnode \<Rightarrow> 'a \<Rightarrow> ('a \<Rightarrow> 'a \<Rightarrow> int) \<Rightarrow> 'a option \<times> 'a avlnode" where
  "avl_delete root data fcmp =
     (case avl_descend fcmp data [] root of
        (path, Null) \<Rightarrow> (None, root)
      | (path, Node l x bf r) \<Rightarrow>
          (case delete_target path l bf r of (steps, q) \<Rightarrow> (Some x, delete_loop steps q)))"

abbreviation (input) MAX_TREE_DEPTH :: nat where "MAX_TREE_DEPTH \<equiv> 64"

text \<open>The number of entries that \<^verbatim>\<open>avl_delete\<close> pushes on its parent stack.\<close>

definition delete_depth :: "'a avlnode \<Rightarrow> 'a \<Rightarrow> ('a \<Rightarrow> 'a \<Rightarrow> int) \<Rightarrow> nat" where
  "delete_depth root data fcmp =
     (case avl_descend fcmp data [] root of
        (path, Null) \<Rightarrow> length path
      | (path, Node l x bf r) \<Rightarrow> length (fst (delete_target path l bf r)))"

section \<open>Lookup\<close>

fun avl_find2 :: "'a avlnode \<Rightarrow> 'a \<Rightarrow> ('a \<Rightarrow> 'a \<Rightarrow> int) \<Rightarrow> 'a avlnode" where
  "avl_find2 Null data fcmp = Null"
| "avl_find2 (Node l x bf r) data fcmp =
     (let cmp = fcmp data x
      in if cmp \<noteq> 0 then avl_find2 (if cmp > 0 then r else l) data fcmp else Node l x bf r)"

fun avl_find :: "'a avlnode \<Rightarrow> 'a \<Rightarrow> ('a \<Rightarrow> 'a \<Rightarrow> int) \<Rightarrow> 'a option" where
  "avl_find Null data fcmp = None"
| "avl_find (Node l x bf r) data fcmp =
     (let cmp = fcmp data x
      in if cmp \<noteq> 0 then avl_find (if cmp > 0 then r else l) data fcmp else Some x)"

fun avl_find_lin :: "'a avlnode \<Rightarrow> 'a \<Rightarrow> ('a \<Rightarrow> 'a \<Rightarrow> int) \<Rightarrow> 'a option" where
  "avl_find_lin Null data fcmp = None"
| "avl_find_lin (Node l x bf r) data fcmp =
     (if fcmp data x = 0 then Some x
      else case avl_find_lin l data fcmp of
             Some y \<Rightarrow> Some y
           | None \<Rightarrow> avl_find_lin r data fcmp)"

section \<open>Traversal\<close>

text \<open>A callback reads and updates the caller's state behind \<^verbatim>\<open>arg\<close>.\<close>

abbreviation (input) AVL_NOMORE :: int where "AVL_NOMORE \<equiv> - 6"

fun avl_inapply :: "'a avlnode \<Rightarrow> ('a \<Rightarrow> 's \<Rightarrow> int \<times> 's) \<Rightarrow> int \<Rightarrow> 's \<Rightarrow> int \<times> 's" where
  "avl_inapply Null fn stopflag arg = (AVL_NOMORE, arg)"
| "avl_inapply (Node l x bf r) fn stopflag arg =
     (case (if l \<noteq> Null then avl_inapply l fn stopflag arg else (stopflag + 1, arg)) of (rc, arg1) \<Rightarrow>
        if l \<noteq> Null \<and> rc = stopflag then (stopflag, arg1)
        else case fn x arg1 of (rc2, arg2) \<Rightarrow>
               if rc2 = stopflag then (stopflag, arg2)
               else if r = Null then (AVL_NOMORE, arg2)
               else avl_inapply r fn stopflag arg2)"

fun avl_postapply :: "'a avlnode \<Rightarrow> ('a \<Rightarrow> 's \<Rightarrow> int \<times> 's) \<Rightarrow> int \<Rightarrow> 's \<Rightarrow> int \<times> 's" where
  "avl_postapply Null fn stopflag arg = (AVL_NOMORE, arg)"
| "avl_postapply (Node l x bf r) fn stopflag arg =
     (case (if l \<noteq> Null then avl_postapply l fn stopflag arg else (stopflag + 1, arg)) of (rc, arg1) \<Rightarrow>
        if l \<noteq> Null \<and> rc = stopflag then (stopflag, arg1)
        else case (if r \<noteq> Null then avl_postapply r fn stopflag arg1 else (stopflag + 1, arg1)) of (rc2, arg2) \<Rightarrow>
               if r \<noteq> Null \<and> rc2 = stopflag then (stopflag, arg2)
               else fn x arg2)"

fun avl_preapply :: "'a avlnode \<Rightarrow> ('a \<Rightarrow> 's \<Rightarrow> int \<times> 's) \<Rightarrow> int \<Rightarrow> 's \<Rightarrow> int \<times> 's" where
  "avl_preapply Null fn stopflag arg = (AVL_NOMORE, arg)"
| "avl_preapply (Node l x bf r) fn stopflag arg =
     (case fn x arg of (rc, arg1) \<Rightarrow>
        if rc = stopflag then (stopflag, arg1)
        else case (if l \<noteq> Null then avl_preapply l fn stopflag arg1 else (stopflag + 1, arg1)) of (rc2, arg2) \<Rightarrow>
               if l \<noteq> Null \<and> rc2 = stopflag then (stopflag, arg2)
               else if r = Null then (AVL_NOMORE, arg2)
               else avl_preapply r fn stopflag arg2)"

definition avl_apply :: "'a avlnode \<Rightarrow> ('a \<Rightarrow> 's \<Rightarrow> int \<times> 's) \<Rightarrow> 's \<Rightarrow> int \<Rightarrow> int \<Rightarrow> int \<times> 's" where
  "avl_apply root fn arg stopflag type =
     (if type = 2 then avl_inapply root fn stopflag arg
      else if type = 1 then avl_preapply root fn stopflag arg
      else if type = 3 then avl_postapply root fn stopflag arg
      else (-1, arg))"

fun avl_prefixapply ::
  "'a avlnode \<Rightarrow> 'b \<Rightarrow> ('a \<Rightarrow> 's \<Rightarrow> int \<times> 's) \<Rightarrow> ('b \<Rightarrow> 'a \<Rightarrow> int) \<Rightarrow> int \<Rightarrow> 's \<Rightarrow> int \<times> 's" where
  "avl_prefixapply Null data fmatch fcmp stopflag marg = (AVL_NOMORE, marg)"
| "avl_prefixapply (Node l x bf r) data fmatch fcmp stopflag marg =
     (let cmp = fcmp data x
      in if cmp = 0 then
           (case fmatch x marg of (rc, marg1) \<Rightarrow>
              if rc = stopflag then (stopflag, marg1)
              else case (if l \<noteq> Null then avl_prefixapply l data fmatch fcmp stopflag marg1 else (stopflag + 1, marg1)) of
                     (rc2, marg2) \<Rightarrow>
                       if l \<noteq> Null \<and> rc2 = stopflag then (stopflag, marg2)
                       else if r \<noteq> Null then avl_prefixapply r data fmatch fcmp stopflag marg2
                       else (AVL_NOMORE, marg2))
         else if cmp < 0 then
           (if l \<noteq> Null then avl_prefixapply l data fmatch fcmp stopflag marg else (AVL_NOMORE, marg))
         else
           (if r \<noteq> Null then avl_prefixapply r data fmatch fcmp stopflag marg else (AVL_NOMORE, marg)))"

text \<open>\<^verbatim>\<open>avl_free\<close>: the number of nodes freed, and the data handed to \<^verbatim>\<open>dfree\<close>, in that order.\<close>

fun avl_free :: "'a avlnode \<Rightarrow> int \<times> 'a list" where
  "avl_free Null = (0, [])"
| "avl_free (Node l x bf r) =
     (case avl_free l of (nleft, ds) \<Rightarrow> case avl_free r of (nright, es) \<Rightarrow>
        (nleft + nright + 1, ds @ es @ [x]))"

text \<open>
  The non-reentrant interface: the static variables, and the list built by an in-order
  traversal with \<^verbatim>\<open>avl_buildlist\<close>.  \<^verbatim>\<open>avl_maxlist\<close> is the length of the list.
\<close>

record 'a avlstatic =
  avl_list :: "'a list option"
  avl_nextlist :: nat

definition avl_buildlist :: "'a \<Rightarrow> 'a list option \<Rightarrow> int \<times> 'a list option" where
  "avl_buildlist data lst = (0, Some ((case lst of None \<Rightarrow> [] | Some xs \<Rightarrow> xs) @ [data]))"

definition avl_getfirst :: "'a avlnode \<Rightarrow> 'a option \<times> 'a avlstatic" where
  "avl_getfirst root =
     (if root = Null then (None, \<lparr>avl_list = None, avl_nextlist = 0\<rparr>)
      else case avl_apply root avl_buildlist None (-1) 2 of (rc, lst) \<Rightarrow>
             (case lst of
                None \<Rightarrow> (None, \<lparr>avl_list = None, avl_nextlist = 0\<rparr>)
              | Some xs \<Rightarrow> (Some (xs ! 0), \<lparr>avl_list = Some xs, avl_nextlist = 1\<rparr>)))"

definition avl_getnext :: "'a avlstatic \<Rightarrow> 'a option \<times> 'a avlstatic" where
  "avl_getnext st =
     (case avl_list st of
        None \<Rightarrow> (None, st)
      | Some xs \<Rightarrow>
          if avl_nextlist st = length xs then (None, st\<lparr>avl_list := None\<rparr>)
          else (Some (xs ! avl_nextlist st), st\<lparr>avl_nextlist := Suc (avl_nextlist st)\<rparr>))"

definition avl_dup_error :: "'a \<Rightarrow> 'a \<Rightarrow> int" where
  "avl_dup_error l r = -1"

definition avl_dup_ok :: "'a \<Rightarrow> 'a \<Rightarrow> int" where
  "avl_dup_ok l r = 0"

end
