(* ===== verification/Avl_Balance.thy ===== *)
theory Avl_Balance
  imports Avl
begin

text \<open>
  The balance invariant of the AVL trees: every stored balance factor is the difference of the
  heights of the two subtrees and is LH, EH or RH; insertion and deletion preserve it.
\<close>

section \<open>Invariant\<close>

fun avl_height :: "'a avlnode \<Rightarrow> nat" where
  "avl_height Null = 0"
| "avl_height (Node l x bf r) = Suc (max (avl_height l) (avl_height r))"

fun avl_ok :: "'a avlnode \<Rightarrow> bool" where
  "avl_ok Null = True"
| "avl_ok (Node l x bf r) =
     (bf = int (avl_height r) - int (avl_height l) \<and> \<bar>bf\<bar> \<le> 1 \<and> avl_ok l \<and> avl_ok r)"

fun inorder :: "'a avlnode \<Rightarrow> 'a list" where
  "inorder Null = []"
| "inorder (Node l x bf r) = inorder l @ x # inorder r"

text \<open>A step of the path whose missing subtree has height \<open>h\<close>.\<close>

definition st_ok :: "'a avlstep \<Rightarrow> nat \<Rightarrow> bool" where
  "st_ok f h \<longleftrightarrow> avl_ok (st_other f) \<and> \<bar>st_bf f\<bar> \<le> 1
     \<and> st_bf f = avl_bfs (st_side f) * (int h - int (avl_height (st_other f)))"

definition st_height :: "'a avlstep \<Rightarrow> nat \<Rightarrow> nat" where
  "st_height f h = Suc (max h (avl_height (st_other f)))"

fun path_ok :: "'a avlstep list \<Rightarrow> nat \<Rightarrow> bool" where
  "path_ok [] h = True"
| "path_ok (f # fs) h = (st_ok f h \<and> path_ok fs (st_height f h))"

fun path_height :: "'a avlstep list \<Rightarrow> nat \<Rightarrow> nat" where
  "path_height [] h = h"
| "path_height (f # fs) h = path_height fs (st_height f h)"

fun path_left :: "'a avlstep list \<Rightarrow> 'a list" where
  "path_left [] = []"
| "path_left (f # fs) = path_left fs @ (if st_side f then inorder (st_other f) @ [st_data f] else [])"

fun path_right :: "'a avlstep list \<Rightarrow> 'a list" where
  "path_right [] = []"
| "path_right (f # fs) = (if st_side f then [] else st_data f # inorder (st_other f)) @ path_right fs"

lemma bfs_simps [simp]: "avl_bfs True = 1" "avl_bfs False = - 1"
  by (simp_all add: avl_bfs_def)

lemma node_simps [simp]:
  "avl_node True a x bf b = Node b x bf a" "avl_node False a x bf b = Node a x bf b"
  by (simp_all add: avl_node_def)

lemma bf_cases: "\<bar>b\<bar> \<le> 1 \<Longrightarrow> b = 0 \<or> b = - avl_bfs side \<or> b = avl_bfs side"
  by (cases side) auto

lemma st_link_ok [simp]: "avl_ok (st_link f t) \<longleftrightarrow> avl_ok t \<and> st_ok f (avl_height t)"
  by (cases "st_side f") (auto simp: st_link_def st_ok_def)

lemma st_link_height [simp]: "avl_height (st_link f t) = st_height f (avl_height t)"
  by (cases "st_side f") (auto simp: st_link_def st_height_def)

lemma inorder_st_link [simp]:
  "inorder (st_link f t) = (if st_side f then inorder (st_other f) @ st_data f # inorder t
                            else inorder t @ st_data f # inorder (st_other f))"
  by (cases "st_side f") (auto simp: st_link_def)

lemma relink_ok [simp]: "avl_ok (relink fs t) \<longleftrightarrow> avl_ok t \<and> path_ok fs (avl_height t)"
  by (induction fs arbitrary: t) auto

lemma inorder_relink [simp]: "inorder (relink fs t) = path_left fs @ inorder t @ path_right fs"
  by (induction fs arbitrary: t) auto

lemma height_relink [simp]: "avl_height (relink fs t) = path_height fs (avl_height t)"
  by (induction fs arbitrary: t) auto

lemma path_ok_append [simp]: "path_ok (fs @ gs) h \<longleftrightarrow> path_ok fs h \<and> path_ok gs (path_height fs h)"
  by (induction fs arbitrary: h) auto

lemma path_left_append [simp]: "path_left (fs @ gs) = path_left gs @ path_left fs"
  by (induction fs) auto

lemma path_right_append [simp]: "path_right (fs @ gs) = path_right fs @ path_right gs"
  by (induction fs) auto

lemma relink_append: "relink (fs @ gs) t = relink gs (relink fs t)"
  by (induction fs arbitrary: t) auto

lemma height_0_iff [simp]: "avl_height t = 0 \<longleftrightarrow> t = Null"
  by (cases t) auto

lemma descend_relink: "avl_descend fcmp data path t = (path', t') \<Longrightarrow> relink path' t' = relink path t"
  by (induction fcmp data path t rule: avl_descend.induct)
     (auto simp: Let_def st_link_def split: if_splits)

section \<open>Insertion\<close>

text \<open>A subtree that has grown from height \<open>h\<close> by one.\<close>

definition grown :: "'a avlnode \<Rightarrow> nat \<Rightarrow> bool" where
  "grown t h \<longleftrightarrow> avl_ok t \<and> avl_height t = Suc h \<and> (h \<noteq> 0 \<longrightarrow> avl_bf t \<noteq> 0)"

lemma split_at_s_props:
  "split_at_s f fs = (below, s, up) \<Longrightarrow>
     f # fs = below @ s # up \<and> (\<forall>b\<in>set below. st_bf b = 0) \<and> (st_bf s = 0 \<longrightarrow> up = [])"
  by (induction f fs arbitrary: below rule: split_at_s.induct) (auto split: if_splits prod.splits)

lemma adjust_bfs_grown:
  assumes "grown q h" and "path_ok (below @ fs) h" and "\<forall>b\<in>set below. st_bf b = 0"
  shows "\<exists>h'. grown (adjust_bfs below q) h' \<and> path_ok fs h'"
  using assms
proof (induction below arbitrary: q h)
  case (Cons b below)
  let ?q = "st_link (b\<lparr>st_bf := avl_bfs (st_side b)\<rparr>) q"
  have "st_ok b h" "st_bf b = 0" using Cons.prems by simp_all
  then have e: "avl_height (st_other b) = h" by (cases "st_side b") (auto simp: st_ok_def)
  then have g: "grown ?q (Suc h)"
    using Cons.prems(1) \<open>st_ok b h\<close>
    by (cases "st_side b") (auto simp: grown_def st_ok_def st_height_def st_link_def)
  have "path_ok (below @ fs) (Suc h)" using Cons.prems(2) e by (simp add: st_height_def)
  then show ?case using Cons.IH [OF g] Cons.prems(3) by simp
qed auto

lemma inorder_adjust_bfs: "inorder (adjust_bfs fs q) = path_left fs @ inorder q @ path_right fs"
  by (induction fs arbitrary: q) auto

lemma avl_ok_NodeE:
  assumes "avl_ok t" "avl_height t = Suc n"
  obtains l x bf r where "t = Node l x bf r"
  using assms by (cases t) auto

text \<open>The balance of a node whose subtree on the path has grown.\<close>

lemma insert_balance_ok:
  assumes s: "st_ok s h" and r: "grown r h"
  shows "avl_ok (insert_balance s r q)
       \<and> avl_height (insert_balance s r q) = st_height s h + (if st_bf s = 0 then 1 else 0)
       \<and> inorder (insert_balance s r q) = inorder (st_link s r)"
proof -
  obtain rl x rbf rr where rn: "r = Node rl x rbf rr" using r by (cases r) (auto simp: grown_def)
  consider "st_bf s = 0" | "st_bf s = - avl_bfs (st_side s)" | "st_bf s = avl_bfs (st_side s)"
    using s bf_cases [of "st_bf s" "st_side s"] by (auto simp: st_ok_def)
  then show ?thesis
  proof cases
    case 1
    then show ?thesis using s r
      by (cases "st_side s") (auto simp: insert_balance_def st_ok_def grown_def st_height_def)
  next
    case 2
    then show ?thesis using s r
      by (cases "st_side s") (auto simp: insert_balance_def st_ok_def grown_def st_height_def)
  next
    case 3
    have h: "h = Suc (avl_height (st_other s))" using 3 s by (cases "st_side s") (auto simp: st_ok_def)
    then have rb: "rbf \<noteq> 0" "\<bar>rbf\<bar> \<le> 1" using r rn by (auto simp: grown_def)
    show ?thesis
    proof (cases "rbf = avl_bfs (st_side s)")
      case True
      then show ?thesis using 3 s r h rn
        by (cases "st_side s") (auto simp: insert_balance_def st_ok_def grown_def st_height_def st_link_def)
    next
      case False
      then have opp: "rbf = - avl_bfs (st_side s)" using rb by (cases "st_side s") auto
      let ?p = "avl_link (\<not> st_side s) r"
      have "avl_height ?p = h" using opp r rn by (cases "st_side s") (auto simp: grown_def)
      moreover have "avl_ok ?p" using r rn by (cases "st_side s") (auto simp: grown_def)
      ultimately obtain pl y pbf pr where p: "?p = Node pl y pbf pr" by (metis avl_ok_NodeE h)
      show ?thesis using 3 s r h rn opp p
        by (cases "st_side s")
           (auto simp: insert_balance_def st_ok_def grown_def st_height_def st_link_def Let_def)
    qed
  qed
qed

lemma insert_path_ok:
  assumes p: "path_ok (f # fs) 0" and sp: "split_at_s f fs = (below, s, up)"
    and q: "q = Node Null data 0 Null"
  shows "avl_ok (relink up (insert_balance s (adjust_bfs below q) q))
       \<and> inorder (relink up (insert_balance s (adjust_bfs below q) q)) = path_left (f # fs) @ data # path_right (f # fs)"
proof -
  have spl: "f # fs = below @ s # up" "\<forall>b\<in>set below. st_bf b = 0" "st_bf s = 0 \<longrightarrow> up = []"
    using split_at_s_props [OF sp] by blast+
  have "grown q 0" by (simp add: q grown_def)
  then obtain h where g: "grown (adjust_bfs below q) h" "path_ok (s # up) h"
    using adjust_bfs_grown [of q 0 below "s # up"] p spl(1,2) by auto
  have s: "st_ok s h" using g(2) by simp
  note b = insert_balance_ok [OF s g(1), of q]
  have "avl_ok (relink up (insert_balance s (adjust_bfs below q) q))"
    using b g(2) spl(3) by (cases "st_bf s = 0") auto
  moreover have "path_left (f # fs) = path_left (below @ s # up)" "path_right (f # fs) = path_right (below @ s # up)"
    using spl(1) by simp_all
  ultimately show ?thesis using b by (auto simp: inorder_adjust_bfs q)
qed

section \<open>Deletion\<close>

text \<open>Case 3c, the double rotation: \<open>q\<close> leans towards the shortened side.\<close>

lemma double_heights:
  assumes "avl_ok (Node rl y rbf rr)" and "avl_height (Node rl y rbf rr) = Suc n"
  shows "(rbf = 0 \<and> avl_height rl = n \<and> avl_height rr = n)
       \<or> (rbf = 1 \<and> avl_height rr = n \<and> Suc (avl_height rl) = n)
       \<or> (rbf = -1 \<and> avl_height rl = n \<and> Suc (avl_height rr) = n)"
proof -
  have "rbf = int (avl_height rr) - int (avl_height rl)" "rbf = 0 \<or> rbf = 1 \<or> rbf = -1"
    "max (avl_height rl) (avl_height rr) = n" using assms by auto
  then show ?thesis by (elim disjE) auto
qed

lemma delete_balance_double:
  assumes f: "st_bf f = - avl_bfs (st_side f)" and qb: "avl_bf (st_other f) = avl_bfs (st_side f)"
    and rn: "avl_link (st_side f) (st_other f) = Node rl y rbf rr"
    and r: "avl_ok (Node rl y rbf rr)" "avl_height (Node rl y rbf rr) = Suc (avl_height t)"
    and far: "avl_height (avl_link (\<not> st_side f) (st_other f)) = avl_height t"
      "avl_ok (avl_link (\<not> st_side f) (st_other f))"
    and t: "avl_ok t" and d: "delete_balance f t = (t', shorter)"
  shows "avl_ok t' \<and> inorder t' = inorder (st_link f t)
       \<and> st_height f (Suc (avl_height t)) = avl_height t' + (if shorter then 1 else 0)"
proof -
  obtain ql z qbf qr where q: "st_other f = Node ql z qbf qr" using rn by (cases "st_other f") auto
  have h: "(rbf = 0 \<and> avl_height rl = avl_height t \<and> avl_height rr = avl_height t)
       \<or> (rbf = 1 \<and> avl_height rr = avl_height t \<and> Suc (avl_height rl) = avl_height t)
       \<or> (rbf = -1 \<and> avl_height rl = avl_height t \<and> Suc (avl_height rr) = avl_height t)"
    using r by (rule double_heights)
  show ?thesis
  proof (cases "st_side f")
    case True
    then have e: "qr = Node rl y rbf rr" "qbf = 1" "st_bf f = - 1" using rn q qb f by simp_all
    have "avl_height ql = avl_height t" "avl_ok ql" using far True q by simp_all
    then show ?thesis
      using d h t r(1) True q e
      by (auto simp: delete_balance_def st_height_def st_link_def Let_def)
  next
    case False
    then have e: "ql = Node rl y rbf rr" "qbf = - 1" "st_bf f = 1" using rn q qb f by simp_all
    have "avl_height qr = avl_height t" "avl_ok qr" using far False q by simp_all
    then show ?thesis
      using d h t r(1) False q e
      by (auto simp: delete_balance_def st_height_def st_link_def Let_def)
  qed
qed

lemma delete_balance_ok:
  assumes f: "st_ok f (Suc (avl_height t))" and t: "avl_ok t" and r: "delete_balance f t = (t', shorter)"
  shows "avl_ok t' \<and> inorder t' = inorder (st_link f t)
       \<and> st_height f (Suc (avl_height t)) = avl_height t' + (if shorter then 1 else 0)"
proof -
  consider "st_bf f = 0" | "st_bf f = avl_bfs (st_side f)" | "st_bf f = - avl_bfs (st_side f)"
    using f bf_cases [of "st_bf f" "st_side f"] by (auto simp: st_ok_def)
  then show ?thesis
  proof cases
    case 1
    then show ?thesis using f t r
      by (cases "st_side f") (auto simp: delete_balance_def st_ok_def st_height_def)
  next
    case 2
    then show ?thesis using f t r
      by (cases "st_side f") (auto simp: delete_balance_def st_ok_def st_height_def)
  next
    case 3
    let ?q = "st_other f"
    have hq: "avl_height ?q = Suc (Suc (avl_height t))" "avl_ok ?q"
      using 3 f by (cases "st_side f"; auto simp: st_ok_def)+
    then obtain ql x qbf qr where q: "?q = Node ql x qbf qr" by (metis avl_ok_NodeE)
    show ?thesis
    proof (cases "qbf = 0 \<or> qbf = st_bf f")
      case True
      then show ?thesis using 3 f t r q hq
        by (cases "st_side f") (auto simp: delete_balance_def st_ok_def st_height_def st_link_def)
    next
      case False
      then have opp: "qbf = avl_bfs (st_side f)" using 3 hq(2) q by (cases "st_side f") auto
      let ?r = "avl_link (st_side f) ?q"
      have "avl_height ?r = Suc (avl_height t)" "avl_ok ?r"
        using opp hq q by (cases "st_side f"; auto)+
      then obtain rl y rbf rr where rn: "?r = Node rl y rbf rr" by (metis avl_ok_NodeE)
      have far: "avl_height (avl_link (\<not> st_side f) ?q) = avl_height t" "avl_ok (avl_link (\<not> st_side f) ?q)"
        using opp hq q by (cases "st_side f"; auto)+
      have "avl_bf ?q = avl_bfs (st_side f)" using opp q by simp
      then show ?thesis
        by (rule delete_balance_double [OF 3 _ rn _ _ far t r])
           (use \<open>avl_ok ?r\<close> \<open>avl_height ?r = Suc (avl_height t)\<close> in \<open>simp_all only: rn\<close>)
    qed
  qed
qed

lemma delete_loop_ok:
  assumes "path_ok fs (Suc (avl_height t))" and "avl_ok t"
  shows "avl_ok (delete_loop fs t) \<and> inorder (delete_loop fs t) = path_left fs @ inorder t @ path_right fs"
  using assms
proof (induction fs arbitrary: t)
  case (Cons f fs)
  obtain t' sh where d: "delete_balance f t = (t', sh)" by fastforce
  have b: "avl_ok t'" "inorder t' = inorder (st_link f t)"
    "st_height f (Suc (avl_height t)) = avl_height t' + (if sh then 1 else 0)"
    using delete_balance_ok [OF _ Cons.prems(2) d] Cons.prems(1) by auto
  then show ?case using Cons.IH [of t'] Cons.prems(1) d by (cases sh) auto
qed simp

lemma predecessor_props:
  assumes "avl_predecessor path l x bf r = (y, ql, steps)" and "avl_ok (relink path (Node l x bf r))"
  shows "path_ok steps (Suc (avl_height ql)) \<and> avl_ok ql
       \<and> path_height steps (Suc (avl_height ql)) = avl_height (relink path (Node l x bf r))
       \<and> path_left steps @ inorder ql @ y # path_right path = inorder (relink path (Node l x bf r))
       \<and> path_right steps = path_right path"
  using assms
proof (induction path l x bf r rule: avl_predecessor.induct)
  case (1 path l x bf)
  then show ?case by auto
next
  case (2 path l x bf l' x' bf' r')
  have "relink (\<lparr>st_side = True, st_data = x, st_bf = bf, st_other = l\<rparr> # path) (Node l' x' bf' r')
          = relink path (Node l x bf (Node l' x' bf' r'))"
    by (simp only: relink.simps) (simp add: st_link_def)
  then show ?case using 2 by (simp only: avl_predecessor.simps path_right.simps avlstep.simps if_True append_Nil)
qed

text \<open>The path to the freed node, with the subtree that replaces it, for a node of a balanced tree.\<close>

lemma delete_target_props:
  assumes d: "delete_target path l bf r = (steps, q)" and ok: "avl_ok (relink path (Node l x bf r))"
  shows "path_ok steps (Suc (avl_height q)) \<and> avl_ok q
       \<and> path_left steps @ inorder q @ path_right steps = path_left path @ inorder l @ inorder r @ path_right path"
proof (cases l)
  case Null
  then show ?thesis using d ok by auto
next
  case (Node ll y ybf lr)
  show ?thesis
  proof (cases "r = Null")
    case True
    then show ?thesis using d ok Node by (auto simp del: avl_height.simps(2)) auto
  next
    case False
    obtain z ql st where pr: "avl_predecessor [] ll y ybf lr = (z, ql, st)" by (metis prod_cases3)
    have "avl_ok l" using ok by simp
    then have p: "path_ok st (Suc (avl_height ql))" "avl_ok ql" "path_height st (Suc (avl_height ql)) = avl_height l"
      "path_left st @ inorder ql @ [z] = inorder l" "path_right st = []"
      using predecessor_props [OF pr] Node by auto
    have "st_ok \<lparr>st_side = False, st_data = z, st_bf = bf, st_other = r\<rparr> (avl_height l)"
      "st_height \<lparr>st_side = False, st_data = z, st_bf = bf, st_other = r\<rparr> (avl_height l) = avl_height (Node l x bf r)"
      using ok by (auto simp: st_ok_def st_height_def)
    moreover have "steps = st @ \<lparr>st_side = False, st_data = z, st_bf = bf, st_other = r\<rparr> # path" "q = ql"
      using d False Node pr by auto
    ultimately show ?thesis using p(1-3,5) ok by (auto simp flip: p(4) simp del: avl_height.simps)
  qed
qed

end
