(* ===== verification/Avl_Order.thy ===== *)
theory Avl_Order
  imports Avl_Balance
begin

text \<open>
  AVL trees as ordered collections.  What a caller's comparison function has to satisfy is the
  locale \<open>avl_cmp\<close>; inside it the tree operations are those of a sorted list without
  duplicates, and the clients' laws (what a lookup finds after an insertion or a deletion)
  follow.
\<close>

section \<open>The contract of a comparison function\<close>

locale avl_cmp =
  fixes fcmp :: "'a \<Rightarrow> 'a \<Rightarrow> int"
  assumes cmp_refl: "fcmp x x = 0"
    and cmp_anti: "fcmp x y < 0 \<longleftrightarrow> 0 < fcmp y x"
    and cmp_trans: "fcmp x y < 0 \<Longrightarrow> fcmp y z < 0 \<Longrightarrow> fcmp x z < 0"
    and cmp_eq: "fcmp x y = 0 \<Longrightarrow> sgn (fcmp x z) = sgn (fcmp y z)"
begin

lemma cmp_sym0: "fcmp x y = 0 \<longleftrightarrow> fcmp y x = 0"
  using cmp_anti [of x y] cmp_anti [of y x] by linarith

lemma cmp_eq_pos: "fcmp x y = 0 \<Longrightarrow> 0 < fcmp x z \<longleftrightarrow> 0 < fcmp y z"
  using cmp_eq [of x y z] by (metis sgn_1_pos)

lemma cmp_eq_neg: "fcmp x y = 0 \<Longrightarrow> fcmp x z < 0 \<longleftrightarrow> fcmp y z < 0"
  using cmp_eq [of x y z] by (metis sgn_1_neg)

definition sorted_by :: "'a list \<Rightarrow> bool" where
  "sorted_by xs \<longleftrightarrow> sorted_wrt (\<lambda>x y. fcmp x y < 0) xs"

definition avl_inv :: "'a avlnode \<Rightarrow> bool" where
  "avl_inv t \<longleftrightarrow> avl_ok t \<and> sorted_by (inorder t)"

lemma sorted_append:
  "sorted_by (xs @ ys) \<longleftrightarrow> sorted_by xs \<and> sorted_by ys \<and> (\<forall>x\<in>set xs. \<forall>y\<in>set ys. fcmp x y < 0)"
  by (simp add: sorted_by_def sorted_wrt_append)

lemma sorted_Cons: "sorted_by (x # xs) \<longleftrightarrow> sorted_by xs \<and> (\<forall>y\<in>set xs. fcmp x y < 0)"
  by (auto simp: sorted_by_def)

text \<open>Where the search loop ends.\<close>

lemma descend_props:
  assumes "sorted_by (inorder t)"
  shows "\<exists>steps t'. avl_descend fcmp data path t = (steps @ path, t') \<and> relink steps t' = t
           \<and> (\<forall>y\<in>set (path_left steps). 0 < fcmp data y) \<and> (\<forall>y\<in>set (path_right steps). fcmp data y < 0)
           \<and> (t' = Null \<or> (\<exists>l x bf r. t' = Node l x bf r \<and> fcmp data x = 0))"
  using assms
proof (induction t arbitrary: path)
  case Null
  then show ?case by (intro exI [of _ "[]"]) simp
next
  case (Node l x bf r)
  have s: "sorted_by (inorder l)" "sorted_by (inorder r)" "\<forall>y\<in>set (inorder l). fcmp y x < 0"
    "\<forall>y\<in>set (inorder r). fcmp x y < 0"
    using Node.prems by (auto simp: sorted_append sorted_Cons)
  consider "fcmp data x = 0" | "0 < fcmp data x" | "fcmp data x < 0" by linarith
  then show ?case
  proof cases
    case 1
    then show ?thesis by (intro exI [of _ "[]"]) simp
  next
    case 2
    let ?f = "\<lparr>st_side = True, st_data = x, st_bf = bf, st_other = l\<rparr>"
    obtain steps t' where d: "avl_descend fcmp data (?f # path) r = (steps @ ?f # path, t')" "relink steps t' = r"
      "\<forall>y\<in>set (path_left steps). 0 < fcmp data y" "\<forall>y\<in>set (path_right steps). fcmp data y < 0"
      "t' = Null \<or> (\<exists>l x bf r. t' = Node l x bf r \<and> fcmp data x = 0)"
      using Node.IH(2) [OF s(2), of "?f # path"] by auto
    have "\<forall>y\<in>set (inorder l). 0 < fcmp data y"
      using s(3) 2 cmp_trans cmp_anti by blast
    then show ?thesis
      using d 2 by (intro exI [of _ "steps @ [?f]"] exI [of _ t'])
        (auto simp: Let_def relink_append st_link_def)
  next
    case 3
    let ?f = "\<lparr>st_side = False, st_data = x, st_bf = bf, st_other = r\<rparr>"
    obtain steps t' where d: "avl_descend fcmp data (?f # path) l = (steps @ ?f # path, t')" "relink steps t' = l"
      "\<forall>y\<in>set (path_left steps). 0 < fcmp data y" "\<forall>y\<in>set (path_right steps). fcmp data y < 0"
      "t' = Null \<or> (\<exists>l x bf r. t' = Node l x bf r \<and> fcmp data x = 0)"
      using Node.IH(1) [OF s(1), of "?f # path"] by auto
    have "\<forall>y\<in>set (inorder r). fcmp data y < 0"
      using s(4) 3 cmp_trans by blast
    then show ?thesis
      using d 3 by (intro exI [of _ "steps @ [?f]"] exI [of _ t'])
        (auto simp: Let_def relink_append st_link_def)
  qed
qed

lemma find_inorder:
  assumes "sorted_by (inorder t)"
  shows "avl_find t data fcmp = find (\<lambda>y. fcmp data y = 0) (inorder t)"
  using assms
proof (induction t)
  case (Node l x bf r)
  have s: "sorted_by (inorder l)" "sorted_by (inorder r)" "\<forall>y\<in>set (inorder l). fcmp y x < 0"
    "\<forall>y\<in>set (inorder r). fcmp x y < 0"
    using Node.prems by (auto simp: sorted_append sorted_Cons)
  have none: "\<forall>y\<in>set xs. P y \<noteq> (0::int) \<Longrightarrow> find (\<lambda>y. P y = 0) (xs @ zs) = find (\<lambda>y. P y = 0) zs" for P xs zs
    by (induction xs) auto
  have left: "\<forall>y\<in>set (inorder l). fcmp data y \<noteq> 0" if "0 \<le> fcmp data x"
  proof
    fix y assume "y \<in> set (inorder l)"
    then have yx: "fcmp y x < 0" using s(3) by blast
    show "fcmp data y \<noteq> 0"
    proof
      assume "fcmp data y = 0"
      then have "fcmp data x < 0" using cmp_eq_neg [of data y x] yx by simp
      then show False using that by simp
    qed
  qed
  have right: "find (\<lambda>y. fcmp data y = 0) (inorder r) = None" if "fcmp data x < 0"
  proof -
    have "fcmp data y < 0" if "y \<in> set (inorder r)" for y
      using s(4) that \<open>fcmp data x < 0\<close> cmp_trans by blast
    then show ?thesis by (fastforce simp: find_None_iff)
  qed
  have app: "find P (xs @ ys) = (case find P xs of None \<Rightarrow> find P ys | Some z \<Rightarrow> Some z)" for P xs ys
    by (induction xs) auto
  consider "fcmp data x = 0" | "0 < fcmp data x" | "fcmp data x < 0" by linarith
  then show ?case
  proof cases
    case 1
    then show ?thesis using none [OF left] by (simp add: Let_def)
  next
    case 2
    then show ?thesis using none [OF left] Node.IH(2) [OF s(2)] by (simp add: Let_def)
  next
    case 3
    then show ?thesis using right Node.IH(1) [OF s(1)] by (simp add: Let_def app split: option.splits)
  qed
qed simp

end

section \<open>Insertion and deletion as list operations\<close>

context avl_cmp
begin

definition insert_list :: "'a \<Rightarrow> 'a list \<Rightarrow> 'a list" where
  "insert_list x xs = filter (\<lambda>y. 0 < fcmp x y) xs @ x # filter (\<lambda>y. fcmp x y < 0) xs"

definition delete_list :: "'a \<Rightarrow> 'a list \<Rightarrow> 'a list" where
  "delete_list x xs = filter (\<lambda>y. fcmp x y \<noteq> 0) xs"

lemma insert_list_split:
  assumes "\<forall>y\<in>set L. 0 < fcmp x y" and "\<forall>y\<in>set R. fcmp x y < 0"
  shows "insert_list x (L @ R) = L @ x # R"
proof -
  have "filter (\<lambda>y. 0 < fcmp x y) L = L" "filter (\<lambda>y. fcmp x y < 0) R = R"
    using assms by (simp_all add: filter_id_conv)
  moreover have "filter (\<lambda>y. fcmp x y < 0) L = []" "filter (\<lambda>y. 0 < fcmp x y) R = []"
    using assms by (auto simp: filter_empty_conv)
  ultimately show ?thesis by (simp add: insert_list_def)
qed

lemma sorted_insert_list:
  assumes "sorted_by xs"
  shows "sorted_by (insert_list x xs)"
proof -
  have "sorted_by (filter P xs)" for P
    using assms by (simp add: sorted_by_def sorted_wrt_filter)
  moreover have "fcmp y z < 0" if "0 < fcmp x y" "fcmp x z < 0" for y z
    using that cmp_anti cmp_trans by blast
  ultimately show ?thesis using cmp_anti by (auto simp: insert_list_def sorted_append sorted_Cons)
qed

lemma insert_new:
  assumes inv: "avl_inv t" and new: "\<forall>y\<in>set (inorder t). fcmp data y \<noteq> 0" and ma: "ma 32"
  shows "\<exists>t'. avl_insert ma t data fcmp fdup = (0, t') \<and> avl_inv t' \<and> inorder t' = insert_list data (inorder t)"
proof (cases "t = Null")
  case True
  then show ?thesis using ma by (simp add: avl_insert_def avl_inv_def insert_list_def sorted_by_def)
next
  case False
  obtain steps t0 where d: "avl_descend fcmp data [] t = (steps @ [], t0)" "relink steps t0 = t"
    "\<forall>y\<in>set (path_left steps). 0 < fcmp data y" "\<forall>y\<in>set (path_right steps). fcmp data y < 0"
    "t0 = Null \<or> (\<exists>l x bf r. t0 = Node l x bf r \<and> fcmp data x = 0)"
    using descend_props [of t data "[]"] inv unfolding avl_inv_def by blast
  have io: "inorder t = path_left steps @ inorder t0 @ path_right steps" using d(2) by auto
  then have t0: "t0 = Null" using d(5) new by auto
  then obtain f fs where st: "steps = f # fs" using d(2) False by (cases steps) auto
  obtain below s up where sp: "split_at_s f fs = (below, s, up)" by (metis prod_cases3)
  have "path_ok (f # fs) 0" using inv d(2) t0 st by (auto simp: avl_inv_def)
  note ok = insert_path_ok [OF this sp refl, of data]
  let ?q = "Node Null data 0 Null"
  let ?t = "relink up (insert_balance s (adjust_bfs below ?q) ?q)"
  have "inorder ?t = insert_list data (inorder t)"
    using ok insert_list_split [OF d(3,4)] io t0 by (simp add: st)
  moreover have "avl_insert ma t data fcmp fdup = (0, ?t)"
    using False d(1) t0 st sp ma by (simp add: avl_insert_def Let_def)
  moreover have "avl_inv ?t"
    using ok sorted_insert_list [of "inorder t" data] calculation(1) inv by (simp only: avl_inv_def)
  ultimately show ?thesis by blast
qed

lemma insert_duplicate:
  assumes inv: "avl_inv t" and x: "find (\<lambda>y. fcmp data y = 0) (inorder t) = Some x"
  shows "avl_insert ma t data fcmp fdup = (fdup x data, t)"
proof -
  have "t \<noteq> Null" using x by auto
  obtain steps t0 where d: "avl_descend fcmp data [] t = (steps @ [], t0)" "relink steps t0 = t"
    "\<forall>y\<in>set (path_left steps). 0 < fcmp data y" "\<forall>y\<in>set (path_right steps). fcmp data y < 0"
    "t0 = Null \<or> (\<exists>l x bf r. t0 = Node l x bf r \<and> fcmp data x = 0)"
    using descend_props [of t data "[]"] inv unfolding avl_inv_def by blast
  have io: "inorder t = path_left steps @ inorder t0 @ path_right steps" using d(2) by auto
  have xin: "x \<in> set (inorder t)" "fcmp data x = 0" using x by (auto simp: find_Some_iff in_set_conv_nth)
  then have "t0 \<noteq> Null" using d(3,4) io by fastforce
  then obtain l z bf r where t0: "t0 = Node l z bf r" "fcmp data z = 0" using d(5) by blast
  have "z = x"
  proof (rule ccontr)
    assume "z \<noteq> x"
    then obtain i j where ij: "i < length (inorder t)" "j < length (inorder t)" "inorder t ! i = z" "inorder t ! j = x" "i \<noteq> j"
      using xin(1) io t0(1) by (metis in_set_conv_nth inorder.simps(2) Un_iff set_append list.set_intros(1))
    then have "fcmp z x < 0 \<or> fcmp x z < 0"
      using inv unfolding avl_inv_def sorted_by_def sorted_wrt_iff_nth_less by (metis nat_neq_iff)
    moreover have "fcmp z x = 0"
      using cmp_eq_pos [of data z x] cmp_eq_neg [of data z x] t0(2) xin(2) by linarith
    ultimately show False using cmp_sym0 [of z x] by linarith
  qed
  then show ?thesis using \<open>t \<noteq> Null\<close> d(1) t0 by (simp add: avl_insert_def Let_def split: list.splits)
qed

lemma delete_spec:
  assumes inv: "avl_inv t"
  shows "\<exists>t'. avl_delete t data fcmp = (find (\<lambda>y. fcmp data y = 0) (inorder t), t')
           \<and> avl_inv t' \<and> inorder t' = delete_list data (inorder t)"
proof -
  obtain steps t0 where d: "avl_descend fcmp data [] t = (steps @ [], t0)" "relink steps t0 = t"
    "\<forall>y\<in>set (path_left steps). 0 < fcmp data y" "\<forall>y\<in>set (path_right steps). fcmp data y < 0"
    "t0 = Null \<or> (\<exists>l x bf r. t0 = Node l x bf r \<and> fcmp data x = 0)"
    using descend_props [of t data "[]"] inv unfolding avl_inv_def by blast
  have io: "inorder t = path_left steps @ inorder t0 @ path_right steps" using d(2) by auto
  have fl: "filter (\<lambda>y. fcmp data y \<noteq> 0) (path_left steps) = path_left steps"
    "filter (\<lambda>y. fcmp data y \<noteq> 0) (path_right steps) = path_right steps"
    using d(3,4) by (auto simp: filter_id_conv)
  show ?thesis
  proof (cases t0)
    case Null
    have "\<forall>y\<in>set (inorder t). fcmp data y \<noteq> 0" using d(3,4) io Null by fastforce
    then have "find (\<lambda>y. fcmp data y = 0) (inorder t) = None" "delete_list data (inorder t) = inorder t"
      by (auto simp: find_None_iff delete_list_def filter_id_conv)
    then show ?thesis using d(1) Null inv by (simp add: avl_delete_def)
  next
    case (Node l x bf r)
    then have x0: "fcmp data x = 0" using d(5) by auto
    obtain st q where tg: "delete_target steps l bf r = (st, q)" by fastforce
    have ok: "avl_ok (relink steps (Node l x bf r))" using inv d(2) Node by (auto simp: avl_inv_def)
    note p = delete_target_props [OF tg ok]
    then have res: "avl_ok (delete_loop st q)"
      "inorder (delete_loop st q) = path_left steps @ inorder l @ inorder r @ path_right steps"
      using delete_loop_ok [of st q] by auto
    have sorted: "sorted_by (inorder t)" using inv by (simp add: avl_inv_def)
    have lr: "\<forall>y\<in>set (inorder l). 0 < fcmp data y" "\<forall>y\<in>set (inorder r). fcmp data y < 0"
      using sorted io Node x0 cmp_eq_pos [OF x0] cmp_eq_neg [OF x0] cmp_anti
      by (auto simp: sorted_append sorted_Cons)
    then have fl2: "filter (\<lambda>y. fcmp data y \<noteq> 0) (inorder l) = inorder l"
      "filter (\<lambda>y. fcmp data y \<noteq> 0) (inorder r) = inorder r" by (auto simp: filter_id_conv)
    have del: "inorder (delete_loop st q) = delete_list data (inorder t)"
      using res(2) io Node x0 fl fl2 by (simp add: delete_list_def)
    have "find (\<lambda>y. fcmp data y = 0) (inorder t) = Some x"
    proof -
      have "find (\<lambda>y. fcmp data y = 0) (xs @ x # ys) = Some x" if "\<forall>y\<in>set xs. 0 < fcmp data y" for xs ys
        using that x0 by (induction xs) auto
      from this [of "path_left steps @ inorder l" "inorder r @ path_right steps"] show ?thesis
        using io Node d(3) lr(1) by auto
    qed
    moreover have "sorted_by (delete_list data (inorder t))"
      using sorted by (simp add: delete_list_def sorted_by_def sorted_wrt_filter)
    ultimately show ?thesis
      using d(1) Node tg res(1) del by (simp add: avl_delete_def avl_inv_def)
  qed
qed

end

section \<open>Laws for the clients of a tree\<close>

context avl_cmp
begin

lemma equal_elements_same:
  assumes "sorted_by xs" and "x \<in> set xs" and "y \<in> set xs" and "fcmp z x = 0" and "fcmp z y = 0"
  shows "x = y"
proof (rule ccontr)
  assume "x \<noteq> y"
  then obtain i j where ij: "i < length xs" "j < length xs" "xs ! i = x" "xs ! j = y" "i \<noteq> j"
    using assms(2,3) by (metis in_set_conv_nth)
  then have "fcmp x y < 0 \<or> fcmp y x < 0"
    using assms(1) unfolding sorted_by_def sorted_wrt_iff_nth_less by (metis nat_neq_iff)
  moreover have "fcmp x y = 0"
    using cmp_eq_pos [of z x y] cmp_eq_neg [of z x y] assms(4,5) by linarith
  ultimately show False using cmp_sym0 [of x y] by linarith
qed

lemma find_Some_set:
  assumes "sorted_by xs"
  shows "find (\<lambda>y. fcmp z y = 0) xs = Some x \<longleftrightarrow> x \<in> set xs \<and> fcmp z x = 0"
proof
  assume "find (\<lambda>y. fcmp z y = 0) xs = Some x"
  then show "x \<in> set xs \<and> fcmp z x = 0" by (auto simp: find_Some_iff in_set_conv_nth)
next
  assume x: "x \<in> set xs \<and> fcmp z x = 0"
  then obtain y where y: "find (\<lambda>y. fcmp z y = 0) xs = Some y"
    by (cases "find (\<lambda>y. fcmp z y = 0) xs") (auto simp: find_None_iff)
  then have "y \<in> set xs \<and> fcmp z y = 0" by (auto simp: find_Some_iff in_set_conv_nth)
  then show "find (\<lambda>y. fcmp z y = 0) xs = Some x" using equal_elements_same [OF assms] x y by blast
qed

lemma find_eqI:
  assumes "sorted_by xs" and "sorted_by ys"
    and "\<And>x. fcmp z x = 0 \<Longrightarrow> x \<in> set xs \<longleftrightarrow> x \<in> set ys"
  shows "find (\<lambda>y. fcmp z y = 0) xs = find (\<lambda>y. fcmp z y = 0) ys"
  using find_Some_set [OF assms(1), of z] find_Some_set [OF assms(2), of z] assms(3)
  by (metis option.exhaust_sel)

lemma set_insert_list: "\<forall>y\<in>set xs. fcmp x y \<noteq> 0 \<Longrightarrow> set (insert_list x xs) = insert x (set xs)"
  by (auto simp: insert_list_def)

lemma set_delete_list: "set (delete_list x xs) = {y \<in> set xs. fcmp x y \<noteq> 0}"
  by (auto simp: delete_list_def)

lemma find_after_insert:
  assumes inv: "avl_inv t" and new: "avl_find t data fcmp = None" and ma: "ma 32"
  shows "\<exists>t'. avl_insert ma t data fcmp fdup = (0, t') \<and> avl_inv t'
           \<and> (\<forall>z. avl_find t' z fcmp = (if fcmp z data = 0 then Some data else avl_find t z fcmp))"
proof -
  have sorted: "sorted_by (inorder t)" using inv by (simp add: avl_inv_def)
  have n: "\<forall>y\<in>set (inorder t). fcmp data y \<noteq> 0"
    using new find_inorder [OF sorted] by (auto simp: find_None_iff)
  obtain t' where t': "avl_insert ma t data fcmp fdup = (0, t')" "avl_inv t'" "inorder t' = insert_list data (inorder t)"
    using insert_new [where ma = ma and fdup = fdup, OF inv n ma] by blast
  have sorted': "sorted_by (inorder t')" using t'(2) by (simp add: avl_inv_def)
  have set': "set (inorder t') = insert data (set (inorder t))" using t'(3) set_insert_list [OF n] by simp
  have "avl_find t' z fcmp = (if fcmp z data = 0 then Some data else avl_find t z fcmp)" for z
  proof (cases "fcmp z data = 0")
    case True
    then show ?thesis using find_Some_set [OF sorted'] set' find_inorder [OF sorted'] by simp
  next
    case False
    then have "find (\<lambda>y. fcmp z y = 0) (inorder t') = find (\<lambda>y. fcmp z y = 0) (inorder t)"
      using set' by (intro find_eqI [OF sorted' sorted]) auto
    then show ?thesis using False find_inorder [OF sorted'] find_inorder [OF sorted] by simp
  qed
  then show ?thesis using t' by blast
qed

lemma find_after_delete:
  assumes inv: "avl_inv t"
  shows "\<exists>t'. avl_delete t data fcmp = (avl_find t data fcmp, t') \<and> avl_inv t'
           \<and> (\<forall>z. avl_find t' z fcmp = (if fcmp z data = 0 then None else avl_find t z fcmp))"
proof -
  have sorted: "sorted_by (inorder t)" using inv by (simp add: avl_inv_def)
  obtain t' where t': "avl_delete t data fcmp = (find (\<lambda>y. fcmp data y = 0) (inorder t), t')" "avl_inv t'"
    "inorder t' = delete_list data (inorder t)"
    using delete_spec [OF inv] by blast
  have sorted': "sorted_by (inorder t')" using t'(2) by (simp add: avl_inv_def)
  have set': "set (inorder t') = {y \<in> set (inorder t). fcmp data y \<noteq> 0}" using t'(3) set_delete_list by simp
  have same: "fcmp z y = 0 \<longleftrightarrow> fcmp data y = 0" if "fcmp z data = 0" for z y
    using cmp_eq_pos [OF that, of y] cmp_eq_neg [OF that, of y] by linarith
  have "avl_find t' z fcmp = (if fcmp z data = 0 then None else avl_find t z fcmp)" for z
  proof (cases "fcmp z data = 0")
    case True
    then show ?thesis using same [OF True] set' find_inorder [OF sorted'] by (auto simp: find_None_iff)
  next
    case False
    have "fcmp data x \<noteq> 0" if "fcmp z x = 0" for x
      using False that cmp_eq_pos [of z x data] cmp_eq_neg [of z x data] cmp_sym0 [of data x] by linarith
    then have "find (\<lambda>y. fcmp z y = 0) (inorder t') = find (\<lambda>y. fcmp z y = 0) (inorder t)"
      using set' by (intro find_eqI [OF sorted' sorted]) auto
    then show ?thesis using False find_inorder [OF sorted'] find_inorder [OF sorted] by simp
  qed
  then show ?thesis using t' find_inorder [OF sorted] by auto
qed

end

section \<open>Depth\<close>

fun fib :: "nat \<Rightarrow> nat" where
  "fib 0 = 0"
| "fib (Suc 0) = 1"
| "fib (Suc (Suc n)) = fib n + fib (Suc n)"

fun fib_pair :: "nat \<Rightarrow> int \<times> int" where
  "fib_pair 0 = (0, 1)"
| "fib_pair (Suc n) = (case fib_pair n of (a, b) \<Rightarrow> (b, a + b))"

lemma fib_pair: "fib_pair n = (int (fib n), int (fib (Suc n)))"
  by (induction n) simp_all

lemma fib_67: "fib 67 = 44945570212853"
proof -
  have "fst (fib_pair 67) = 44945570212853" by code_simp
  then have "int (fib 67) = int 44945570212853" unfolding fib_pair fst_conv by (simp only: of_nat_numeral)
  then show ?thesis by (simp only: of_nat_eq_iff)
qed

lemma fib_Suc: "fib k \<le> fib (Suc k)"
  by (cases k) auto

lemma fib_mono: "m \<le> n \<Longrightarrow> fib m \<le> fib n"
  by (rule lift_Suc_mono_le [of fib]) (rule fib_Suc)

text \<open>A balanced tree of height \<open>h\<close> has at least \<open>fib (h + 2) - 1\<close> nodes.\<close>

lemma avl_nodes: "avl_ok t \<Longrightarrow> fib (avl_height t + 2) \<le> length (inorder t) + 1"
proof (induction t)
  case (Node l x bf r)
  let ?a = "avl_height l" and ?b = "avl_height r"
  have ih: "fib (?a + 2) \<le> length (inorder l) + 1" "fib (?b + 2) \<le> length (inorder r) + 1"
    using Node by auto
  have d: "?a \<le> Suc ?b" "?b \<le> Suc ?a" using Node.prems by auto
  have m: "max ?a ?b + 3 = Suc (Suc (max ?a ?b + 1))" by simp
  have "fib (max ?a ?b + 3) = fib (max ?a ?b + 1) + fib (max ?a ?b + 2)"
    unfolding m by simp
  also have "fib (max ?a ?b + 1) \<le> fib (min ?a ?b + 2)"
    using d by (intro fib_mono) (auto simp: max_def min_def)
  also have "fib (min ?a ?b + 2) + fib (max ?a ?b + 2) = fib (?a + 2) + fib (?b + 2)"
    by (cases "?a \<le> ?b") (auto simp: max_def min_def)
  finally show ?case using ih by (simp add: numeral_3_eq_3)
qed simp

lemma path_length: "length fs + avl_height t \<le> avl_height (relink fs t)"
proof (induction fs arbitrary: t)
  case (Cons f fs)
  have "Suc (avl_height t) \<le> st_height f (avl_height t)" by (simp add: st_height_def)
  then show ?case using Cons.IH [of "st_link f t"] by simp
qed simp

lemma predecessor_length:
  "avl_predecessor path l x bf r = (y, ql, steps) \<Longrightarrow> length steps + 1 \<le> length path + avl_height (Node l x bf r)"
  by (induction path l x bf r rule: avl_predecessor.induct) auto

lemma descend_length:
  assumes "avl_descend fcmp data [] t = (path, t')"
  shows "length path + avl_height t' \<le> avl_height t"
  using path_length [of path t'] descend_relink [OF assms] by simp

lemma delete_depth_height: "delete_depth t data fcmp \<le> avl_height t"
proof -
  obtain path t' where d: "avl_descend fcmp data [] t = (path, t')" by fastforce
  note len = descend_length [OF d]
  show ?thesis
  proof (cases t')
    case Null
    then show ?thesis using d len by (simp add: delete_depth_def)
  next
    case (Node l x bf r)
    have "length (fst (delete_target path l bf r)) \<le> avl_height t"
    proof (cases l)
      case Null
      then show ?thesis using len Node by simp
    next
      case l: (Node ll y ybf lr)
      obtain z ql st where p: "avl_predecessor [] ll y ybf lr = (z, ql, st)" by (metis prod_cases3)
      have "length st + 1 \<le> avl_height l" using predecessor_length [OF p] l by simp
      then show ?thesis using len Node l p by auto
    qed
    then show ?thesis using d Node by (simp add: delete_depth_def)
  qed
qed

end
