(* ===== verification/Avl_Walk.thy ===== *)
theory Avl_Walk
  imports Avl_Order "HOL-Library.Multiset"
begin

text \<open>
  Traversals of an AVL tree against reference traversals of lists, trees of extreme depth,
  and the properties of the tree operations.
\<close>

section \<open>Traversals\<close>

fun preorder :: "'a avlnode \<Rightarrow> 'a list" where
  "preorder Null = []"
| "preorder (Node l x bf r) = x # preorder l @ preorder r"

text \<open>Calling \<open>fn\<close> on each element until it returns \<open>stopflag\<close>.\<close>

fun apply_list :: "('a \<Rightarrow> 's \<Rightarrow> int \<times> 's) \<Rightarrow> int \<Rightarrow> 'a list \<Rightarrow> 's \<Rightarrow> int \<times> 's" where
  "apply_list fn stopflag [] arg = (AVL_NOMORE, arg)"
| "apply_list fn stopflag (x # xs) arg =
     (case fn x arg of (rc, arg') \<Rightarrow> if rc = stopflag then (stopflag, arg') else apply_list fn stopflag xs arg')"

lemma apply_list_append:
  assumes "stopflag \<noteq> AVL_NOMORE"
  shows "apply_list fn stopflag (xs @ ys) arg =
     (case apply_list fn stopflag xs arg of (rc, arg') \<Rightarrow>
        if rc = stopflag then (stopflag, arg') else apply_list fn stopflag ys arg')"
  using assms by (induction xs arbitrary: arg) (auto split: prod.splits)

lemma apply_list_rc: "fst (apply_list fn stopflag xs arg) = stopflag \<or> fst (apply_list fn stopflag xs arg) = AVL_NOMORE"
  by (induction xs arbitrary: arg) (auto split: prod.splits)

lemma inapply_list:
  assumes "stopflag \<noteq> AVL_NOMORE"
  shows "avl_inapply t fn stopflag arg = apply_list fn stopflag (inorder t) arg"
proof (induction t arbitrary: arg)
  case (Node l x bf r)
  then show ?case
    using assms by (auto simp: apply_list_append split: prod.splits)
qed simp

lemma preapply_list:
  assumes "stopflag \<noteq> AVL_NOMORE"
  shows "avl_preapply t fn stopflag arg = apply_list fn stopflag (preorder t) arg"
proof (induction t arbitrary: arg)
  case (Node l x bf r)
  then show ?case
    using assms by (auto simp: apply_list_append split: prod.splits)
qed simp

lemma buildlist_apply:
  "apply_list avl_buildlist (-1) xs (Some ys) = (AVL_NOMORE, Some (ys @ xs))"
  by (induction xs arbitrary: ys) (simp_all add: avl_buildlist_def)

lemma getfirst_run:
  assumes "t \<noteq> Null"
  shows "avl_getfirst t = (Some (inorder t ! 0), \<lparr>avl_list = Some (inorder t), avl_nextlist = 1\<rparr>)"
proof -
  obtain x xs where io: "inorder t = x # xs" using assms by (cases t; cases "inorder (avl_left t)") auto
  have "avl_apply t avl_buildlist None (-1) 2 = (AVL_NOMORE, Some (inorder t))"
    using buildlist_apply [of xs "[x]"] by (simp add: avl_apply_def inapply_list io avl_buildlist_def)
  then show ?thesis using assms by (simp add: avl_getfirst_def)
qed

lemma getnext_iterate:
  assumes "k < length xs"
  shows "((\<lambda>st. snd (avl_getnext st)) ^^ k) \<lparr>avl_list = Some xs, avl_nextlist = 1\<rparr>
           = \<lparr>avl_list = Some xs, avl_nextlist = Suc k\<rparr>"
  using assms by (induction k) (simp_all add: avl_getnext_def)

lemma free_counts: "avl_free t = (n, ds) \<Longrightarrow> n = int (length (inorder t)) \<and> mset ds = mset (inorder t)"
  by (induction t arbitrary: n ds) (auto split: prod.splits)

section \<open>Trees of extreme depth\<close>

text \<open>The balanced tree of height \<open>n\<close> with the fewest nodes, holding consecutive integers from \<open>lo\<close>.\<close>

fun fib_tree :: "nat \<Rightarrow> int \<Rightarrow> int avlnode" where
  "fib_tree 0 lo = Null"
| "fib_tree (Suc 0) lo = Node Null lo 0 Null"
| "fib_tree (Suc (Suc n)) lo =
     (let k = lo + int (fib (n + 3)) - 1 in Node (fib_tree (Suc n) lo) k (- 1) (fib_tree n (k + 1)))"

definition int_cmp :: "int \<Rightarrow> int \<Rightarrow> int" where
  "int_cmp a b = (if a < b then -1 else if a > b then 1 else 0)"

interpretation int_order: avl_cmp int_cmp
  by unfold_locales (auto simp: int_cmp_def split: if_splits)

lemma fib_pos: "0 < k \<Longrightarrow> 0 < fib k"
  using fib_mono [of "Suc 0" k] by simp

lemma fib_tree_height: "avl_height (fib_tree n lo) = n"
  by (induction n lo rule: fib_tree.induct) (auto simp: Let_def)

lemma fib_tree_ok: "avl_ok (fib_tree n lo)"
  by (induction n lo rule: fib_tree.induct) (auto simp: Let_def fib_tree_height)

lemma upto_split: "lo \<le> k \<Longrightarrow> k \<le> hi \<Longrightarrow> [lo..k - 1] @ k # [k + 1..hi] = [lo..hi]"
  by (metis upto_split3)

lemma fib_tree_inorder: "inorder (fib_tree n lo) = [lo..lo + int (fib (n + 2)) - 2]"
proof (induction n lo rule: fib_tree.induct)
  case (1 lo)
  then show ?case by (simp add: numeral_2_eq_2)
next
  case (2 lo)
  then show ?case by (simp add: numeral_3_eq_3)
next
  case (3 n lo)
  let ?k = "lo + int (fib (n + 3)) - 1"
  have e: "fib (Suc (Suc n) + 2) = fib (n + 2) + fib (n + 3)"
    by (simp add: numeral_2_eq_2 numeral_3_eq_3)
  have p: "0 < fib (n + 3)" "0 < fib (n + 2)" by (rule fib_pos, simp)+
  have l: "inorder (fib_tree (Suc n) lo) = [lo..?k - 1]" using 3(1) [OF refl] by (simp add: numeral_3_eq_3 numeral_2_eq_2)
  have r: "inorder (fib_tree n (?k + 1)) = [?k + 1..lo + int (fib (Suc (Suc n) + 2)) - 2]"
    using 3(2) [OF refl] unfolding e by (simp add: algebra_simps)
  have "[lo..?k - 1] @ ?k # [?k + 1..lo + int (fib (Suc (Suc n) + 2)) - 2] = [lo..lo + int (fib (Suc (Suc n) + 2)) - 2]"
    using p unfolding e by (intro upto_split) auto
  then show ?case using l r by (simp only: fib_tree.simps Let_def inorder.simps)
qed

lemma sorted_upto: "int_order.sorted_by [i..j]"
proof -
  have "sorted_wrt (<) [i..j]" by (rule sorted_wrt_upto)
  then show ?thesis unfolding int_order.sorted_by_def
    by (rule sorted_wrt_mono_rel [rotated]) (simp add: int_cmp_def)
qed

lemma fib_tree_descend:
  assumes "\<And>x. x \<in> set (inorder (fib_tree n lo)) \<Longrightarrow> d < x"
  shows "\<exists>st. avl_descend int_cmp d path (fib_tree n lo) = (st @ path, Null) \<and> length st = n"
  using assms
proof (induction n lo arbitrary: path rule: fib_tree.induct)
  case (3 n lo)
  let ?k = "lo + int (fib (n + 3)) - 1"
  let ?f = "\<lparr>st_side = False, st_data = ?k, st_bf = - 1, st_other = fib_tree n (?k + 1)\<rparr>"
  have "d < ?k" using 3(3) by (simp add: Let_def)
  then have dk: "int_cmp d ?k = - 1" by (simp add: int_cmp_def)
  obtain st where "avl_descend int_cmp d (?f # path) (fib_tree (Suc n) lo) = (st @ ?f # path, Null)" "length st = Suc n"
    using 3(1) [OF refl, of "?f # path"] 3(3) by (auto simp: Let_def)
  then show ?case using dk by (intro exI [of _ "st @ [?f]"]) (simp add: Let_def)
qed (auto simp: int_cmp_def)

section \<open>Properties\<close>

text \<open>
  C16: inserting data that compares equal to nothing in the tree succeeds when a node can be
  allocated, keeps the tree balanced and ordered, and afterwards \<^verbatim>\<open>avl_find\<close> finds the new data
  under every key equal to it and is unchanged for all other keys.  Otherwise the tree is left
  alone: a duplicate gives the result of \<^verbatim>\<open>fdup\<close>, a failed allocation gives \<^verbatim>\<open>-1\<close>.
\<close>

theorem avl_insert_correct:
  assumes cmp: "avl_cmp fcmp" and inv: "avl_cmp.avl_inv fcmp t"
  shows "case avl_find t data fcmp of
           Some x \<Rightarrow> avl_insert ma t data fcmp fdup = (fdup x data, t)
         | None \<Rightarrow>
             if ma 32
             then (\<exists>t'. avl_insert ma t data fcmp fdup = (0, t') \<and> avl_cmp.avl_inv fcmp t'
                     \<and> (\<forall>z. avl_find t' z fcmp = (if fcmp z data = 0 then Some data else avl_find t z fcmp)))
             else avl_insert ma t data fcmp fdup = (-1, t)"
proof (cases "avl_find t data fcmp")
  case None
  have "avl_insert ma t data fcmp fdup = (-1, t)" if "\<not> ma 32"
  proof (cases "t = Null")
    case False
    have sorted: "avl_cmp.sorted_by fcmp (inorder t)" using inv avl_cmp.avl_inv_def [OF cmp] by blast
    obtain steps t0 where d: "avl_descend fcmp data [] t = (steps @ [], t0)" "relink steps t0 = t"
      "t0 = Null \<or> (\<exists>l x bf r. t0 = Node l x bf r \<and> fcmp data x = 0)"
      using avl_cmp.descend_props [OF cmp sorted, of data "[]"] by blast
    have "t0 = Null"
      using d None avl_cmp.find_inorder [OF cmp sorted, of data] by (auto simp: find_None_iff)
    then show ?thesis using d(1,2) False that by (cases steps) (auto simp: avl_insert_def Let_def)
  qed (use that in \<open>simp add: avl_insert_def\<close>)
  then show ?thesis using None avl_cmp.find_after_insert [where ma = ma and fdup = fdup, OF cmp inv None] by simp
next
  case (Some x)
  have "avl_cmp.sorted_by fcmp (inorder t)" using inv avl_cmp.avl_inv_def [OF cmp] by blast
  then have "find (\<lambda>y. fcmp data y = 0) (inorder t) = Some x"
    using Some avl_cmp.find_inorder [OF cmp] by metis
  then show ?thesis using Some avl_cmp.insert_duplicate [OF cmp inv] by simp
qed

theorem avl_insert_correct_witness:
  "\<exists>t'. avl_insert (\<lambda>_. True) (Node Null 5 0 Null) 7 int_cmp avl_dup_error = (0, t')
     \<and> int_order.avl_inv t' \<and> avl_find t' 7 int_cmp = Some 7 \<and> avl_find t' 5 int_cmp = Some 5"
proof -
  have inv: "int_order.avl_inv (Node Null 5 0 Null)"
    by (simp add: int_order.avl_inv_def int_order.sorted_by_def)
  show ?thesis
    using avl_insert_correct [OF int_order.avl_cmp_axioms inv, where data = 7 and ma = "\<lambda>_. True" and fdup = avl_dup_error]
    by (auto simp: int_cmp_def)
qed

text \<open>
  C17: \<^verbatim>\<open>avl_delete\<close> returns the stored data equal to the key, or NULL; the tree stays balanced and
  ordered, the key is no longer found, and every other key is found as before.
\<close>

theorem avl_delete_correct:
  assumes cmp: "avl_cmp fcmp" and inv: "avl_cmp.avl_inv fcmp t"
  shows "\<exists>t'. avl_delete t data fcmp = (avl_find t data fcmp, t') \<and> avl_cmp.avl_inv fcmp t'
           \<and> (\<forall>z. avl_find t' z fcmp = (if fcmp z data = 0 then None else avl_find t z fcmp))"
  using avl_cmp.find_after_delete [OF cmp inv] .

theorem avl_delete_correct_witness:
  "\<exists>t'. avl_delete (Node (Node Null 3 0 Null) 5 0 (Node Null 9 0 Null)) 5 int_cmp = (Some 5, t')
     \<and> int_order.avl_inv t' \<and> avl_find t' 5 int_cmp = None \<and> avl_find t' 9 int_cmp = Some 9"
proof -
  have inv: "int_order.avl_inv (Node (Node Null 3 0 Null) 5 0 (Node Null 9 0 Null))"
    by (simp add: int_order.avl_inv_def int_order.sorted_by_def int_cmp_def)
  show ?thesis
    using avl_delete_correct [OF int_order.avl_cmp_axioms inv, of 5] by (auto simp: int_cmp_def)
qed

text \<open>
  C18: on a balanced tree of fewer than \<open>2 ^ 45\<close> nodes, \<^verbatim>\<open>avl_delete\<close> pushes at most
  \<^verbatim>\<open>MAX_TREE_DEPTH\<close> = 64 entries on its parent stack.
\<close>

theorem avl_delete_stack_bound:
  assumes "avl_ok t" and "length (inorder t) < 2 ^ 45"
  shows "delete_depth t data fcmp \<le> MAX_TREE_DEPTH"
proof -
  have "avl_height t \<le> 64"
  proof (rule ccontr)
    assume "\<not> avl_height t \<le> 64"
    then have "fib 67 \<le> fib (avl_height t + 2)" by (intro fib_mono) simp
    then show False using avl_nodes [OF assms(1)] assms(2) unfolding fib_67 by simp
  qed
  then show ?thesis using delete_depth_height [of t data fcmp] by simp
qed

theorem avl_delete_stack_bound_witness:
  "delete_depth (Node (Node Null 3 0 Null) 5 0 (Node Null 9 0 Null)) 4 int_cmp \<le> MAX_TREE_DEPTH"
  using avl_delete_stack_bound [of "Node (Node Null 3 0 Null) 5 0 (Node Null 9 0 Null)" 4 int_cmp] by simp

text \<open>
  C19: the parent stack is not large enough for every tree an address space of \<open>2 ^ 64\<close> octets can hold:
  there is a balanced, ordered tree whose nodes, of 32 octets each, fit below \<open>2 ^ 51\<close> octets and a key for which
  \<^verbatim>\<open>avl_delete\<close> pushes 65 entries on the stack of 64.
\<close>

theorem avl_delete_stack_too_small:
  "int_order.avl_inv (fib_tree 65 1) \<and> 32 * length (inorder (fib_tree 65 1)) < 2 ^ 51
     \<and> delete_depth (fib_tree 65 1) 0 int_cmp = MAX_TREE_DEPTH + 1"
proof -
  have io: "inorder (fib_tree 65 1) = [1..44945570212852]"
    using fib_tree_inorder [of 65 1] fib_67 by (simp del: fib.simps fib_tree.simps)
  have len: "length (inorder (fib_tree 65 1)) = 44945570212852" unfolding io by simp
  have inv: "int_order.avl_inv (fib_tree 65 1)"
    unfolding int_order.avl_inv_def io using fib_tree_ok sorted_upto by blast
  obtain st where "avl_descend int_cmp 0 [] (fib_tree 65 1) = (st @ [], Null)" "length st = 65"
    using fib_tree_descend [of 65 1 0 "[]"] unfolding io by auto
  then have "delete_depth (fib_tree 65 1) 0 int_cmp = 65" by (simp add: delete_depth_def del: fib_tree.simps)
  then show ?thesis using inv len by (simp del: fib_tree.simps)
qed

text \<open>
  C20: \<^verbatim>\<open>avl_apply\<close> in in-order and pre-order calls the function on the elements in that order, passing
  its state along, and stops at the first call that returns the stop flag, for every stop flag but
  \<^verbatim>\<open>AVL_NOMORE\<close>.
\<close>

theorem avl_apply_visits:
  assumes "stopflag \<noteq> AVL_NOMORE"
  shows "avl_apply t fn arg stopflag 2 = apply_list fn stopflag (inorder t) arg
       \<and> avl_apply t fn arg stopflag 1 = apply_list fn stopflag (preorder t) arg"
  using assms by (simp add: avl_apply_def inapply_list preapply_list)

theorem avl_apply_visits_witness:
  "avl_apply (Node (Node Null 3 0 Null) 5 (- 1) Null) (\<lambda>x s. (if x = 5 then 1 else 0, s + x)) (0 :: int) 1 2
     = (1, 8 :: int)"
  using avl_apply_visits [of 1 "Node (Node Null 3 0 Null) 5 (- 1) Null" "\<lambda>x s. (if x = 5 then 1 else 0, s + x)" "0 :: int"]
  by simp

text \<open>
  \<^verbatim>\<open>avl_getfirst\<close> and the following calls of \<^verbatim>\<open>avl_getnext\<close> return the elements of the tree in
  order, one by one, and then NULL.
\<close>

theorem avl_getnext_enumerates:
  assumes "t \<noteq> Null" and "k < length (inorder t)"
  shows "fst (avl_getfirst t) = Some (inorder t ! 0)
       \<and> fst (avl_getnext (((\<lambda>st. snd (avl_getnext st)) ^^ k) (snd (avl_getfirst t))))
           = (if Suc k < length (inorder t) then Some (inorder t ! Suc k) else None)"
  using getfirst_run [OF assms(1)] getnext_iterate [OF assms(2)] assms(2) by (auto simp: avl_getnext_def)

theorem avl_getnext_enumerates_witness:
  "fst (avl_getnext (((\<lambda>st. snd (avl_getnext st)) ^^ 0) (snd (avl_getfirst (Node Null (3 :: int) 1 (Node Null 5 0 Null)))))) = Some 5"
  using avl_getnext_enumerates [of "Node Null (3 :: int) 1 (Node Null 5 0 Null)" 0] by simp

text \<open>\<^verbatim>\<open>avl_free\<close> hands every element to \<^verbatim>\<open>dfree\<close> exactly once and returns their number.\<close>

theorem avl_free_frees_all:
  "fst (avl_free t) = int (length (inorder t)) \<and> mset (snd (avl_free t)) = mset (inorder t)"
  using free_counts [of t "fst (avl_free t)" "snd (avl_free t)"] by simp

end
