(* ===== verification/Rewrite_Var.thy ===== *)
theory Rewrite_Var
  imports Avl_Order C_Strings
begin

text \<open>
  The variables of \<^verbatim>\<open>librewrite/var.c\<close>, a client of the AVL trees.  Names and values are C
  strings; a variable's strings are its own copies or the caller's, according to its flags.  The
  model keeps their contents: a caller that changes a string it has lent to a variable is not modelled.
  The pointer that \<^verbatim>\<open>avl_find\<close> returns leads into the tree, so a change through it changes
  the data of that node.  A failed \<^verbatim>\<open>assert\<close> ends the program: \<open>Inl AssertFailed\<close>.
\<close>

section \<open>Variables\<close>

abbreviation (input) REWRITE_VAR_INSERT :: "32 word" where "REWRITE_VAR_INSERT \<equiv> 1"
abbreviation (input) REWRITE_VAR_UPDATE :: "32 word" where "REWRITE_VAR_UPDATE \<equiv> 2"
abbreviation (input) REWRITE_VAR_COPY_NAME :: "32 word" where "REWRITE_VAR_COPY_NAME \<equiv> 4"
abbreviation (input) REWRITE_VAR_COPY_VALUE :: "32 word" where "REWRITE_VAR_COPY_VALUE \<equiv> 8"

text \<open>\<^verbatim>\<open>lv_value.bv_val\<close> can become NULL when a copy fails.\<close>

record rewrite_var =
  lv_name :: "byte list"
  lv_flags :: "32 word"
  lv_val :: "byte list option"
  lv_len :: nat

datatype rewrite_abort = AssertFailed

definition rewrite_var_cmp :: "rewrite_var \<Rightarrow> rewrite_var \<Rightarrow> int" where
  "rewrite_var_cmp v1 v2 = strcasecmp (lv_name v1) (lv_name v2)"

definition rewrite_var_dup :: "rewrite_var \<Rightarrow> rewrite_var \<Rightarrow> int" where
  "rewrite_var_dup v1 v2 = (if strcasecmp (lv_name v1) (lv_name v2) = 0 then -1 else 0)"

text \<open>The variable to search for: only its name is set.\<close>

definition var_key :: "byte list \<Rightarrow> rewrite_var" where
  "var_key name = \<lparr>lv_name = name, lv_flags = 0, lv_val = None, lv_len = 0\<rparr>"

definition rewrite_var_find :: "rewrite_var avlnode \<Rightarrow> byte list \<Rightarrow> rewrite_var option" where
  "rewrite_var_find tree name = avl_find tree (var_key name) rewrite_var_cmp"

text \<open>\<^verbatim>\<open>strdup\<close> of a string.\<close>

definition c_strdup :: "allocator \<Rightarrow> byte list \<Rightarrow> byte list option" where
  "c_strdup ma s = (if ma (length s + 1) then Some s else None)"

definition rewrite_var_replace ::
  "allocator \<Rightarrow> rewrite_var \<Rightarrow> byte list \<Rightarrow> 32 word \<Rightarrow> int \<times> rewrite_var" where
  "rewrite_var_replace ma var value flags =
     (let len = length value;
          var1 =
            (if lv_flags var AND REWRITE_VAR_COPY_VALUE \<noteq> 0 then
               (if flags AND REWRITE_VAR_COPY_VALUE \<noteq> 0 then
                  (if len \<le> lv_len var then var\<lparr>lv_val := Some value\<rparr>
                   else var\<lparr>lv_val := c_strdup ma value\<rparr>)
                else var\<lparr>lv_val := Some value, lv_flags := lv_flags var AND NOT REWRITE_VAR_COPY_VALUE\<rparr>)
             else
               (if flags AND REWRITE_VAR_COPY_VALUE \<noteq> 0
                then var\<lparr>lv_val := c_strdup ma value, lv_flags := lv_flags var OR REWRITE_VAR_COPY_VALUE\<rparr>
                else var\<lparr>lv_val := Some value\<rparr>))
      in if lv_val var1 = None then (-1, var1) else (0, var1\<lparr>lv_len := len\<rparr>))"

text \<open>Writing through the pointer that the search for \<open>key\<close> returned.\<close>

fun avl_store :: "('a \<Rightarrow> 'a \<Rightarrow> int) \<Rightarrow> 'a \<Rightarrow> 'a \<Rightarrow> 'a avlnode \<Rightarrow> 'a avlnode" where
  "avl_store fcmp key v Null = Null"
| "avl_store fcmp key v (Node l x bf r) =
     (let cmp = fcmp key x
      in if cmp = 0 then Node l v bf r
         else if cmp > 0 then Node l x bf (avl_store fcmp key v r)
         else Node (avl_store fcmp key v l) x bf r)"

text \<open>\<^verbatim>\<open>rewrite_var_free\<close> asserts that there is a value.\<close>

definition rewrite_var_free :: "rewrite_var \<Rightarrow> rewrite_abort + unit" where
  "rewrite_var_free var = (if lv_val var = None then Inl AssertFailed else Inr ())"

definition rewrite_var_delete :: "rewrite_var avlnode \<Rightarrow> rewrite_abort + int" where
  "rewrite_var_delete tree =
     (if list_all (\<lambda>v. lv_val v \<noteq> None) (snd (avl_free tree)) then Inr 0 else Inl AssertFailed)"

text \<open>
  The variable returned (\<open>None\<close> for NULL) and the tree.  A name that cannot be copied leaves
  \<^verbatim>\<open>lv_name\<close> NULL, and a value that cannot be copied leaves \<^verbatim>\<open>lv_value.bv_val\<close> NULL; the cleanup then
  runs into the asserts of \<^verbatim>\<open>rewrite_var_free\<close>.  The struct takes 32 octets.
\<close>

definition rewrite_var_insert_f ::
  "allocator \<Rightarrow> rewrite_var avlnode \<Rightarrow> byte list \<Rightarrow> byte list \<Rightarrow> 32 word
     \<Rightarrow> rewrite_abort + (rewrite_var option \<times> rewrite_var avlnode)" where
  "rewrite_var_insert_f ma tree name value flags =
     (case rewrite_var_find tree name of
        Some var \<Rightarrow>
          if flags AND REWRITE_VAR_UPDATE \<noteq> 0 then
            (let var1 = snd (rewrite_var_replace ma var value flags)
             in Inr (Some var1, avl_store rewrite_var_cmp (var_key name) var1 tree))
          else (case rewrite_var_free var of
                  Inl e \<Rightarrow> Inl e
                | Inr _ \<Rightarrow> Inr (None, snd (avl_delete tree var rewrite_var_cmp)))
      | None \<Rightarrow>
          if \<not> ma 32 then Inr (None, tree)
          else if flags AND REWRITE_VAR_COPY_NAME \<noteq> 0 \<and> c_strdup ma name = None then Inl AssertFailed
          else if flags AND REWRITE_VAR_COPY_VALUE \<noteq> 0 \<and> c_strdup ma value = None then Inl AssertFailed
          else
            (let var = \<lparr>lv_name = name,
                        lv_flags = flags AND (REWRITE_VAR_COPY_NAME OR REWRITE_VAR_COPY_VALUE),
                        lv_val = Some value, lv_len = length value\<rparr>
             in case avl_insert ma tree var rewrite_var_cmp rewrite_var_dup of
                  (rc, tree') \<Rightarrow>
                    if rc \<noteq> 0 then Inr (None, snd (avl_delete tree' var rewrite_var_cmp))
                    else Inr (Some var, tree')))"

definition rewrite_var_set_f ::
  "allocator \<Rightarrow> rewrite_var avlnode \<Rightarrow> byte list \<Rightarrow> byte list \<Rightarrow> 32 word
     \<Rightarrow> rewrite_abort + (rewrite_var option \<times> rewrite_var avlnode)" where
  "rewrite_var_set_f ma tree name value flags =
     (case rewrite_var_find tree name of
        None \<Rightarrow>
          if flags AND REWRITE_VAR_INSERT \<noteq> 0 then rewrite_var_insert_f ma tree name value flags
          else Inr (None, tree)
      | Some var \<Rightarrow>
          if lv_val var = None then Inl AssertFailed
          else let var1 = snd (rewrite_var_replace ma var value flags)
               in Inr (Some var1, avl_store rewrite_var_cmp (var_key name) var1 tree))"

section \<open>Lemmas\<close>

definition low :: "byte list \<Rightarrow> byte" where
  "low s = c_tolower (c_head s)"

lemma strcasecmp_step:
  "strcasecmp a b = (if low a \<noteq> low b then uint (low a) - uint (low b)
     else if low a = 0 then 0 else strcasecmp (tl a) (tl b))"
  by (subst strcasecmp.simps) (simp add: Let_def low_def)

lemma strcasecmp_neg:
  "strcasecmp a b < 0 \<longleftrightarrow> low a < low b \<or> (low a = low b \<and> low a \<noteq> 0 \<and> strcasecmp (tl a) (tl b) < 0)"
  unfolding strcasecmp_step [of a b] by (auto simp: word_less_def)

lemma strcasecmp_zero:
  "strcasecmp a b = 0 \<longleftrightarrow> low a = low b \<and> (low a = 0 \<or> strcasecmp (tl a) (tl b) = 0)"
  unfolding strcasecmp_step [of a b] by (auto simp: word_uint_eq_iff)

lemma strcasecmp_induct [case_names step]:
  assumes "\<And>a b. (low a = low b \<Longrightarrow> low a \<noteq> 0 \<Longrightarrow> P (tl a) (tl b)) \<Longrightarrow> P a b"
  shows "P a b"
proof (induction a b rule: strcasecmp.induct)
  case (1 a b)
  show ?case by (rule assms) (use 1 in \<open>simp add: low_def\<close>)
qed

lemma strcasecmp_refl: "strcasecmp a a = 0"
proof (induction a)
  case Nil
  show ?case by (subst strcasecmp_step) (simp add: low_def c_head_def c_tolower_0)
next
  case (Cons b a)
  then show ?case by (subst strcasecmp_step) simp
qed

lemma strcasecmp_swap: "strcasecmp b a = - strcasecmp a b"
proof (induction a b rule: strcasecmp_induct)
  case (step a b)
  then show ?case using strcasecmp_step [of a b] strcasecmp_step [of b a] by auto
qed

lemma strcasecmp_trans: "strcasecmp a b < 0 \<Longrightarrow> strcasecmp b c < 0 \<Longrightarrow> strcasecmp a c < 0"
proof (induction a b arbitrary: c rule: strcasecmp_induct)
  case (step a b)
  then show ?case
    using strcasecmp_neg [of a b] strcasecmp_neg [of b c] strcasecmp_neg [of a c] by auto
qed

lemma strcasecmp_equal: "strcasecmp a b = 0 \<Longrightarrow> strcasecmp a c = strcasecmp b c"
proof (induction a b arbitrary: c rule: strcasecmp_induct)
  case (step a b)
  then show ?case
    using strcasecmp_zero [of a b] strcasecmp_step [of a c] strcasecmp_step [of b c] by auto
qed

text \<open>The names' order meets the contract of the trees.\<close>

interpretation var_order: avl_cmp rewrite_var_cmp
proof
  fix x y z :: rewrite_var
  show "rewrite_var_cmp x x = 0" by (simp add: rewrite_var_cmp_def strcasecmp_refl)
  show "rewrite_var_cmp x y < 0 \<longleftrightarrow> 0 < rewrite_var_cmp y x"
    using strcasecmp_swap [of "lv_name x" "lv_name y"] by (simp add: rewrite_var_cmp_def)
  show "rewrite_var_cmp x y < 0 \<Longrightarrow> rewrite_var_cmp y z < 0 \<Longrightarrow> rewrite_var_cmp x z < 0"
    unfolding rewrite_var_cmp_def by (rule strcasecmp_trans)
  show "rewrite_var_cmp x y = 0 \<Longrightarrow> sgn (rewrite_var_cmp x z) = sgn (rewrite_var_cmp y z)"
    unfolding rewrite_var_cmp_def using strcasecmp_equal by metis
qed

section \<open>Writing through a found pointer\<close>

context avl_cmp
begin

lemma store_ok: "avl_ok (avl_store fcmp key v t) = avl_ok t \<and> avl_height (avl_store fcmp key v t) = avl_height t"
  by (induction t) (auto simp: Let_def)

lemma sorted_replace:
  assumes "sorted_by xs" and "\<And>y. y \<in> set xs \<Longrightarrow> fcmp (f y) y = 0"
  shows "sorted_by (map f xs)"
proof -
  have step: "fcmp (f x) (f y) < 0" if "x \<in> set xs" "y \<in> set xs" "fcmp x y < 0" for x y
    using that assms(2) cmp_eq_neg [of "f x" x "f y"] cmp_eq_pos [of "f y" y x] cmp_anti by auto
  show ?thesis
    using assms(1) unfolding sorted_by_def sorted_wrt_map
    by (rule sorted_wrt_mono_rel [rotated]) (simp add: step)
qed

lemma inorder_store:
  assumes "sorted_by (inorder t)"
  shows "inorder (avl_store fcmp key v t) = map (\<lambda>y. if fcmp key y = 0 then v else y) (inorder t)"
  using assms
proof (induction t)
  case (Node l x bf r)
  have s: "sorted_by (inorder l)" "sorted_by (inorder r)" "\<forall>y\<in>set (inorder l). fcmp y x < 0"
    "\<forall>y\<in>set (inorder r). fcmp x y < 0"
    using Node.prems by (auto simp: sorted_append sorted_Cons)
  have left: "fcmp key y \<noteq> 0" if "0 \<le> fcmp key x" "y \<in> set (inorder l)" for y
    using that s(3) cmp_eq_neg [of key y x] by force
  have right: "fcmp key y \<noteq> 0" if "fcmp key x \<le> 0" "y \<in> set (inorder r)" for y
    using that s(4) cmp_eq_pos [of key y x] cmp_anti [of x y] by force
  have keep: "map (\<lambda>y. if fcmp key y = 0 then v else y) ys = ys" if "\<forall>y\<in>set ys. fcmp key y \<noteq> 0" for ys
    using that by (simp add: map_idI)
  consider "fcmp key x = 0" | "0 < fcmp key x" | "fcmp key x < 0" by linarith
  then show ?case
    by cases (use Node.IH s left right keep in \<open>simp_all add: Let_def\<close>)
qed simp

lemma store_spec:
  assumes inv: "avl_inv t" and x: "avl_find t key fcmp = Some x" and v: "fcmp v x = 0"
  shows "avl_inv (avl_store fcmp key v t)
       \<and> (\<forall>z. avl_find (avl_store fcmp key v t) z fcmp = (if fcmp z key = 0 then Some v else avl_find t z fcmp))"
proof -
  let ?t = "avl_store fcmp key v t" and ?f = "\<lambda>y. if fcmp key y = 0 then v else y"
  have sorted: "sorted_by (inorder t)" using inv by (simp add: avl_inv_def)
  have x': "x \<in> set (inorder t)" "fcmp key x = 0"
    using x find_inorder [OF sorted] find_Some_set [OF sorted] by auto
  have eqv: "fcmp a c = 0" if "fcmp a b = 0" "fcmp b c = 0" for a b c
    using that cmp_eq_pos [of a b c] cmp_eq_neg [of a b c] by linarith
  have f: "fcmp (?f y) y = 0" for y
    using v x'(2) eqv [of v x y] eqv [of x key y] cmp_sym0 by (auto simp: cmp_refl)
  have io: "inorder ?t = map ?f (inorder t)" by (rule inorder_store [OF sorted])
  have sorted': "sorted_by (inorder ?t)" unfolding io by (rule sorted_replace [OF sorted f])
  have kv: "fcmp key v = 0" using x'(2) v eqv cmp_sym0 by blast
  have "avl_find ?t z fcmp = (if fcmp z key = 0 then Some v else avl_find t z fcmp)" for z
  proof (cases "fcmp z key = 0")
    case True
    then have "v \<in> set (inorder ?t)" "fcmp z v = 0" using x' io kv eqv by force+
    then show ?thesis using True find_Some_set [OF sorted'] find_inorder [OF sorted'] by simp
  next
    case False
    have other: "fcmp key y \<noteq> 0" if "fcmp z y = 0" for y using that False eqv cmp_sym0 by blast
    have "find (\<lambda>y. fcmp z y = 0) (inorder ?t) = find (\<lambda>y. fcmp z y = 0) (inorder t)"
    proof (rule find_eqI [OF sorted' sorted])
      fix y assume y: "fcmp z y = 0"
      show "y \<in> set (inorder ?t) \<longleftrightarrow> y \<in> set (inorder t)"
        using other [OF y] kv unfolding io by (auto simp: image_iff)
    qed
    then show ?thesis using False find_inorder [OF sorted'] find_inorder [OF sorted] by simp
  qed
  then show ?thesis using inv sorted' store_ok by (simp add: avl_inv_def)
qed

end

section \<open>The variables as a map\<close>

text \<open>What the tree means: each name's value, if it is defined.\<close>

definition var_value :: "rewrite_var avlnode \<Rightarrow> byte list \<Rightarrow> byte list option" where
  "var_value tree name = (case rewrite_var_find tree name of None \<Rightarrow> None | Some v \<Rightarrow> lv_val v)"

text \<open>Every variable has a value, and the tree is balanced and ordered by name.\<close>

definition vars_inv :: "rewrite_var avlnode \<Rightarrow> bool" where
  "vars_inv tree \<longleftrightarrow> var_order.avl_inv tree \<and> (\<forall>v\<in>set (inorder tree). lv_val v \<noteq> None)"

lemma cmp_key [simp]: "rewrite_var_cmp (var_key n) v = strcasecmp n (lv_name v)"
  by (simp add: rewrite_var_cmp_def var_key_def)

lemma replace_granted:
  assumes "\<forall>n. ma n"
  shows "\<exists>v'. rewrite_var_replace ma v value flags = (0, v') \<and> lv_name v' = lv_name v \<and> lv_val v' = Some value
           \<and> lv_len v' = length value"
  using assms by (auto simp: rewrite_var_replace_def c_strdup_def Let_def)

lemma find_in_tree:
  assumes "vars_inv tree" and "rewrite_var_find tree name = Some v"
  shows "v \<in> set (inorder tree) \<and> strcasecmp name (lv_name v) = 0 \<and> lv_val v \<noteq> None"
proof -
  have sorted: "var_order.sorted_by (inorder tree)" using assms(1) by (simp add: vars_inv_def var_order.avl_inv_def)
  have "find (\<lambda>y. rewrite_var_cmp (var_key name) y = 0) (inorder tree) = Some v"
    using assms(2) var_order.find_inorder [OF sorted] by (simp add: rewrite_var_find_def)
  then show ?thesis
    using assms(1) var_order.find_Some_set [OF sorted, of "var_key name" v] by (auto simp: vars_inv_def)
qed

lemma update_found:
  assumes inv: "vars_inv tree" and v: "rewrite_var_find tree name = Some v" and mem: "\<forall>n. ma n"
    and w_def: "w = snd (rewrite_var_replace ma v value flags)"
  shows "lv_val w = Some value \<and> vars_inv (avl_store rewrite_var_cmp (var_key name) w tree)
       \<and> (\<forall>n. var_value (avl_store rewrite_var_cmp (var_key name) w tree) n
                = (if strcasecmp n name = 0 then Some value else var_value tree n))"
proof -
  have w: "lv_name w = lv_name v" "lv_val w = Some value"
    using replace_granted [OF mem, of v "value" flags] by (auto simp: w_def)
  have a: "var_order.avl_inv tree" using inv by (simp add: vars_inv_def)
  then have sorted: "var_order.sorted_by (inorder tree)" by (simp add: var_order.avl_inv_def)
  have "rewrite_var_cmp w v = 0" by (simp add: rewrite_var_cmp_def w strcasecmp_refl)
  note st = var_order.store_spec [OF a v [unfolded rewrite_var_find_def] this]
  have vals: "lv_val u \<noteq> None" if "u \<in> set (inorder (avl_store rewrite_var_cmp (var_key name) w tree))" for u
    using that inv w(2) unfolding var_order.inorder_store [OF sorted] by (auto simp: vars_inv_def)
  have "rewrite_var_cmp (var_key n) (var_key name) = strcasecmp n name" for n
    by (simp add: rewrite_var_cmp_def var_key_def)
  then show ?thesis
    using st vals w(2) by (auto simp: vars_inv_def var_value_def rewrite_var_find_def)
qed

lemma insert_fresh:
  assumes inv: "vars_inv tree" and v: "rewrite_var_find tree name = None" and mem: "\<forall>n. ma n"
  shows "\<exists>w tree'. rewrite_var_insert_f ma tree name value flags = Inr (Some w, tree') \<and> lv_val w = Some value
           \<and> vars_inv tree'
           \<and> (\<forall>n. var_value tree' n = (if strcasecmp n name = 0 then Some value else var_value tree n))"
proof -
  define w where "w = \<lparr>lv_name = name, lv_flags = flags AND (REWRITE_VAR_COPY_NAME OR REWRITE_VAR_COPY_VALUE),
                       lv_val = Some value, lv_len = length value\<rparr>"
  have a: "var_order.avl_inv tree" using inv by (simp add: vars_inv_def)
  then have sorted: "var_order.sorted_by (inorder tree)" by (simp add: var_order.avl_inv_def)
  have key: "rewrite_var_cmp w u = rewrite_var_cmp (var_key name) u" for u
    by (simp add: w_def rewrite_var_cmp_def var_key_def)
  have new: "\<forall>y\<in>set (inorder tree). rewrite_var_cmp w y \<noteq> 0"
    using v var_order.find_inorder [OF sorted, of "var_key name"]
    by (auto simp: rewrite_var_find_def find_None_iff key)
  then have none: "avl_find tree w rewrite_var_cmp = None"
    using var_order.find_inorder [OF sorted, of w] by (auto simp: find_None_iff)
  have "ma 32" using mem by simp
  then obtain t' where t': "avl_insert ma tree w rewrite_var_cmp rewrite_var_dup = (0, t')" "var_order.avl_inv t'"
    "inorder t' = var_order.insert_list w (inorder tree)"
    using var_order.insert_new [where ma = ma and fdup = rewrite_var_dup, OF a new] by blast
  have fnd: "avl_find t' z rewrite_var_cmp = (if rewrite_var_cmp z w = 0 then Some w else avl_find tree z rewrite_var_cmp)" for z
    using var_order.find_after_insert [where ma = ma and fdup = rewrite_var_dup, OF a none \<open>ma 32\<close>] t'(1) by auto
  have "set (inorder t') = insert w (set (inorder tree))"
    using t'(3) var_order.set_insert_list [OF new] by simp
  then have "vars_inv t'" using inv t'(2) by (auto simp: vars_inv_def w_def)
  moreover have "rewrite_var_insert_f ma tree name value flags = Inr (Some w, t')"
    using v mem t'(1) by (simp add: rewrite_var_insert_f_def c_strdup_def Let_def w_def)
  moreover have "rewrite_var_cmp (var_key n) w = strcasecmp n name" for n by (simp add: w_def)
  ultimately show ?thesis
    using fnd by (intro exI [of _ w] exI [of _ t']) (auto simp: var_value_def rewrite_var_find_def w_def)
qed

section \<open>Properties\<close>

text \<open>
  C23: \<^verbatim>\<open>rewrite_var_set_f\<close> with \<^verbatim>\<open>REWRITE_VAR_INSERT\<close>, when memory is granted, implements an update of
  the map from names (up to letter case) to values: the name gets the value, every other name
  keeps its own, the tree stays balanced and ordered, and every variable has a value.
\<close>

theorem rewrite_var_set_refines_update:
  assumes inv: "vars_inv tree" and mem: "\<forall>n. ma n" and ins: "flags AND REWRITE_VAR_INSERT \<noteq> 0"
  shows "\<exists>v tree'. rewrite_var_set_f ma tree name value flags = Inr (Some v, tree')
           \<and> lv_val v = Some value \<and> vars_inv tree'
           \<and> (\<forall>n. var_value tree' n = (if strcasecmp n name = 0 then Some value else var_value tree n))"
proof (cases "rewrite_var_find tree name")
  case None
  then show ?thesis
    using insert_fresh [OF inv None mem, of "value" flags] ins by (simp add: rewrite_var_set_f_def)
next
  case (Some v)
  have "lv_val v \<noteq> None" using find_in_tree [OF inv Some] by simp
  then show ?thesis
    using update_found [OF inv Some mem refl, of "value" flags] Some by (auto simp: rewrite_var_set_f_def Let_def)
qed

theorem rewrite_var_set_refines_update_witness:
  "\<exists>v tree'. rewrite_var_set_f (\<lambda>_. True) Null [65] [7] (REWRITE_VAR_INSERT OR REWRITE_VAR_UPDATE) = Inr (Some v, tree')
     \<and> var_value tree' [97] = Some [7] \<and> var_value tree' [98] = None"
proof -
  have inv: "vars_inv Null" by (simp add: vars_inv_def var_order.avl_inv_def var_order.sorted_by_def)
  have "strcasecmp [97] [65] = 0" "strcasecmp [98] [65] \<noteq> 0" by code_simp+
  moreover have "var_value Null [98] = None" by (simp add: var_value_def rewrite_var_find_def)
  ultimately show ?thesis
    using rewrite_var_set_refines_update [OF inv, of "\<lambda>_. True" "REWRITE_VAR_INSERT OR REWRITE_VAR_UPDATE" "[65]" "[7]"]
    by auto
qed

text \<open>
  C24: \<^verbatim>\<open>rewrite_var_insert_f\<close> of a name that is already defined, without \<^verbatim>\<open>REWRITE_VAR_UPDATE\<close>, returns
  NULL and removes the existing variable from the tree: its cleanup deletes the variable that
  the search found, not a new one.
\<close>

theorem rewrite_var_insert_duplicate_deletes:
  assumes inv: "vars_inv tree" and dup: "rewrite_var_find tree name = Some v"
    and noupd: "flags AND REWRITE_VAR_UPDATE = 0"
  shows "\<exists>tree'. rewrite_var_insert_f ma tree name value flags = Inr (None, tree') \<and> vars_inv tree'
           \<and> (\<forall>n. var_value tree' n = (if strcasecmp n name = 0 then None else var_value tree n))"
proof -
  have a: "var_order.avl_inv tree" using inv by (simp add: vars_inv_def)
  have v: "strcasecmp name (lv_name v) = 0" "lv_val v \<noteq> None" using find_in_tree [OF inv dup] by auto
  obtain t' where t': "avl_delete tree v rewrite_var_cmp = (avl_find tree v rewrite_var_cmp, t')" "var_order.avl_inv t'"
    "\<forall>z. avl_find t' z rewrite_var_cmp = (if rewrite_var_cmp z v = 0 then None else avl_find tree z rewrite_var_cmp)"
    using var_order.find_after_delete [OF a, of v] by blast
  have "inorder t' = var_order.delete_list v (inorder tree)"
    using var_order.delete_spec [OF a, of v] t'(1) by auto
  then have vi: "vars_inv t'" using inv t'(2) by (auto simp: vars_inv_def var_order.delete_list_def)
  have same: "strcasecmp n (lv_name v) = 0 \<longleftrightarrow> strcasecmp n name = 0" for n
    using strcasecmp_equal [OF v(1), of n] strcasecmp_swap [of n name] strcasecmp_swap [of n "lv_name v"] by simp
  have "rewrite_var_insert_f ma tree name value flags = Inr (None, t')"
    using dup noupd v(2) t'(1) by (simp add: rewrite_var_insert_f_def rewrite_var_free_def)
  moreover have "var_value t' n = (if strcasecmp n name = 0 then None else var_value tree n)" for n
    using t'(3) by (simp add: var_value_def rewrite_var_find_def same)
  ultimately show ?thesis using vi by blast
qed

theorem rewrite_var_insert_duplicate_deletes_witness:
  "\<exists>tree'. rewrite_var_insert_f (\<lambda>_. True) (Node Null \<lparr>lv_name = [65], lv_flags = 0, lv_val = Some [1], lv_len = 1\<rparr> 0 Null)
       [97] [2] 0 = Inr (None, tree') \<and> var_value tree' [97] = None"
proof -
  let ?v = "\<lparr>lv_name = [65], lv_flags = 0, lv_val = Some [1], lv_len = 1\<rparr>" and ?n = "[97] :: byte list"
  have inv: "vars_inv (Node Null ?v 0 Null)"
    by (simp add: vars_inv_def var_order.avl_inv_def var_order.sorted_by_def)
  have "strcasecmp ?n [65] = 0" by code_simp
  then have "rewrite_var_find (Node Null ?v 0 Null) ?n = Some ?v" by (simp add: rewrite_var_find_def Let_def)
  from rewrite_var_insert_duplicate_deletes [OF inv this, of 0 "\<lambda>_. True" "[2]"] show ?thesis
    using strcasecmp_refl [of ?n] by auto
qed

end
