(* ===== verification/Sorted_Ids.thy ===== *)
theory Sorted_Ids
  imports Ldap_Prelude
begin

text \<open>
  Sorted arrays of identifiers that are searched by bisection.  The locale states what a
  client of such a search relies on: the position is the number of smaller entries, and the
  flag tells whether the entry at that position is the one looked for.
\<close>

section \<open>Strictly sorted lists\<close>

abbreviation (input) ascending :: "'k::linorder list \<Rightarrow> bool" where
  "ascending xs \<equiv> sorted_wrt (<) xs"

definition rank :: "'k::linorder list \<Rightarrow> 'k \<Rightarrow> nat" where
  "rank xs k = length (filter (\<lambda>x. x < k) xs)"

lemma rank_le: "rank xs k \<le> length xs"
  by (simp add: rank_def)

lemma filter_less_take: "ascending xs \<Longrightarrow> filter (\<lambda>x. x < k) xs = take (rank xs k) xs"
proof (induction xs)
  case (Cons x xs)
  show ?case
  proof (cases "x < k")
    case False
    then have "\<forall>y\<in>set xs. \<not> y < k" using Cons.prems by auto
    then show ?thesis using False by (simp add: rank_def filter_empty_conv)
  next
    case True
    then show ?thesis using Cons by (simp add: rank_def)
  qed
qed (simp add: rank_def)

lemma filter_ge_drop: "ascending xs \<Longrightarrow> filter (\<lambda>x. \<not> x < k) xs = drop (rank xs k) xs"
proof (induction xs)
  case (Cons x xs)
  show ?case
  proof (cases "x < k")
    case False
    then have "\<forall>y\<in>set xs. \<not> y < k" using Cons.prems by auto
    then show ?thesis using False by (simp add: rank_def filter_id_conv filter_empty_conv)
  next
    case True
    then show ?thesis using Cons by (simp add: rank_def)
  qed
qed (simp add: rank_def)

lemma below_rank: "ascending xs \<Longrightarrow> x \<in> set (take (rank xs k) xs) \<Longrightarrow> x < k"
  by (simp flip: filter_less_take)

lemma from_rank: "ascending xs \<Longrightarrow> x \<in> set (drop (rank xs k) xs) \<Longrightarrow> k \<le> x"
  by (auto simp flip: filter_ge_drop)

text \<open>The rank is the only position between the smaller and the other entries.\<close>

lemma rank_eqI:
  assumes "p \<le> length xs" and "\<And>i. i < p \<Longrightarrow> xs ! i < k" and "\<And>i. p \<le> i \<Longrightarrow> i < length xs \<Longrightarrow> k \<le> xs ! i"
  shows "rank xs k = p"
proof -
  have "filter (\<lambda>x. x < k) xs = filter (\<lambda>x. x < k) (take p xs) @ filter (\<lambda>x. x < k) (drop p xs)"
    by (metis append_take_drop_id filter_append)
  moreover have "filter (\<lambda>x. x < k) (take p xs) = take p xs"
    using assms(1,2) by (auto simp: filter_id_conv in_set_conv_nth)
  moreover have "filter (\<lambda>x. x < k) (drop p xs) = []"
  proof -
    have "\<not> xs ! (p + i) < k" if "i < length xs - p" for i using assms(3) [of "p + i"] that by force
    then show ?thesis by (auto simp: filter_empty_conv in_set_conv_nth)
  qed
  ultimately show ?thesis using assms(1) by (simp add: rank_def)
qed

lemma ascending_nth_less: "ascending xs \<Longrightarrow> i < j \<Longrightarrow> j < length xs \<Longrightarrow> xs ! i < xs ! j"
  by (simp add: sorted_wrt_iff_nth_less)

lemma rank_nth:
  assumes "ascending xs" and "p < length xs"
  shows "rank xs (xs ! p) = p"
  using assms by (intro rank_eqI) (auto simp: ascending_nth_less dest: ascending_nth_less intro: order.strict_implies_order
      simp: le_less)

lemma member_at_rank:
  assumes "ascending xs"
  shows "k \<in> set xs \<longleftrightarrow> rank xs k < length xs \<and> xs ! rank xs k = k"
proof
  assume "k \<in> set xs"
  then obtain p where "p < length xs" "xs ! p = k" by (auto simp: in_set_conv_nth)
  then show "rank xs k < length xs \<and> xs ! rank xs k = k" using rank_nth [OF assms] by auto
next
  assume "rank xs k < length xs \<and> xs ! rank xs k = k"
  then show "k \<in> set xs" by (metis nth_mem)
qed

definition insert_at :: "'a list \<Rightarrow> nat \<Rightarrow> 'a \<Rightarrow> 'a list" where
  "insert_at xs p x = take p xs @ x # drop p xs"

definition delete_at :: "'a list \<Rightarrow> nat \<Rightarrow> 'a list" where
  "delete_at xs p = take p xs @ drop (Suc p) xs"

lemma ascending_insert_at:
  assumes "ascending xs" and "k \<notin> set xs"
  shows "ascending (insert_at xs (rank xs k) k) \<and> set (insert_at xs (rank xs k) k) = insert k (set xs)"
proof -
  have "k < x" if "x \<in> set (drop (rank xs k) xs)" for x
    using from_rank [OF assms(1) that] assms(2) in_set_dropD [OF that] by (metis order.not_eq_order_implies_strict)
  moreover have "x < y" if "x \<in> set (take (rank xs k) xs)" "y \<in> set (drop (rank xs k) xs)" for x y
    using below_rank [OF assms(1) that(1)] from_rank [OF assms(1) that(2)] by (rule less_le_trans)
  moreover have "set xs = set (take (rank xs k) xs) \<union> set (drop (rank xs k) xs)"
    by (metis append_take_drop_id set_append)
  ultimately show ?thesis
    using assms(1) below_rank [OF assms(1)]
    by (auto simp: insert_at_def sorted_wrt_append sorted_wrt_take sorted_wrt_drop)
qed

lemma ascending_delete_at:
  assumes "ascending xs" and "k \<in> set xs"
  shows "ascending (delete_at xs (rank xs k)) \<and> set (delete_at xs (rank xs k)) = set xs - {k}"
proof -
  have p: "rank xs k < length xs" "xs ! rank xs k = k" using assms member_at_rank by blast+
  have xs: "xs = take (rank xs k) xs @ k # drop (Suc (rank xs k)) xs"
    using id_take_nth_drop [OF p(1)] p(2) by simp
  have "ascending (take (rank xs k) xs @ k # drop (Suc (rank xs k)) xs)" using assms(1) xs by simp
  then have s: "ascending (delete_at xs (rank xs k))"
    and lt: "\<forall>x\<in>set (take (rank xs k) xs). x < k" "\<forall>x\<in>set (drop (Suc (rank xs k)) xs). k < x"
    by (auto simp: delete_at_def sorted_wrt_append)
  have "set xs = set (take (rank xs k) xs) \<union> {k} \<union> set (drop (Suc (rank xs k)) xs)"
    using arg_cong [OF xs, of set] by auto
  then have "set (delete_at xs (rank xs k)) = set xs - {k}" using lt by (auto simp: delete_at_def)
  then show ?thesis using s by blast
qed

section \<open>The contract of a search\<close>

locale sorted_search =
  fixes find_pos :: "'k::linorder list \<Rightarrow> 'k \<Rightarrow> nat \<times> bool"
    and ok :: "'k list \<Rightarrow> 'k \<Rightarrow> bool"
  assumes find_pos: "ascending xs \<Longrightarrow> ok xs k \<Longrightarrow> find_pos xs k = (rank xs k, k \<in> set xs)"
begin

text \<open>A client that inserts where the search says, when the entry is missing.\<close>

lemma insert_missing:
  assumes "ascending xs" and "ok xs k" and "\<not> snd (find_pos xs k)"
  shows "ascending (insert_at xs (fst (find_pos xs k)) k)
       \<and> set (insert_at xs (fst (find_pos xs k)) k) = insert k (set xs)"
  using assms ascending_insert_at [OF assms(1)] by (simp add: find_pos)

text \<open>A client that deletes what the search found.\<close>

lemma delete_found:
  assumes "ascending xs" and "ok xs k" and "snd (find_pos xs k)"
  shows "fst (find_pos xs k) < length xs \<and> xs ! fst (find_pos xs k) = k
       \<and> ascending (delete_at xs (fst (find_pos xs k)))
       \<and> set (delete_at xs (fst (find_pos xs k))) = set xs - {k}"
  using assms ascending_delete_at [OF assms(1)] member_at_rank [OF assms(1), of k] by (simp add: find_pos)

end

end
