(* ===== verification/Abandon.thy ===== *)
theory Abandon
  imports Sorted_Ids
begin

text \<open>
  The list of abandoned operations that an \<^verbatim>\<open>LDAP\<close> handle keeps (\<^verbatim>\<open>libldap/abandon.c\<close> and the
  end of \<^verbatim>\<open>libldap/result.c\<close>).  \<^verbatim>\<open>ld_abandoned\<close> with its length \<^verbatim>\<open>ld_nabandoned\<close> is a list of
  message ids, which are non-negative C integers; array positions are C integers too, so that a
  length is converted and a sum of two positions may have no value.
\<close>

section \<open>Bisection\<close>

definition in_array :: "int list \<Rightarrow> int \<Rightarrow> bool" where
  "in_array v i \<longleftrightarrow> 0 \<le> i \<and> i < int (length v)"

text \<open>
  The \<^verbatim>\<open>do ... while\<close> loop between \<^verbatim>\<open>begin\<close> (\<open>lo\<close>) and \<^verbatim>\<open>end\<close> (\<open>hi\<close>): the return code and
  \<^verbatim>\<open>pos\<close>; \<open>None\<close> when \<^verbatim>\<open>begin + end\<close> overflows or \<^verbatim>\<open>pos\<close> is outside the array.  Where
  \<^verbatim>\<open>pos\<close> is used the sum is not negative, so the C division is \<open>div\<close>.
\<close>

function bisect_loop :: "int list \<Rightarrow> int \<Rightarrow> int \<Rightarrow> int \<Rightarrow> (int \<times> int) option" where
  "bisect_loop v msgid lo hi =
     (let pos = (lo + hi) div 2
      in if c_int (lo + hi) = None \<or> \<not> in_array v pos then None
         else if msgid < v ! nat pos then
           (let hi' = pos - 1 in if hi' \<ge> lo then bisect_loop v msgid lo hi' else Some (0, pos))
         else if msgid > v ! nat pos then
           (let lo' = pos + 1 in if hi \<ge> lo' then bisect_loop v msgid lo' hi else Some (0, pos + 1))
         else Some (1, pos))"
  by pat_completeness auto
termination
  by (relation "measure (\<lambda>(v, msgid, lo, hi). nat (hi - lo + 1))") auto

declare bisect_loop.simps [simp del]

text \<open>
  The return code and \<^verbatim>\<open>*idxp\<close>; a failing assertion, or an access outside the array, gives \<open>None\<close>.
\<close>

definition ldap_int_bisect_find :: "int list \<Rightarrow> int \<Rightarrow> (int \<times> int) option" where
  "ldap_int_bisect_find v msgid =
     (let n = int (length v); hi = c_to_int (n - 1)
      in if msgid < 0 then None
         else if n \<le> 0 \<or> msgid < v ! 0 then Some (0, 0)
         else if \<not> in_array v hi then None
         else if msgid > v ! nat hi then Some (0, c_to_int n)
         else bisect_loop v msgid 0 hi)"

text \<open>Shifting the tail up by one, from the last position down.\<close>

fun shift_up :: "'a list \<Rightarrow> nat \<Rightarrow> nat \<Rightarrow> 'a list" where
  "shift_up v idx 0 = v"
| "shift_up v idx (Suc i) = (if Suc i > idx then shift_up (v[Suc i := v ! i]) idx i else v)"

definition ldap_int_bisect_insert :: "allocator \<Rightarrow> int list \<Rightarrow> int \<Rightarrow> int \<Rightarrow> (int \<times> int list) option" where
  "ldap_int_bisect_insert ma v msgid idx =
     (let n = length v
      in if idx < 0 \<or> nat idx > n then None
         else if \<not> ma (4 * (n + 1)) then Some (-1, v)
         else let v1 = v @ [0]; v2 = shift_up v1 (nat idx) (nat (c_to_int (int n))) in Some (0, v2[nat idx := msgid]))"

text \<open>Shifting the tail down by one; \<open>k\<close> is the number of entries left to move.\<close>

fun shift_down :: "'a list \<Rightarrow> nat \<Rightarrow> nat \<Rightarrow> 'a list" where
  "shift_down v i 0 = v"
| "shift_down v i (Suc k) = shift_down (v[i := v ! Suc i]) (Suc i) k"

definition ldap_int_bisect_delete :: "int list \<Rightarrow> int \<Rightarrow> int \<Rightarrow> (int \<times> int list) option" where
  "ldap_int_bisect_delete v msgid idx =
     (if idx < 0 \<or> nat idx \<ge> length v \<or> v ! nat idx \<noteq> msgid then None
      else let n = length v - 1 in Some (0, take n (shift_down v (nat idx) (n - nat idx))))"

section \<open>Abandoned operations\<close>

text \<open>The step of \<^verbatim>\<open>do_abandon\<close> that records an operation.\<close>

definition note_abandoned :: "allocator \<Rightarrow> int list \<Rightarrow> int \<Rightarrow> int list option" where
  "note_abandoned ma ld_abandoned msgid =
     (case (if ld_abandoned = [] then Some (0, 0) else ldap_int_bisect_find ld_abandoned msgid) of
        None \<Rightarrow> None
      | Some (rc, i) \<Rightarrow>
          if rc = 0 then map_option snd (ldap_int_bisect_insert ma ld_abandoned msgid i)
          else Some ld_abandoned)"

definition ldap_abandoned :: "int list \<Rightarrow> int \<Rightarrow> int option" where
  "ldap_abandoned ld_abandoned msgid =
     (if msgid < 0 then None else map_option fst (ldap_int_bisect_find ld_abandoned msgid))"

definition ldap_mark_abandoned :: "int list \<Rightarrow> int \<Rightarrow> (int \<times> int list) option" where
  "ldap_mark_abandoned ld_abandoned msgid =
     (if msgid < 0 then None
      else case ldap_int_bisect_find ld_abandoned msgid of
        None \<Rightarrow> None
      | Some (ret, idx) \<Rightarrow>
          if ret \<le> 0 then Some (ret, ld_abandoned) else ldap_int_bisect_delete ld_abandoned msgid idx)"

section \<open>Lemmas\<close>

text \<open>While the loop runs, everything before \<open>lo\<close> is smaller and everything behind \<open>hi\<close> larger.\<close>

lemma bisect_loop_spec:
  assumes "ascending v" and "0 \<le> b" and "b \<le> e" and "e < int (length v)" and "length v \<le> 2 ^ 30"
    and "\<And>i. i < nat b \<Longrightarrow> v ! i < msgid" and "\<And>i. nat e < i \<Longrightarrow> i < length v \<Longrightarrow> msgid < v ! i"
  shows "bisect_loop v msgid b e = Some (if msgid \<in> set v then 1 else 0, int (rank v msgid))"
  using assms
proof (induction v msgid b e rule: bisect_loop.induct)
  case (1 v msgid b e)
  define pos where "pos = (b + e) div 2"
  have p: "b \<le> pos" "pos \<le> e" "0 \<le> pos" "nat pos < length v"
    using "1.prems"(2-4) by (auto simp: pos_def)
  have ok: "\<not> (c_int (b + e) = None \<or> \<not> in_array v pos)"
    using "1.prems"(2-5) p by (simp add: c_int_def in_array_def)
  note asc = "1.prems"(1)
  have before: "v ! i < v ! nat pos" if "i < nat pos" for i using ascending_nth_less [OF asc that p(4)] .
  have after: "v ! nat pos < v ! i" if "nat pos < i" "i < length v" for i using ascending_nth_less [OF asc that] .
  have absent: "msgid \<notin> set v" if "\<And>i. i < q \<Longrightarrow> v ! i < msgid" "\<And>i. q \<le> i \<Longrightarrow> i < length v \<Longrightarrow> msgid < v ! i" for q
    using that by (metis in_set_conv_nth less_irrefl not_le)
  consider "msgid < v ! nat pos" | "v ! nat pos < msgid" | "v ! nat pos = msgid" by fastforce
  then show ?case
  proof cases
    case less: 1
    have hi: "msgid < v ! i" if "nat (pos - 1) < i" "i < length v" for i
      using less after [of i] that by (cases "i = nat pos") force+
    show ?thesis
    proof (cases "pos - 1 \<ge> b")
      case True
      then have "bisect_loop v msgid b (pos - 1) = Some (if msgid \<in> set v then 1 else 0, int (rank v msgid))"
        using "1.IH"(1) [OF pos_def ok less refl True asc] p "1.prems"(2-6) hi by auto
      then show ?thesis using less True ok by (subst bisect_loop.simps) (simp add: Let_def flip: pos_def)
    next
      case False
      then have b: "pos = b" using p by simp
      have lo: "v ! i < msgid" if "i < nat pos" for i using "1.prems"(6) that b by simp
      have hi': "msgid < v ! i" if "nat pos \<le> i" "i < length v" for i
        using less after [of i] that by (cases "i = nat pos") force+
      have "rank v msgid = nat pos" using lo hi' p(4) by (intro rank_eqI) (auto simp: less_imp_le)
      moreover have "msgid \<notin> set v" by (rule absent [OF lo hi'])
      moreover have "bisect_loop v msgid b e = Some (0, pos)"
        using less False ok by (subst bisect_loop.simps) (simp add: Let_def flip: pos_def)
      ultimately show ?thesis using p(3) by simp
    qed
  next
    case greater: 2
    have lo: "v ! i < msgid" if "i < nat (pos + 1)" for i
      using greater before [of i] that by (cases "i = nat pos") force+
    show ?thesis
    proof (cases "e \<ge> pos + 1")
      case True
      have nl: "\<not> msgid < v ! nat pos" using greater by simp
      have "bisect_loop v msgid (pos + 1) e = Some (if msgid \<in> set v then 1 else 0, int (rank v msgid))"
        using "1.IH"(2) [OF pos_def ok nl greater refl True asc] True p(1,3) "1.prems"(2,4,5,7) lo by simp
      then show ?thesis using greater True ok by (subst bisect_loop.simps) (simp add: Let_def flip: pos_def)
    next
      case False
      then have e: "pos = e" using p by simp
      have hi: "msgid < v ! i" if "nat (pos + 1) \<le> i" "i < length v" for i
        using "1.prems"(7) [of i] that e p(3) by (simp add: Suc_le_eq nat_add_distrib)
      have "rank v msgid = nat (pos + 1)" using lo hi p(3,4) by (intro rank_eqI) (auto simp: less_imp_le)
      moreover have "msgid \<notin> set v" by (rule absent [OF lo hi])
      moreover have "bisect_loop v msgid b e = Some (0, pos + 1)"
        using greater False ok by (subst bisect_loop.simps) (simp add: Let_def flip: pos_def)
      ultimately show ?thesis using p(3) by simp
    qed
  next
    case eq: 3
    then have "msgid \<in> set v" using p(4) by auto
    moreover have "rank v msgid = nat pos" using rank_nth [OF asc p(4)] eq by simp
    moreover have "bisect_loop v msgid b e = Some (1, pos)"
      using eq ok by (subst bisect_loop.simps) (simp add: Let_def flip: pos_def)
    ultimately show ?thesis using p(3) by simp
  qed
qed

lemma bisect_find_spec:
  assumes asc: "ascending v" and nn: "0 \<le> msgid" and short: "length v \<le> 2 ^ 30"
  shows "ldap_int_bisect_find v msgid = Some (if msgid \<in> set v then 1 else 0, int (rank v msgid))"
proof -
  have hi: "c_to_int (int (length v) - 1) = int (length v) - 1" "c_to_int (int (length v)) = int (length v)"
    using short by (simp_all add: c_to_int_id)
  have ok: "in_array v (int (length v) - 1)" if "v \<noteq> []" using that by (simp add: in_array_def Suc_le_eq)
  consider "v = []" | "v \<noteq> []" "msgid < v ! 0" | "v \<noteq> []" "msgid > v ! (length v - 1)"
    | "v \<noteq> []" "v ! 0 \<le> msgid" "msgid \<le> v ! (length v - 1)" by fastforce
  then show ?thesis
  proof cases
    case 1
    then show ?thesis using nn by (simp add: ldap_int_bisect_find_def rank_def)
  next
    case 2
    have "msgid < x" if "x \<in> set v" for x
      using 2 ascending_nth_less [OF asc, of 0] that by (metis in_set_conv_nth less_trans gr0I)
    then have "rank v msgid = 0" "msgid \<notin> set v"
      by (auto simp: rank_def filter_empty_conv dest: order.asym)
    then show ?thesis using 2 nn by (simp add: ldap_int_bisect_find_def Let_def)
  next
    case 3
    have lt: "x < msgid" if "x \<in> set v" for x
    proof -
      from that obtain i where "i < length v" "x = v ! i" by (auto simp: in_set_conv_nth)
      then show ?thesis using 3 ascending_nth_less [OF asc, of i "length v - 1"]
        by (cases "i = length v - 1") fastforce+
    qed
    then have "rank v msgid = length v" "msgid \<notin> set v" by (auto simp: rank_def filter_id_conv)
    moreover have "\<not> msgid < v ! 0" using lt [of "v ! 0"] 3(1) by simp
    moreover have "nat (int (length v) - 1) = length v - 1" by simp
    ultimately show ?thesis using 3 nn ok hi by (simp add: ldap_int_bisect_find_def Let_def)
  next
    case 4
    have "nat (int (length v) - 1) = length v - 1" by simp
    then have "ldap_int_bisect_find v msgid = bisect_loop v msgid 0 (int (length v) - 1)"
      using 4 nn ok hi by (simp add: ldap_int_bisect_find_def Let_def)
    moreover have "bisect_loop v msgid 0 (int (length v) - 1) = Some (if msgid \<in> set v then 1 else 0, int (rank v msgid))"
      using 4(1) short by (intro bisect_loop_spec [OF asc]) (auto simp: Suc_le_eq)
    ultimately show ?thesis by simp
  qed
qed

interpretation abandoned_ids: sorted_search
  "\<lambda>v msgid. (nat (snd (the (ldap_int_bisect_find v msgid))), fst (the (ldap_int_bisect_find v msgid)) = 1)"
  "\<lambda>v msgid. 0 \<le> msgid \<and> length v \<le> 2 ^ 30"
  by unfold_locales (simp add: bisect_find_spec)

lemma shift_up_spec:
  assumes "idx \<le> n" and "n < length v"
  shows "shift_up v idx n = take (Suc idx) v @ take (n - idx) (drop idx v) @ drop (Suc n) v"
  using assms
proof (induction n arbitrary: v)
  case 0
  then show ?case by simp
next
  case (Suc n)
  show ?case
  proof (cases "idx = Suc n")
    case True
    then show ?thesis by simp
  next
    case False
    then have i: "idx \<le> n" using Suc.prems by simp
    let ?w = "v[Suc n := v ! n]"
    have "shift_up v idx (Suc n) = take (Suc idx) ?w @ take (n - idx) (drop idx ?w) @ drop (Suc n) ?w"
      using Suc.IH [OF i, of ?w] Suc.prems i by simp
    also have "\<dots> = take (Suc idx) v @ take (Suc n - idx) (drop idx v) @ drop (Suc (Suc n)) v"
    proof -
      have "take (Suc n - idx) (drop idx v) = take (n - idx) (drop idx v) @ [v ! n]"
        using i Suc.prems by (simp add: Suc_diff_le take_Suc_conv_app_nth)
      moreover have "drop (Suc n) ?w = v ! n # drop (Suc (Suc n)) v"
        using Suc.prems by (subst Cons_nth_drop_Suc [symmetric]) simp_all
      ultimately show ?thesis using i by (simp add: drop_update_swap)
    qed
    finally show ?thesis .
  qed
qed

lemma shift_down_spec:
  assumes "i + k < length v"
  shows "shift_down v i k = take i v @ take k (drop (Suc i) v) @ drop (i + k) v"
  using assms
proof (induction k arbitrary: v i)
  case 0
  then show ?case by simp
next
  case (Suc k)
  let ?w = "v[i := v ! Suc i]"
  have "shift_down v i (Suc k) = take (Suc i) ?w @ take k (drop (Suc (Suc i)) ?w) @ drop (Suc i + k) ?w"
    using Suc.IH [of "Suc i" ?w] Suc.prems by simp
  also have "\<dots> = take i v @ take (Suc k) (drop (Suc i) v) @ drop (i + Suc k) v"
  proof -
    have "take (Suc i) ?w = take i v @ [v ! Suc i]"
      using Suc.prems by (simp add: take_Suc_conv_app_nth)
    moreover have "drop (Suc i) v = v ! Suc i # drop (Suc (Suc i)) v"
      using Suc.prems by (simp add: Cons_nth_drop_Suc)
    ultimately show ?thesis by simp
  qed
  finally show ?case .
qed

lemma bisect_insert_spec:
  assumes "0 \<le> idx" and "nat idx \<le> length v" and "ma (4 * (length v + 1))"
    and short: "length v < 2 ^ 31"
  shows "ldap_int_bisect_insert ma v msgid idx = Some (0, insert_at v (nat idx) msgid)"
proof -
  have "(shift_up (v @ [0]) (nat idx) (length v))[nat idx := msgid] = insert_at v (nat idx) msgid"
  proof -
    have t: "take (Suc (nat idx)) (v @ [0]) = take (nat idx) v @ [(v @ [0]) ! nat idx]"
      using assms(2) by (subst take_Suc_conv_app_nth) auto
    show ?thesis using assms(2)
      by (simp add: shift_up_spec insert_at_def t list_update_append del: take_append)
        (simp add: take_append)
  qed
  then show ?thesis using assms by (simp add: ldap_int_bisect_insert_def Let_def c_to_int_nat)
qed

lemma bisect_delete_spec:
  assumes "0 \<le> idx" and "nat idx < length v" and "v ! nat idx = msgid"
  shows "ldap_int_bisect_delete v msgid idx = Some (0, delete_at v (nat idx))"
proof -
  have "take (length v - 1) (shift_down v (nat idx) (length v - 1 - nat idx)) = delete_at v (nat idx)"
  proof (cases "nat idx = length v - 1")
    case True
    then show ?thesis using assms(2) by (simp add: delete_at_def)
  next
    case False
    then show ?thesis using assms(2) by (simp add: shift_down_spec delete_at_def min_def)
  qed
  then show ?thesis using assms by (simp add: ldap_int_bisect_delete_def Let_def)
qed

section \<open>The array is a set of message ids\<close>

text \<open>
  The abstract specification: the set of abandoned operations.  Each operation of the handle
  keeps the array strictly sorted, acts on its set as named, and trips no assertion.
\<close>

definition abandoned_inv :: "int list \<Rightarrow> bool" where
  "abandoned_inv v \<longleftrightarrow> ascending v \<and> (\<forall>x\<in>set v. 0 \<le> x)"

text \<open>
  C25: the sorted array with bisection implements the set of abandoned message ids.  For
  every array that satisfies the invariant and every non-negative id: recording the id
  (in \<^verbatim>\<open>do_abandon\<close>, memory permitting) yields an array that satisfies the invariant and holds
  the set with the id inserted; \<^verbatim>\<open>ldap_abandoned\<close> answers 1 exactly for members and 0 otherwise;
  \<^verbatim>\<open>ldap_mark_abandoned\<close> returns 0 and removes exactly that id.  No assertion fails on the way, no
  index is outside the array and no sum of two positions overflows.  The array holds at most \<open>2 ^ 30\<close>
  ids: with more, \<^verbatim>\<open>(begin + end)/2\<close> can overflow a C integer.
\<close>

theorem abandoned_refines_set:
  assumes inv: "abandoned_inv v" and nn: "0 \<le> msgid" and mem: "ma (4 * (length v + 1))"
    and short: "length v \<le> 2 ^ 30"
  shows "\<exists>v' v''. note_abandoned ma v msgid = Some v' \<and> abandoned_inv v' \<and> set v' = insert msgid (set v)
       \<and> ldap_abandoned v msgid = Some (if msgid \<in> set v then 1 else 0)
       \<and> ldap_mark_abandoned v msgid = Some (0, v'') \<and> abandoned_inv v'' \<and> set v'' = set v - {msgid}"
proof -
  have asc: "ascending v" and pos: "\<forall>x\<in>set v. 0 \<le> x" using inv by (auto simp: abandoned_inv_def)
  note find = bisect_find_spec [OF asc nn short] and pre = conjI [OF nn short]
  have abd: "ldap_abandoned v msgid = Some (if msgid \<in> set v then 1 else 0)"
    using nn by (simp add: ldap_abandoned_def find)
  show ?thesis
  proof (cases "msgid \<in> set v")
    case True
    then have "v \<noteq> []" by auto
    then have "note_abandoned ma v msgid = Some v" using True by (simp add: note_abandoned_def find)
    moreover have d: "rank v msgid < length v" "v ! rank v msgid = msgid"
      "ascending (delete_at v (rank v msgid))" "set (delete_at v (rank v msgid)) = set v - {msgid}"
      using abandoned_ids.delete_found [OF asc pre] True by (simp_all add: find)
    moreover have "ldap_mark_abandoned v msgid = Some (0, delete_at v (rank v msgid))"
      using d True nn by (simp add: ldap_mark_abandoned_def find bisect_delete_spec)
    ultimately show ?thesis using abd True inv pos by (auto simp: abandoned_inv_def insert_absorb)
  next
    case False
    have i: "ascending (insert_at v (rank v msgid) msgid)"
      "set (insert_at v (rank v msgid) msgid) = insert msgid (set v)"
      using abandoned_ids.insert_missing [OF asc pre] False by (simp_all add: find)
    have "ldap_int_bisect_insert ma v msgid (int (rank v msgid)) = Some (0, insert_at v (rank v msgid) msgid)"
      using bisect_insert_spec [of "int (rank v msgid)" v ma msgid] rank_le [of v msgid] mem short by simp
    moreover have "rank v msgid = 0" if "v = []" using that by (simp add: rank_def)
    ultimately have "note_abandoned ma v msgid = Some (insert_at v (rank v msgid) msgid)"
      using False by (cases "v = []") (simp_all add: note_abandoned_def find)
    moreover have "ldap_mark_abandoned v msgid = Some (0, v)"
      using False nn by (simp add: ldap_mark_abandoned_def find)
    ultimately show ?thesis using abd False i inv pos nn by (auto simp: abandoned_inv_def)
  qed
qed

theorem abandoned_refines_set_witness:
  "\<exists>v' v''. note_abandoned (\<lambda>n. True) [2, 5, 9] 5 = Some v' \<and> abandoned_inv v' \<and> set v' = insert 5 (set [2, 5, 9])
       \<and> ldap_abandoned [2, 5, 9] 5 = Some (if (5::int) \<in> set [2, 5, 9] then 1 else 0)
       \<and> ldap_mark_abandoned [2, 5, 9] 5 = Some (0, v'') \<and> abandoned_inv v'' \<and> set v'' = set [2, 5, 9] - {5}"
  by (rule abandoned_refines_set) (simp_all add: abandoned_inv_def)

end
