(* ===== verification/Midl.thy ===== *)
theory Midl
  imports Abandon "HOL-Library.Multiset" "HOL-Library.Monad_Syntax"
begin

text \<open>
  The ID lists of \<^verbatim>\<open>libmdb/midl.c\<close>: plain lists with their sorting routine, and sorted lists of pairs that are searched by
  bisection.  \<^verbatim>\<open>ids[0]\<close> counts the entries, which start at index 1, and \<^verbatim>\<open>ids[-1]\<close> holds the capacity.  An access
  outside the allocated memory is \<open>None\<close>.  (The code under \<^verbatim>\<open>#if 0\<close> is not compiled and not modelled.)
\<close>

section \<open>Memory\<close>

type_synonym mdb_id = "64 word"

text \<open>\<^verbatim>\<open>ids[-1]\<close>, and the memory from \<^verbatim>\<open>ids[0]\<close> on.\<close>

record mdb_idl =
  idl_max :: nat
  idl_mem :: "mdb_id list"

definition rd :: "'a list \<Rightarrow> nat \<Rightarrow> 'a option" where
  "rd m i = (if i < length m then Some (m ! i) else None)"

definition wr :: "'a list \<Rightarrow> nat \<Rightarrow> 'a \<Rightarrow> 'a list option" where
  "wr m i v = (if i < length m then Some (m[i := v]) else None)"

definition MDB_IDL_UM_MAX :: nat where
  "MDB_IDL_UM_MAX = 2 ^ 17 - 1"

section \<open>Allocation\<close>

text \<open>
  Allocated memory has arbitrary contents \<open>junk\<close>.  \<^verbatim>\<open>mdb_midl_alloc\<close> does not check the result of \<^verbatim>\<open>malloc\<close>: without memory it stores through a NULL
  pointer.
\<close>

definition mdb_midl_alloc :: "allocator \<Rightarrow> (nat \<Rightarrow> mdb_id) \<Rightarrow> mdb_idl option" where
  "mdb_midl_alloc ma junk =
     (if ma ((MDB_IDL_UM_MAX + 1) * 8)
      then Some \<lparr>idl_max = MDB_IDL_UM_MAX, idl_mem = map junk [0..<MDB_IDL_UM_MAX]\<rparr> else None)"

text \<open>
  \<^verbatim>\<open>mdb_midl_shrink\<close> passes to \<^verbatim>\<open>realloc\<close> the address of \<^verbatim>\<open>ids[0]\<close>, which is not the address of the allocation, so that
  the behaviour is undefined whenever there is something to shrink.
\<close>

definition mdb_midl_shrink :: "mdb_idl \<Rightarrow> (int \<times> mdb_idl) option" where
  "mdb_midl_shrink ids = (if idl_max ids > MDB_IDL_UM_MAX then None else Some (0, ids))"

text \<open>\<^verbatim>\<open>n\<close> words from \<^verbatim>\<open>ids[-1]\<close> on after \<^verbatim>\<open>realloc\<close>.\<close>

definition resized :: "(nat \<Rightarrow> mdb_id) \<Rightarrow> mdb_id list \<Rightarrow> nat \<Rightarrow> mdb_id list" where
  "resized junk m n = take (n - 1) m @ map junk [length m..<n - 1]"

definition mdb_midl_append :: "allocator \<Rightarrow> (nat \<Rightarrow> mdb_id) \<Rightarrow> mdb_idl \<Rightarrow> mdb_id \<Rightarrow> (int \<times> mdb_idl) option" where
  "mdb_midl_append ma junk idp i =
     do { n \<leftarrow> rd (idl_mem idp) 0;
          let n_words = idl_max idp + MDB_IDL_UM_MAX + 1;
          if unat n \<ge> idl_max idp \<and> \<not> ma (n_words * 8) then Some (-1, idp)
          else do {
            let ids = (if unat n \<ge> idl_max idp
                       then \<lparr>idl_max = idl_max idp + MDB_IDL_UM_MAX, idl_mem = resized junk (idl_mem idp) n_words\<rparr>
                       else idp);
            m \<leftarrow> wr (idl_mem ids) 0 (n + 1);
            m \<leftarrow> wr m (unat (n + 1)) i;
            Some (0, ids\<lparr>idl_mem := m\<rparr>) } }"

text \<open>\<^verbatim>\<open>memcpy\<close> of whole entries.\<close>

definition copy_in :: "mdb_id list \<Rightarrow> nat \<Rightarrow> mdb_id list \<Rightarrow> mdb_id list option" where
  "copy_in m p xs = (if p + length xs \<le> length m then Some (take p m @ xs @ drop (p + length xs) m) else None)"

definition mdb_midl_append_list ::
  "allocator \<Rightarrow> (nat \<Rightarrow> mdb_id) \<Rightarrow> mdb_idl \<Rightarrow> mdb_idl \<Rightarrow> (int \<times> mdb_idl) option" where
  "mdb_midl_append_list ma junk idp app =
     do { n \<leftarrow> rd (idl_mem idp) 0;
          k \<leftarrow> rd (idl_mem app) 0;
          let n_words = idl_max idp + idl_max app;
          if unat (n + k) \<ge> idl_max idp \<and> \<not> ma (n_words * 8) then Some (-1, idp)
          else if unat k + 1 > length (idl_mem app) then None
          else do {
            let ids = (if unat (n + k) \<ge> idl_max idp
                       then \<lparr>idl_max = idl_max idp + idl_max app, idl_mem = resized junk (idl_mem idp) n_words\<rparr>
                       else idp);
            m \<leftarrow> copy_in (idl_mem ids) (unat n + 1) (take (unat k) (drop 1 (idl_mem app)));
            m \<leftarrow> wr m 0 (n + k);
            Some (0, ids\<lparr>idl_mem := m\<rparr>) } }"

section \<open>Sorting\<close>

text \<open>
  \<^verbatim>\<open>mdb_midl_sort\<close>: quicksort with an explicit stack, insertion sort for short pieces, in descending order.  Indices are C
  integers, so a list has fewer than \<open>2 ^ 30\<close> entries.
\<close>

definition SMALL :: nat where "SMALL = 8"

definition swap :: "'a list \<Rightarrow> nat \<Rightarrow> nat \<Rightarrow> 'a list option" where
  "swap m i j = do { x \<leftarrow> rd m i; y \<leftarrow> rd m j; m \<leftarrow> wr m i y; wr m j x }"

text \<open>The inner loop of the insertion sort, and the store behind it.\<close>

fun sink :: "mdb_id \<Rightarrow> nat \<Rightarrow> mdb_id list \<Rightarrow> mdb_id list option" where
  "sink a 0 m = wr m 1 a"
| "sink a (Suc i) m =
     do { x \<leftarrow> rd m (Suc i);
          if x \<ge> a then wr m (Suc i + 1) a
          else do { m \<leftarrow> wr m (Suc i + 1) x; sink a i m } }"

text \<open>The outer loop; \<open>k\<close> entries are left, from \<open>j\<close> on.\<close>

fun insertion_loop :: "nat \<Rightarrow> nat \<Rightarrow> mdb_id list \<Rightarrow> mdb_id list option" where
  "insertion_loop j 0 m = Some m"
| "insertion_loop j (Suc k) m =
     do { a \<leftarrow> rd m j; m \<leftarrow> sink a (j - 1) m; insertion_loop (j + 1) k m }"

definition insertion_sort :: "nat \<Rightarrow> nat \<Rightarrow> mdb_id list \<Rightarrow> mdb_id list option" where
  "insertion_sort l ir m = insertion_loop (l + 1) (ir - l) m"

text \<open>\<^verbatim>\<open>do i++; while(ids[i] > a);\<close> and \<^verbatim>\<open>do j--; while(ids[j] < a);\<close>\<close>

function scan_up :: "mdb_id list \<Rightarrow> mdb_id \<Rightarrow> nat \<Rightarrow> nat option" where
  "scan_up m a i =
     (if i + 1 < length m then (if m ! (i + 1) > a then scan_up m a (i + 1) else Some (i + 1)) else None)"
  by pat_completeness auto
termination by (relation "measure (\<lambda>(m, a, i). length m - i)") auto

declare scan_up.simps [simp del]

fun scan_down :: "mdb_id list \<Rightarrow> mdb_id \<Rightarrow> nat \<Rightarrow> nat option" where
  "scan_down m a 0 = None"
| "scan_down m a (Suc j) = do { x \<leftarrow> rd m j; if x < a then scan_down m a j else Some j }"

lemma scan_down_less: "scan_down m a j = Some j' \<Longrightarrow> j' < j"
  by (induction j) (auto simp: rd_def less_SucI split: if_splits option.splits Option.bind_splits)

text \<open>The loop of the partition.\<close>

function partition_loop :: "mdb_id list \<Rightarrow> mdb_id \<Rightarrow> nat \<Rightarrow> nat \<Rightarrow> (mdb_id list \<times> nat \<times> nat) option" where
  "partition_loop m a i j =
     (case scan_up m a i of
        None \<Rightarrow> None
      | Some i \<Rightarrow>
          (case scan_down m a j of
             None \<Rightarrow> None
           | Some j \<Rightarrow>
               if j < i then Some (m, i, j)
               else (case swap m i j of None \<Rightarrow> None | Some m \<Rightarrow> partition_loop m a i j)))"
  by pat_completeness auto
termination by (relation "measure (\<lambda>(m, a, i, j). j)") (auto dest: scan_down_less)

declare partition_loop.simps [simp del]

text \<open>\<^verbatim>\<open>if (ids[p] < ids[q]) SWAP(ids[p], ids[q])\<close>\<close>

definition order_pair :: "mdb_id list \<Rightarrow> nat \<Rightarrow> nat \<Rightarrow> mdb_id list option" where
  "order_pair m p q = do { x \<leftarrow> rd m p; y \<leftarrow> rd m q; if x < y then swap m p q else Some m }"

definition partition_step :: "mdb_id list \<Rightarrow> nat \<Rightarrow> nat \<Rightarrow> (mdb_id list \<times> nat \<times> nat) option" where
  "partition_step m l ir =
     do { m \<leftarrow> swap m ((l + ir) div 2) (l + 1);
          m \<leftarrow> order_pair m l ir;
          m \<leftarrow> order_pair m (l + 1) ir;
          m \<leftarrow> order_pair m l (l + 1);
          a \<leftarrow> rd m (l + 1);
          (m, i, j) \<leftarrow> partition_loop m a (l + 1) ir;
          x \<leftarrow> rd m j;
          m \<leftarrow> wr m (l + 1) x;
          m \<leftarrow> wr m j a;
          Some (m, i, j) }"

lemma scan_up_less: "scan_up m a i = Some i' \<Longrightarrow> i < i'"
proof (induction m a i rule: scan_up.induct)
  case (1 m a i)
  then show ?case by (subst (asm) (2) scan_up.simps) (auto split: if_splits)
qed

lemma partition_loop_bounds: "partition_loop m a i j = Some (m', i', j') \<Longrightarrow> i < i' \<and> j' < j \<and> j' < i'"
proof (induction m a i j rule: partition_loop.induct)
  case (1 m a i j)
  from 1(2) obtain i1 j1 where u: "scan_up m a i = Some i1" and d: "scan_down m a j = Some j1"
    by (subst (asm) partition_loop.simps) (auto split: option.splits)
  note b = scan_up_less [OF u] scan_down_less [OF d]
  show ?case
  proof (cases "j1 < i1")
    case True
    then show ?thesis using 1(2) u d b by (subst (asm) partition_loop.simps) auto
  next
    case False
    then obtain m1 where "swap m i1 j1 = Some m1" "partition_loop m1 a i1 j1 = Some (m', i', j')"
      using 1(2) u d by (subst (asm) partition_loop.simps) (auto split: option.splits)
    then show ?thesis using 1(1) [OF u d False] b by fastforce
  qed
qed

lemma partition_step_bounds:
  assumes "partition_step m l ir = Some (m', i, j)"
  shows "l + 1 < i \<and> j < ir \<and> j < i"
  using assms unfolding partition_step_def
  by (auto split: Option.bind_splits prod.splits dest!: partition_loop_bounds)

text \<open>
  The main loop.  \<open>stk\<close> are the pieces on \<^verbatim>\<open>istack\<close>, two words each; \<open>lim\<close> is the number of pieces it has room for.
\<close>

definition pieces_weight :: "(nat \<times> nat) list \<Rightarrow> nat" where
  "pieces_weight ps = sum_list (map (\<lambda>(l, ir). 2 * (ir + 1 - l) + 1) ps)"

function sort_loop :: "nat \<Rightarrow> mdb_id list \<Rightarrow> nat \<Rightarrow> nat \<Rightarrow> (nat \<times> nat) list \<Rightarrow> mdb_id list option" where
  "sort_loop lim m l ir stk =
     (if ir - l < SMALL then
        (case insertion_sort l ir m of
           None \<Rightarrow> None
         | Some m \<Rightarrow> (case stk of [] \<Rightarrow> Some m | (l, ir) # stk \<Rightarrow> sort_loop lim m l ir stk))
      else
        (case partition_step m l ir of
           None \<Rightarrow> None
         | Some (m, i, j) \<Rightarrow>
             if length stk \<ge> lim then None
             else if ir + 1 - i \<ge> j - 1 then sort_loop lim m l (j - 1) ((i, ir) # stk)
             else sort_loop lim m i ir ((l, j - 1) # stk)))"
  by pat_completeness auto
termination
  by (relation "measure (\<lambda>(lim, m, l, ir, stk). pieces_weight ((l, ir) # stk))")
    (auto simp: pieces_weight_def SMALL_def dest!: partition_step_bounds)

declare sort_loop.simps [simp del]

text \<open>\<^verbatim>\<open>istack\<close> has 64 words; the first piece goes to the words 1 and 2.\<close>

definition ISTACK_PIECES :: nat where "ISTACK_PIECES = (4 * 8 * 2 - 1) div 2"

definition mdb_midl_sort :: "mdb_id list \<Rightarrow> mdb_id list option" where
  "mdb_midl_sort ids = do { n \<leftarrow> rd ids 0; sort_loop ISTACK_PIECES ids 1 (unat n) [] }"

section \<open>Lists of pairs\<close>

record mdb_id2 =
  mid :: mdb_id
  mptr :: nat

text \<open>\<^verbatim>\<open>CMP( id, ids[cursor].mid )\<close>\<close>

definition CMP :: "mdb_id \<Rightarrow> mdb_id \<Rightarrow> int" where
  "CMP x y = (if x < y then -1 else if x > y then 1 else 0)"

text \<open>The bisection; \<open>val\<close> is the last comparison.\<close>

function search2_loop :: "mdb_id2 list \<Rightarrow> mdb_id \<Rightarrow> nat \<Rightarrow> nat \<Rightarrow> nat \<Rightarrow> int \<Rightarrow> nat option" where
  "search2_loop ids i base cursor n val =
     (if 0 < n then
        let pivot = n div 2; cursor = base + pivot + 1
        in case rd ids cursor of
             None \<Rightarrow> None
           | Some e \<Rightarrow>
               let val = CMP i (mid e)
               in if val < 0 then search2_loop ids i base cursor pivot val
                  else if val > 0 then search2_loop ids i cursor cursor (n - (pivot + 1)) val
                  else Some cursor
      else Some (if val > 0 then cursor + 1 else cursor))"
  by pat_completeness auto
termination by (relation "measure (\<lambda>(ids, i, base, cursor, n, val). n)") auto

declare search2_loop.simps [simp del]

text \<open>The count is an \<^verbatim>\<open>unsigned\<close>.\<close>

definition mdb_mid2l_search :: "mdb_id2 list \<Rightarrow> mdb_id \<Rightarrow> nat option" where
  "mdb_mid2l_search ids i = do { h \<leftarrow> rd ids 0; search2_loop ids i 0 1 (unat (mid h) mod 2 ^ 32) 0 }"

definition mdb_mid2l_insert :: "mdb_id2 list \<Rightarrow> mdb_id2 \<Rightarrow> (int \<times> mdb_id2 list) option" where
  "mdb_mid2l_insert ids e =
     do { x \<leftarrow> mdb_mid2l_search ids (mid e);
          h \<leftarrow> rd ids 0;
          if x < 1 then None
          else if x \<le> unat (mid h) \<and> x \<ge> length ids then None
          else if x \<le> unat (mid h) \<and> mid (ids ! x) = mid e then Some (-1, ids)
          else if unat (mid h) \<ge> MDB_IDL_UM_MAX then Some (-2, ids)
          else if unat (mid h) + 1 \<ge> length ids then None
          else let ids = ids[0 := h\<lparr>mid := mid h + 1\<rparr>];
                   ids = shift_up ids x (unat (mid h) + 1)
               in Some (0, ids[x := e]) }"

definition mdb_mid2l_append :: "mdb_id2 list \<Rightarrow> mdb_id2 \<Rightarrow> (int \<times> mdb_id2 list) option" where
  "mdb_mid2l_append ids e =
     do { h \<leftarrow> rd ids 0;
          if unat (mid h) \<ge> MDB_IDL_UM_MAX then Some (-2, ids)
          else do { ids \<leftarrow> wr ids 0 (h\<lparr>mid := mid h + 1\<rparr>);
                    ids \<leftarrow> wr ids (unat (mid h) + 1) e;
                    Some (0, ids) } }"

end
