(* ===== verification/Midl_Sort.thy ===== *)
theory Midl_Sort
  imports Midl
begin

text \<open>
  \<^verbatim>\<open>mdb_midl_sort\<close> sorts: what each part of it does to a piece of the list, the invariant of the main loop, and how much
  stack it needs.
\<close>

section \<open>Changes within a piece\<close>

text \<open>\<open>m'\<close> arises from \<open>m\<close> by rearranging the entries at the positions \<open>l\<close> to \<open>r\<close>.\<close>

definition within :: "nat \<Rightarrow> nat \<Rightarrow> 'a list \<Rightarrow> 'a list \<Rightarrow> bool" where
  "within l r m m' \<longleftrightarrow>
     length m' = length m \<and> mset m' = mset m \<and> (\<forall>p. p < l \<or> r < p \<longrightarrow> m' ! p = m ! p)
     \<and> (\<forall>p. l \<le> p \<and> p \<le> r \<longrightarrow> (\<exists>q. l \<le> q \<and> q \<le> r \<and> m' ! p = m ! q))"

lemma within_refl [simp]: "within l r m m"
  by (auto simp: within_def)

lemma within_trans: "within l r m m' \<Longrightarrow> within l r m' m'' \<Longrightarrow> within l r m m''"
  unfolding within_def by (metis (no_types))

lemma within_mono:
  assumes "within l r m m'" and "l' \<le> l" and "r \<le> r'"
  shows "within l' r' m m'"
  unfolding within_def
proof (intro conjI allI impI)
  show "length m' = length m" "mset m' = mset m" using assms(1) by (simp_all add: within_def)
  show "m' ! p = m ! p" if "p < l' \<or> r' < p" for p using assms that by (auto simp: within_def)
  show "\<exists>q. l' \<le> q \<and> q \<le> r' \<and> m' ! p = m ! q" if "l' \<le> p \<and> p \<le> r'" for p
  proof (cases "l \<le> p \<and> p \<le> r")
    case True
    then obtain q where "l \<le> q" "q \<le> r" "m' ! p = m ! q" using assms(1) unfolding within_def by blast
    then show ?thesis using assms(2,3) by (intro exI [of _ q]) auto
  next
    case False
    then have "m' ! p = m ! p" using assms(1) unfolding within_def by (metis not_le)
    then show ?thesis using that by blast
  qed
qed

lemma within_length: "within l r m m' \<Longrightarrow> length m' = length m"
  by (simp add: within_def)

lemma within_outside: "within l r m m' \<Longrightarrow> p < l \<or> r < p \<Longrightarrow> m' ! p = m ! p"
  by (auto simp: within_def)

lemma within_inside: "within l r m m' \<Longrightarrow> l \<le> p \<Longrightarrow> p \<le> r \<Longrightarrow> \<exists>q. l \<le> q \<and> q \<le> r \<and> m' ! p = m ! q"
  by (simp add: within_def)

lemma swap_Some: "i < length m \<Longrightarrow> j < length m \<Longrightarrow> swap m i j = Some (m[i := m ! j, j := m ! i])"
  by (simp add: swap_def rd_def wr_def)

lemma within_swap:
  assumes "l \<le> i" "i \<le> r" "l \<le> j" "j \<le> r" "r < length m"
  shows "within l r m (m[i := m ! j, j := m ! i])"
proof -
  have "mset (m[i := m ! j, j := m ! i]) = mset m" using assms by (intro mset_swap) auto
  moreover have "(m[i := m ! j, j := m ! i]) ! p = m ! p" if "p < l \<or> r < p" for p
  proof -
    have "p \<noteq> i" "p \<noteq> j" using assms that by auto
    then show ?thesis by simp
  qed
  moreover have "\<exists>q. l \<le> q \<and> q \<le> r \<and> (m[i := m ! j, j := m ! i]) ! p = m ! q" if "l \<le> p" "p \<le> r" for p
    using assms that by (cases "p = j"; cases "p = i") auto
  ultimately show ?thesis by (simp add: within_def)
qed

section \<open>Insertion sort\<close>

text \<open>Descending between two positions.\<close>

definition descending :: "mdb_id list \<Rightarrow> nat \<Rightarrow> nat \<Rightarrow> bool" where
  "descending m l r \<longleftrightarrow> (\<forall>p q. l \<le> p \<and> p < q \<and> q \<le> r \<longrightarrow> m ! q \<le> m ! p)"

text \<open>The entry \<open>a\<close> has been taken out of the position \<open>h\<close>, the hole.\<close>

definition descending_but :: "mdb_id list \<Rightarrow> nat \<Rightarrow> nat \<Rightarrow> nat \<Rightarrow> mdb_id \<Rightarrow> bool" where
  "descending_but m l r h a \<longleftrightarrow>
     (\<forall>p q. l \<le> p \<and> p < q \<and> q \<le> r \<and> p \<noteq> h \<and> q \<noteq> h \<longrightarrow> m ! q \<le> m ! p) \<and> (\<forall>q. h < q \<and> q \<le> r \<longrightarrow> m ! q \<le> a)"

lemma fill_hole:
  assumes "descending_but m l r h a" and "\<forall>p. l \<le> p \<and> p < h \<longrightarrow> a \<le> m ! p" and "h < length m"
  shows "descending (m[h := a]) l r"
  unfolding descending_def
proof (intro allI impI)
  fix p q assume "l \<le> p \<and> p < q \<and> q \<le> r"
  then show "m[h := a] ! q \<le> m[h := a] ! p"
    using assms unfolding descending_but_def by (cases "q = h"; cases "p = h") auto
qed

lemma sink_spec:
  assumes "0 < l" and "l \<le> Suc i" and "Suc i \<le> r" and "r < length m" and "\<forall>p. 0 < p \<and> p < l \<longrightarrow> a \<le> m ! p"
    and "descending_but m l r (Suc i) a"
  shows "\<exists>m'. sink a i m = Some m' \<and> within l r (m[Suc i := a]) m' \<and> descending m' l r"
  using assms
proof (induction i arbitrary: m)
  case 0
  then have "descending (m[Suc 0 := a]) l r" by (intro fill_hole) auto
  then show ?case using 0 by (simp add: wr_def)
next
  case (Suc i)
  let ?h = "Suc (Suc i)" and ?x = "m ! Suc i"
  note d = Suc.prems(6) [unfolded descending_but_def]
  have h: "?h < length m" "Suc i < length m" using Suc.prems by simp_all
  show ?case
  proof (cases "a \<le> ?x")
    case True
    have "a \<le> m ! p" if "l \<le> p" "p < ?h" for p
    proof (cases "p = Suc i")
      case False
      then have "?x \<le> m ! p" using d that Suc.prems(3) by simp
      then show ?thesis using True by simp
    qed (use True in simp)
    then have "descending (m[?h := a]) l r" using Suc.prems(6) h by (intro fill_hole) auto
    then show ?thesis using True h by (simp add: rd_def wr_def)
  next
    case False
    have l: "l \<le> Suc i" using Suc.prems(5) False by (metis not_le zero_less_Suc)
    let ?m = "m[?h := ?x]"
    have "descending_but ?m l r (Suc i) a"
      unfolding descending_but_def
    proof (intro conjI allI impI)
      fix p q assume "l \<le> p \<and> p < q \<and> q \<le> r \<and> p \<noteq> Suc i \<and> q \<noteq> Suc i"
      then show "?m ! q \<le> ?m ! p" using d l h Suc.prems(3) by (cases "q = ?h"; cases "p = ?h") auto
    next
      fix q assume "Suc i < q \<and> q \<le> r"
      then show "?m ! q \<le> a" using d False h by (cases "q = ?h") auto
    qed
    moreover have "\<forall>p. 0 < p \<and> p < l \<longrightarrow> a \<le> ?m ! p" using Suc.prems(5) l by auto
    ultimately obtain m' where m': "sink a i ?m = Some m'" "within l r (?m[Suc i := a]) m'" "descending m' l r"
      using Suc.IH [of ?m] l Suc.prems by auto
    have "within l r (m[?h := a]) (?m[Suc i := a])"
      using within_swap [of l ?h r "Suc i" "m[?h := a]"] l Suc.prems h by simp
    then have "within l r (m[?h := a]) m'" using m'(2) by (rule within_trans)
    then show ?thesis using False h m'(1,3) by (simp add: rd_def wr_def)
  qed
qed

lemma insertion_loop_spec:
  assumes "0 < l" and "l < j" and "j + k = Suc r" and "r < length m" and "descending m l (j - 1)"
    and "\<forall>p q. 0 < p \<and> p < l \<and> l \<le> q \<and> q \<le> r \<longrightarrow> m ! q \<le> m ! p"
  shows "\<exists>m'. insertion_loop j k m = Some m' \<and> within l r m m' \<and> descending m' l r"
  using assms
proof (induction k arbitrary: j m)
  case 0
  then show ?case by auto
next
  case (Suc k)
  let ?a = "m ! j"
  obtain i where i: "j = Suc i" using Suc.prems(2) by (cases j) auto
  have "descending_but m l j j ?a" using Suc.prems(5) by (auto simp: descending_but_def descending_def i)
  then obtain m1 where m1: "sink ?a i m = Some m1" "within l j m m1" "descending m1 l j"
    using sink_spec [of l i j m ?a] Suc.prems i by auto
  have w: "within l r m m1" using m1(2) Suc.prems by (auto intro: within_mono)
  have pre: "\<forall>p q. 0 < p \<and> p < l \<and> l \<le> q \<and> q \<le> r \<longrightarrow> m1 ! q \<le> m1 ! p"
    using Suc.prems(6) within_outside [OF w] within_inside [OF w] by metis
  obtain m' where m': "insertion_loop (Suc j) k m1 = Some m'" "within l r m1 m'" "descending m' l r"
    using Suc.IH [of "Suc j" m1] Suc.prems m1(3) pre within_length [OF w] by auto
  have "j < length m" using Suc.prems by simp
  then show ?case using m1(1) m'(1,3) within_trans [OF w m'(2)] i by (simp add: rd_def)
qed

lemma insertion_sort_spec:
  assumes "0 < l" and "l \<le> r" and "r < length m" and "\<forall>p q. 0 < p \<and> p < l \<and> l \<le> q \<and> q \<le> r \<longrightarrow> m ! q \<le> m ! p"
  shows "\<exists>m'. insertion_sort l r m = Some m' \<and> within l r m m' \<and> descending m' l r"
  unfolding insertion_sort_def using assms by (intro insertion_loop_spec) (auto simp: descending_def)

section \<open>Partition\<close>

lemma scan_up_spec:
  assumes "i < e" and "e < length m" and "m ! e \<le> a"
  shows "\<exists>i'. scan_up m a i = Some i' \<and> i < i' \<and> i' \<le> e \<and> m ! i' \<le> a \<and> (\<forall>p. i < p \<and> p < i' \<longrightarrow> a < m ! p)"
  using assms
proof (induction m a i rule: scan_up.induct)
  case (1 m a i)
  show ?case
  proof (cases "a < m ! (i + 1)")
    case True
    then have "i + 1 < e" using "1.prems" by (metis Suc_eq_plus1 Suc_lessI not_less)
    then obtain i' where i': "scan_up m a (i + 1) = Some i'" "i + 1 < i'" "i' \<le> e" "m ! i' \<le> a" "\<forall>p. i + 1 < p \<and> p < i' \<longrightarrow> a < m ! p"
      using "1.IH" True "1.prems" by auto
    have "a < m ! p" if "i < p" "p < i'" for p using i'(5) that True by (cases "p = i + 1") auto
    then show ?thesis using i' True "1.prems" by (subst scan_up.simps) auto
  next
    case False
    then show ?thesis using "1.prems" by (subst scan_up.simps) (auto simp: not_less)
  qed
qed

lemma scan_down_spec:
  assumes "b < j" and "j \<le> length m" and "a \<le> m ! b"
  shows "\<exists>j'. scan_down m a j = Some j' \<and> b \<le> j' \<and> j' < j \<and> a \<le> m ! j' \<and> (\<forall>p. j' < p \<and> p < j \<longrightarrow> m ! p < a)"
  using assms
proof (induction j)
  case (Suc j)
  show ?case
  proof (cases "m ! j < a")
    case True
    then have "b < j" using Suc.prems by (metis less_SucE not_less)
    then obtain j' where j': "scan_down m a j = Some j'" "b \<le> j'" "j' < j" "a \<le> m ! j'" "\<forall>p. j' < p \<and> p < j \<longrightarrow> m ! p < a"
      using Suc by auto
    have "m ! p < a" if "j' < p" "p < Suc j" for p using j'(5) that True by (cases "p = j") auto
    then show ?thesis using j' True Suc.prems by (auto simp: rd_def)
  next
    case False
    then show ?thesis using Suc.prems by (auto simp: rd_def not_less)
  qed
qed simp

text \<open>Up to \<open>i\<close> nothing is smaller than the pivot, from \<open>j\<close> on nothing is larger.\<close>

lemma partition_loop_spec:
  assumes "Suc l \<le> i" and "i \<le> j" and "i < ir" and "Suc l < j" and "j \<le> ir" and "ir < length m"
    and "\<forall>p. Suc l \<le> p \<and> p \<le> i \<longrightarrow> a \<le> m ! p" and "\<forall>p. j \<le> p \<and> p \<le> ir \<longrightarrow> m ! p \<le> a"
  shows "\<exists>m' i' j'. partition_loop m a i j = Some (m', i', j') \<and> within (Suc (Suc l)) (ir - 1) m m' \<and> i' \<le> ir \<and> Suc l \<le> j' \<and> j' < i'
     \<and> (\<forall>p. Suc l \<le> p \<and> p < i' \<longrightarrow> a \<le> m' ! p) \<and> (\<forall>p. j' < p \<and> p \<le> ir \<longrightarrow> m' ! p \<le> a)"
  using assms
proof (induction m a i j rule: partition_loop.induct)
  case (1 m a i j)
  obtain i1 where u: "scan_up m a i = Some i1" "i < i1" "i1 \<le> ir" "m ! i1 \<le> a" "\<forall>p. i < p \<and> p < i1 \<longrightarrow> a < m ! p"
    using scan_up_spec [of i ir m a] "1.prems" by auto
  obtain j1 where d: "scan_down m a j = Some j1" "Suc l \<le> j1" "j1 < j" "a \<le> m ! j1" "\<forall>p. j1 < p \<and> p < j \<longrightarrow> m ! p < a"
    using scan_down_spec [of "Suc l" j m a] "1.prems" by auto
  have low: "a \<le> m ! p" if "Suc l \<le> p" "p < i1" for p
    using u(5) "1.prems"(7) that by (cases "p \<le> i") (auto simp: less_imp_le)
  have high: "m ! p \<le> a" if "j1 < p" "p \<le> ir" for p
    using d(5) "1.prems"(8) that by (cases "j \<le> p") (auto simp: less_imp_le)
  show ?case
  proof (cases "j1 < i1")
    case True
    then have "partition_loop m a i j = Some (m, i1, j1)" using u(1) d(1) by (subst partition_loop.simps) simp
    then show ?thesis using True u(3) d(2) low high by auto
  next
    case False
    let ?m = "m[i1 := m ! j1, j1 := m ! i1]"
    have len: "i1 < length m" "j1 < length m" using u(3) d(3) "1.prems" by simp_all
    have sw: "swap m i1 j1 = Some ?m" using len by (rule swap_Some)
    have w: "within (Suc (Suc l)) (ir - 1) m ?m"
      using u(2) d(3) False "1.prems" by (intro within_swap) auto
    have low': "\<forall>p. Suc l \<le> p \<and> p \<le> i1 \<longrightarrow> a \<le> ?m ! p"
    proof (intro allI impI)
      fix p assume p: "Suc l \<le> p \<and> p \<le> i1"
      show "a \<le> ?m ! p" using p low [of p] d(4) len False by (cases "p = i1"; cases "p = j1") auto
    qed
    have high': "\<forall>p. j1 \<le> p \<and> p \<le> ir \<longrightarrow> ?m ! p \<le> a"
    proof (intro allI impI)
      fix p assume p: "j1 \<le> p \<and> p \<le> ir"
      show "?m ! p \<le> a" using p high [of p] u(4) len False by (cases "p = j1"; cases "p = i1") auto
    qed
    obtain m' i' j' where r: "partition_loop ?m a i1 j1 = Some (m', i', j')" "within (Suc (Suc l)) (ir - 1) ?m m'" "i' \<le> ir" "Suc l \<le> j'" "j' < i'"
        "\<forall>p. Suc l \<le> p \<and> p < i' \<longrightarrow> a \<le> m' ! p" "\<forall>p. j' < p \<and> p \<le> ir \<longrightarrow> m' ! p \<le> a"
      using "1.IH" [OF u(1) d(1) False sw] low' high' u(2,3) d(2,3) False "1.prems" by auto
    have "partition_loop m a i j = Some (m', i', j')" using u(1) d(1) False sw r(1) by (subst partition_loop.simps) simp
    then show ?thesis using within_trans [OF w r(2)] r(3-7) by blast
  qed
qed

lemma order_pair_spec:
  assumes "l \<le> p" "p \<le> r" "l \<le> q" "q \<le> r" "r < length m" "p \<noteq> q"
  shows "\<exists>m'. order_pair m p q = Some m' \<and> within l r m m' \<and> m' ! q = min (m ! p) (m ! q) \<and> m' ! p = max (m ! p) (m ! q)
     \<and> (\<forall>x. x \<noteq> p \<and> x \<noteq> q \<longrightarrow> m' ! x = m ! x)"
  using assms within_swap [OF assms(1-5)]
  by (auto simp: order_pair_def rd_def swap_Some min_def max_def not_less)

lemma partition_step_spec:
  assumes "l + 2 \<le> ir" and "ir < length m"
  shows "\<exists>m' i j a. partition_step m l ir = Some (m', i, j) \<and> within l ir m m' \<and> l + 1 < i \<and> i \<le> ir \<and> l + 1 \<le> j \<and> j < ir \<and> j < i
     \<and> (\<forall>p. l \<le> p \<and> p < i \<longrightarrow> a \<le> m' ! p) \<and> (\<forall>p. j \<le> p \<and> p \<le> ir \<longrightarrow> m' ! p \<le> a)"
proof -
  let ?k = "(l + ir) div 2"
  have k: "l \<le> ?k" "?k \<le> ir" using assms by auto
  let ?m1 = "m[?k := m ! (l + 1), l + 1 := m ! ?k]"
  have s1: "swap m ?k (l + 1) = Some ?m1" using k assms by (intro swap_Some) auto
  have w1: "within l ir m ?m1" using k assms by (intro within_swap) auto
  obtain m2 where m2: "order_pair ?m1 l ir = Some m2" "within l ir ?m1 m2" "m2 ! ir \<le> m2 ! l"
    using order_pair_spec [of l l ir ir ?m1] assms by (auto simp: min_le_iff_disj le_max_iff_disj)
  have w2: "within l ir m m2" using w1 m2(2) by (rule within_trans)
  obtain m3 where m3: "order_pair m2 (l + 1) ir = Some m3" "within l ir m2 m3" "m3 ! ir \<le> m3 ! (l + 1)" "m3 ! ir \<le> m3 ! l"
    using order_pair_spec [of l "l + 1" ir ir m2] assms within_length [OF w2] m2(3) by (auto simp: min_le_iff_disj le_max_iff_disj)
  have w3: "within l ir m m3" using w2 m3(2) by (rule within_trans)
  obtain m4 where m4: "order_pair m3 l (l + 1) = Some m4" "within l ir m3 m4" "m4 ! (l + 1) \<le> m4 ! l" "m4 ! ir \<le> m4 ! (l + 1)"
    using order_pair_spec [of l l ir "l + 1" m3] assms within_length [OF w3] m3(3,4) by (auto simp: min_le_iff_disj le_max_iff_disj)
  have w4: "within l ir m m4" using w3 m4(2) by (rule within_trans)
  let ?a = "m4 ! (l + 1)"
  have len4: "length m4 = length m" using within_length [OF w4] .
  have p1: "\<forall>p. Suc l \<le> p \<and> p \<le> l + 1 \<longrightarrow> ?a \<le> m4 ! p" by (metis Suc_eq_plus1 le_antisym order_refl)
  have p2: "\<forall>p. ir \<le> p \<and> p \<le> ir \<longrightarrow> m4 ! p \<le> ?a" using m4(4) by (metis le_antisym)
  obtain m5 i j where m5: "partition_loop m4 ?a (l + 1) ir = Some (m5, i, j)" "within (Suc (Suc l)) (ir - 1) m4 m5" "i \<le> ir" "Suc l \<le> j" "j < i"
      "\<forall>p. Suc l \<le> p \<and> p < i \<longrightarrow> ?a \<le> m5 ! p" "\<forall>p. j < p \<and> p \<le> ir \<longrightarrow> m5 ! p \<le> ?a"
    using partition_loop_spec [of l "l + 1" ir ir m4 ?a, OF _ _ _ _ _ _ p1 p2] assms len4 by auto
  note b = partition_loop_bounds [OF m5(1)]
  have w5: "within l ir m m5" using w4 within_mono [OF m5(2), of l ir] by (auto intro: within_trans)
  have len5: "length m5 = length m" using within_length [OF w5] .
  have fix5: "m5 ! (l + 1) = ?a" "m5 ! l = m4 ! l" using within_outside [OF m5(2)] by auto
  let ?m6 = "m5[l + 1 := m5 ! j, j := ?a]"
  have "within l ir m5 (m5[l + 1 := m5 ! j, j := m5 ! (l + 1)])" using m5(4) b assms len5 by (intro within_swap) auto
  then have w6: "within l ir m ?m6" using w5 fix5(1) by (auto intro: within_trans)
  have lj: "l + 1 < length m5" "j < length m5" using assms len5 b by auto
  have step: "partition_step m l ir = Some (?m6, i, j)"
    using s1 m2(1) m3(1) m4(1) m5(1) lj assms len4 by (simp add: partition_step_def rd_def wr_def)
  have "?a \<le> ?m6 ! p" if "l \<le> p" "p < i" for p
  proof -
    have p: "l \<le> p" "p < i" using that by simp_all
    consider "p = j" | "p = l + 1" "p \<noteq> j" | "p = l" | "l + 1 < p" "p \<noteq> j" using p(1) by linarith
    then show ?thesis using m5(4,5,6) lj p fix5 m4(3) by cases auto
  qed
  moreover have "?m6 ! p \<le> ?a" if "j \<le> p" "p \<le> ir" for p
    using m5(4,7) lj that by (cases "p = j"; cases "p = l + 1") auto
  ultimately show ?thesis using step w6 b m5(3,4,5) by (intro exI [of _ ?m6] exI [of _ i] exI [of _ j] exI [of _ ?a]) auto
qed

section \<open>The main loop\<close>

text \<open>Entries that are out of order lie in a common piece that is still to be sorted.\<close>

definition settled :: "nat \<Rightarrow> mdb_id list \<Rightarrow> (nat \<times> nat) set \<Rightarrow> bool" where
  "settled n m S \<longleftrightarrow> (\<forall>p q. 0 < p \<and> p < q \<and> q \<le> n \<longrightarrow> (\<exists>(l, r)\<in>S. l \<le> p \<and> q \<le> r) \<or> m ! q \<le> m ! p)"

definition apart :: "nat \<times> nat \<Rightarrow> nat \<times> nat \<Rightarrow> bool" where
  "apart x y \<longleftrightarrow> snd x < fst y \<or> snd y < fst x"

lemma settled_replace:
  assumes st: "settled n m (insert (l, r) S)" and w: "within l r m m'" and ap: "\<forall>y\<in>S. apart (l, r) y"
    and b: "0 < l" "r \<le> n"
    and inner: "\<And>p q. l \<le> p \<Longrightarrow> p < q \<Longrightarrow> q \<le> r \<Longrightarrow> (\<exists>(l', r')\<in>N. l' \<le> p \<and> q \<le> r') \<or> m' ! q \<le> m' ! p"
  shows "settled n m' (N \<union> S)"
  unfolding settled_def
proof (intro allI impI)
  fix p q assume pq: "0 < p \<and> p < q \<and> q \<le> n"
  have cross: "m ! q' \<le> m ! p'" if "0 < p'" "p' < q'" "q' \<le> n" "(l \<le> p' \<and> p' \<le> r) \<noteq> (l \<le> q' \<and> q' \<le> r)" for p' q'
  proof -
    have "\<not> (l' \<le> p' \<and> q' \<le> r')" if "(l', r') \<in> insert (l, r) S" for l' r'
    proof (cases "(l', r') = (l, r)")
      case True
      then show ?thesis using \<open>(l \<le> p' \<and> p' \<le> r) \<noteq> (l \<le> q' \<and> q' \<le> r)\<close> \<open>p' < q'\<close> by auto
    next
      case False
      then have "apart (l, r) (l', r')" using ap that by auto
      then show ?thesis using \<open>(l \<le> p' \<and> p' \<le> r) \<noteq> (l \<le> q' \<and> q' \<le> r)\<close> \<open>p' < q'\<close> by (auto simp: apart_def)
    qed
    then show ?thesis using st that(1-3) unfolding settled_def by blast
  qed
  consider "l \<le> p" "q \<le> r" | "l \<le> p" "p \<le> r" "r < q" | "p < l" "l \<le> q" "q \<le> r" | "p < l \<or> r < p" "q < l \<or> r < q"
    using pq by linarith
  then show "(\<exists>(l', r')\<in>N \<union> S. l' \<le> p \<and> q \<le> r') \<or> m' ! q \<le> m' ! p"
  proof cases
    case 1
    then show ?thesis using inner pq by blast
  next
    case 2
    obtain p0 where "l \<le> p0" "p0 \<le> r" "m' ! p = m ! p0" using within_inside [OF w 2(1,2)] by blast
    moreover have "m' ! q = m ! q" using within_outside [OF w] 2(3) by simp
    ultimately show ?thesis using cross [of p0 q] pq 2(3) b by auto
  next
    case 3
    obtain q0 where "l \<le> q0" "q0 \<le> r" "m' ! q = m ! q0" using within_inside [OF w 3(2,3)] by blast
    moreover have "m' ! p = m ! p" using within_outside [OF w] 3(1) by simp
    ultimately show ?thesis using cross [of p q0] pq 3(1) b by auto
  next
    case 4
    have m: "m' ! p = m ! p" "m' ! q = m ! q" using within_outside [OF w] 4 by blast+
    have "(\<exists>(l', r')\<in>insert (l, r) S. l' \<le> p \<and> q \<le> r') \<or> m ! q \<le> m ! p" using st pq unfolding settled_def by blast
    then show ?thesis using m 4 pq by auto
  qed
qed

definition total_size :: "(nat \<times> nat) list \<Rightarrow> nat" where
  "total_size ps = sum_list (map (\<lambda>(l, r). r + 1 - l) ps)"

lemma total_size_simps [simp]: "total_size [] = 0" "total_size ((l, r) # ps) = (r + 1 - l) + total_size ps"
  by (simp_all add: total_size_def)

definition pieces_ok :: "nat \<Rightarrow> (nat \<times> nat) list \<Rightarrow> bool" where
  "pieces_ok n ps \<longleftrightarrow> (\<forall>(l, r)\<in>set ps. 0 < l \<and> l \<le> r \<and> r \<le> n) \<and> sorted_wrt apart ps"

lemma pieces_count: "pieces_ok n ps \<Longrightarrow> length ps \<le> total_size ps"
  by (induction ps) (auto simp: pieces_ok_def)

lemma apart_sym: "apart x y \<longleftrightarrow> apart y x"
  by (auto simp: apart_def)

lemma sort_loop_spec:
  assumes "settled n m (set ((l, ir) # stk))" and "pieces_ok n ((l, ir) # stk)"
    and "total_size ((l, ir) # stk) + length stk \<le> n" and "n < length m" and "n < 2 * lim + 9"
  shows "\<exists>m'. sort_loop lim m l ir stk = Some m' \<and> within 1 n m m' \<and> descending m' 1 n"
  using assms
proof (induction lim m l ir stk rule: sort_loop.induct)
  case (1 lim m l ir stk)
  have b: "0 < l" "l \<le> ir" "ir \<le> n" and ap: "\<forall>y\<in>set stk. apart (l, ir) y" and ok: "pieces_ok n stk"
    using "1.prems"(2) by (auto simp: pieces_ok_def)
  have st: "settled n m (insert (l, ir) (set stk))" using "1.prems"(1) by simp
  show ?case
  proof (cases "ir - l < SMALL")
    case True
    have pre: "\<forall>p q. 0 < p \<and> p < l \<and> l \<le> q \<and> q \<le> ir \<longrightarrow> m ! q \<le> m ! p"
    proof (intro allI impI)
      fix p q assume pq: "0 < p \<and> p < l \<and> l \<le> q \<and> q \<le> ir"
      have "\<not> (l' \<le> p \<and> q \<le> r')" if "(l', r') \<in> insert (l, ir) (set stk)" for l' r'
        using that ap pq by (auto simp: apart_def)
      moreover have "0 < p \<and> p < q \<and> q \<le> n" using pq b by auto
      ultimately show "m ! q \<le> m ! p" using st unfolding settled_def by blast
    qed
    obtain m1 where m1: "insertion_sort l ir m = Some m1" "within l ir m m1" "descending m1 l ir"
      using insertion_sort_spec [OF b(1,2) _ pre] b "1.prems"(4) by auto
    have "settled n m1 ({} \<union> set stk)"
      by (rule settled_replace [OF st m1(2) ap b(1,3)]) (use m1(3) in \<open>auto simp: descending_def\<close>)
    then have s1: "settled n m1 (set stk)" by simp
    have w: "within 1 n m m1" using m1(2) b by (auto intro: within_mono)
    show ?thesis
    proof (cases stk)
      case Nil
      then have "descending m1 1 n" using s1 by (auto simp: settled_def descending_def Suc_le_eq)
      moreover have "sort_loop lim m l ir stk = Some m1" using True m1(1) Nil by (subst sort_loop.simps) simp
      ultimately show ?thesis using w by blast
    next
      case (Cons y stk')
      obtain l' ir' where y: "y = (l', ir')" by (cases y)
      have tot: "total_size ((l', ir') # stk') + length stk' \<le> n" using "1.prems"(3) Cons y by simp
      have "\<exists>m'. sort_loop lim m1 l' ir' stk' = Some m' \<and> within 1 n m1 m' \<and> descending m' 1 n"
        using "1.IH"(1) [OF True m1(1) Cons y [symmetric]] s1 ok tot Cons y within_length [OF w] "1.prems"(4,5) by auto
      moreover have "sort_loop lim m l ir stk = sort_loop lim m1 l' ir' stk'" using True m1(1) Cons y by (subst sort_loop.simps) simp
      ultimately show ?thesis using within_trans [OF w] by auto
    qed
  next
    case False
    then have big: "l + 8 \<le> ir" by (simp add: SMALL_def)
    obtain m1 i j a where m1: "partition_step m l ir = Some (m1, i, j)" "within l ir m m1" "l + 1 < i" "i \<le> ir" "l + 1 \<le> j" "j < ir" "j < i"
      and lo: "\<forall>p. l \<le> p \<and> p < i \<longrightarrow> a \<le> m1 ! p" and hi: "\<forall>p. j \<le> p \<and> p \<le> ir \<longrightarrow> m1 ! p \<le> a"
      using partition_step_spec [of l ir m] big b "1.prems"(4) by auto
    have s1: "settled n m1 ({(l, j - 1), (i, ir)} \<union> set stk)"
    proof (rule settled_replace [OF st m1(2) ap b(1,3)])
      fix p q assume pq: "l \<le> p" "p < q" "q \<le> ir"
      show "(\<exists>(l', r')\<in>{(l, j - 1), (i, ir)}. l' \<le> p \<and> q \<le> r') \<or> m1 ! q \<le> m1 ! p"
      proof (cases "q < j \<or> i \<le> p")
        case True
        then show ?thesis using pq by auto
      next
        case False
        then have "m1 ! q \<le> a" "a \<le> m1 ! p" using lo hi pq by auto
        then show ?thesis by (meson order_trans)
      qed
    qed
    have w: "within 1 n m m1" using m1(2) b by (auto intro: within_mono)
    have ap1: "\<forall>y\<in>set stk. apart (l, j - 1) y" "\<forall>y\<in>set stk. apart (i, ir) y" "apart (l, j - 1) (i, ir)"
      using ap m1(3-7) by (auto simp: apart_def)
    have "2 * length stk + 9 \<le> n" using pieces_count [OF ok] "1.prems"(3) big by simp
    then have room: "\<not> lim \<le> length stk" using "1.prems"(5) by linarith
    have tot: "(j - 1 + 1 - l) + (ir + 1 - i) + total_size stk + Suc (length stk) \<le> n"
      using "1.prems"(3) m1(3-7) b by simp
    have okA: "pieces_ok n ((l, j - 1) # (i, ir) # stk)" "pieces_ok n ((i, ir) # (l, j - 1) # stk)"
      using ok ap1 m1(3-7) b by (auto simp: pieces_ok_def apart_sym)
    have len: "n < length m1" using within_length [OF w] "1.prems"(4) by simp
    have "\<exists>m'. sort_loop lim m l ir stk = Some m' \<and> within 1 n m1 m' \<and> descending m' 1 n"
    proof (cases "j - 1 \<le> ir + 1 - i")
      case c: True
      have "sort_loop lim m l ir stk = sort_loop lim m1 l (j - 1) ((i, ir) # stk)"
        using False m1(1) room c by (subst sort_loop.simps) simp
      then show ?thesis using "1.IH"(2) [OF False m1(1) refl refl room c] s1 okA(1) tot len "1.prems"(5) by (auto simp: insert_commute)
    next
      case c: False
      have "sort_loop lim m l ir stk = sort_loop lim m1 i ir ((l, j - 1) # stk)"
        using False m1(1) room c by (subst sort_loop.simps) simp
      then show ?thesis using "1.IH"(3) [OF False m1(1) refl refl room c] s1 okA(2) tot len "1.prems"(5) by (auto simp: insert_commute)
    qed
    then show ?thesis using within_trans [OF w] by blast
  qed
qed

section \<open>Sorting a whole list\<close>

lemma sort_loop_sorts:
  assumes "n < length m" and "n < 2 * lim + 9"
  shows "\<exists>m'. sort_loop lim m 1 n [] = Some m' \<and> within 1 n m m' \<and> descending m' 1 n"
proof (cases "n = 0")
  case True
  then show ?thesis by (simp add: sort_loop.simps SMALL_def insertion_sort_def descending_def)
next
  case False
  show ?thesis
    by (rule sort_loop_spec) (use assms False in \<open>auto simp: settled_def pieces_ok_def\<close>)
qed

lemma within_entries:
  assumes w: "within 1 n m m'" and n: "n < length m"
  shows "m' ! 0 = m ! 0" and "drop (Suc n) m' = drop (Suc n) m"
    and "mset (take n (drop 1 m')) = mset (take n (drop 1 m))"
proof -
  have len: "length m' = length m" and ms: "mset m' = mset m" using w by (simp_all add: within_def)
  show h: "m' ! 0 = m ! 0" by (rule within_outside [OF w]) simp
  show d: "drop (Suc n) m' = drop (Suc n) m"
    by (rule nth_equalityI) (use len within_outside [OF w] in auto)
  have split: "mset x = mset (take n (drop 1 x)) + (mset (drop (Suc n) x) + {#x ! 0#})" if "n < length x" for x :: "'a list"
  proof -
    have "x = x ! 0 # (take n (drop 1 x) @ drop n (drop 1 x))"
      using that by (cases x) auto
    then have "mset x = mset (x ! 0 # (take n (drop 1 x) @ drop n (drop 1 x)))" by presburger
    then show ?thesis by simp
  qed
  show "mset (take n (drop 1 m')) = mset (take n (drop 1 m))"
    using split [of m] split [of m'] n len ms h d by simp
qed

lemma descending_entries:
  assumes "descending m 1 n" and "n < length m"
  shows "sorted_wrt (\<ge>) (take n (drop 1 m))"
  unfolding sorted_wrt_iff_nth_less
  using assms by (auto simp: descending_def)

text \<open>
  C40: \<^verbatim>\<open>mdb_midl_sort\<close> ends and sorts: on a list whose count \<^verbatim>\<open>ids[0]\<close> is at most 70 and within the memory, it returns,
  without an access outside the list and without overflowing its stack of 64 words; the entries 1 to \<^verbatim>\<open>ids[0]\<close> are then
  those it was given, in descending order, and the count and what follows the entries are unchanged.
\<close>

theorem mdb_midl_sort_sorts:
  assumes "n = unat (ids ! 0)" and "n < length ids" and "n \<le> 70"
  shows "\<exists>ids'. mdb_midl_sort ids = Some ids' \<and> length ids' = length ids \<and> ids' ! 0 = ids ! 0
           \<and> sorted_wrt (\<ge>) (take n (drop 1 ids')) \<and> mset (take n (drop 1 ids')) = mset (take n (drop 1 ids))
           \<and> drop (Suc n) ids' = drop (Suc n) ids"
proof -
  obtain ids' where s: "sort_loop ISTACK_PIECES ids 1 n [] = Some ids'" "within 1 n ids ids'" "descending ids' 1 n"
    using sort_loop_sorts [OF assms(2), of ISTACK_PIECES] assms(3) by (auto simp: ISTACK_PIECES_def)
  have "ids \<noteq> []" using assms(2) by auto
  then have "mdb_midl_sort ids = Some ids'" using s(1) assms(1) by (simp add: mdb_midl_sort_def rd_def)
  moreover have "length ids' = length ids" using within_length [OF s(2)] .
  ultimately show ?thesis using within_entries [OF s(2) assms(2)] descending_entries [OF s(3)] assms(2) by auto
qed

theorem mdb_midl_sort_sorts_witness:
  "\<exists>ids'. mdb_midl_sort [11, 3, 1, 4, 1, 5, 9, 2, 6, 5, 3, 5, 0] = Some ids'
     \<and> length ids' = length [11, 3, 1, 4, 1, 5, 9, 2, 6, 5, 3, 5, 0 :: mdb_id] \<and> ids' ! 0 = 11
     \<and> sorted_wrt (\<ge>) (take 11 (drop 1 ids')) \<and> mset (take 11 (drop 1 ids')) = mset [3, 1, 4, 1, 5, 9, 2, 6, 5, 3, 5]
     \<and> drop 12 ids' = [0]"
  using mdb_midl_sort_sorts [of 11 "[11, 3, 1, 4, 1, 5, 9, 2, 6, 5, 3, 5, 0]"] by simp

end
