(* ===== verification/Midl_Pairs.thy ===== *)
theory Midl_Pairs
  imports Midl
begin

text \<open>
  The sorted lists of pairs of \<^verbatim>\<open>libmdb/midl.c\<close>: the bisection finds the rank of a key, which makes it a second provider of
  the contract in \<^verbatim>\<open>Sorted_Ids\<close>, and insertion keeps the list sorted.  At the end, what appending to a plain list does.
\<close>

section \<open>Lists of pairs in memory\<close>

definition id2_count :: "mdb_id2 list \<Rightarrow> nat" where
  "id2_count ids = unat (mid (ids ! 0))"

definition id2_entries :: "mdb_id2 list \<Rightarrow> mdb_id2 list" where
  "id2_entries ids = take (id2_count ids) (drop 1 ids)"

text \<open>The invariant: the count lies within memory and the limit, and the keys are strictly ascending.\<close>

definition mid2l_ok :: "mdb_id2 list \<Rightarrow> bool" where
  "mid2l_ok ids \<longleftrightarrow>
     id2_count ids < length ids \<and> id2_count ids \<le> MDB_IDL_UM_MAX \<and> ascending (map mid (id2_entries ids))"

lemma id2_entries_length: "id2_count ids < length ids \<Longrightarrow> length (id2_entries ids) = id2_count ids"
  by (simp add: id2_entries_def)

lemma id2_entries_nth: "id2_count ids < length ids \<Longrightarrow> p < id2_count ids \<Longrightarrow> id2_entries ids ! p = ids ! Suc p"
  by (simp add: id2_entries_def)

section \<open>Search\<close>

lemma CMP_sign: "CMP x y < 0 \<longleftrightarrow> x < y" "CMP x y > 0 \<longleftrightarrow> y < x" "CMP x y = 0 \<longleftrightarrow> x = y"
  by (auto simp: CMP_def)

lemma search2_loop_spec:
  assumes "id2_count ids < length ids" and "xs = map mid (id2_entries ids)" and "ascending xs"
    and "base + n \<le> length xs"
    and "\<And>p. p < base \<Longrightarrow> xs ! p < k" and "\<And>p. base + n \<le> p \<Longrightarrow> p < length xs \<Longrightarrow> k < xs ! p"
    and "0 < val \<and> cursor = base \<or> val < 0 \<and> cursor = base + n + 1 \<or> val = 0 \<and> base = 0 \<and> cursor = 1"
  shows "search2_loop ids k base cursor n val = Some (rank xs k + 1)"
  using assms
proof (induction ids k base cursor n val rule: search2_loop.induct)
  case (1 ids k base cursor n val)
  note len = id2_entries_length [OF "1.prems"(1)]
  show ?case
  proof (cases "0 < n")
    case False
    have "rank xs k = base" using "1.prems"(4-6) False by (intro rank_eqI) (auto intro: less_imp_le)
    then show ?thesis using False "1.prems"(7) by (subst search2_loop.simps) auto
  next
    case True
    define c where "c = base + n div 2 + 1"
    have c: "c - 1 < length xs" "0 < c" using True "1.prems"(4) by (auto simp: c_def)
    have at: "rd ids c = Some (ids ! c)" "xs ! (c - 1) = mid (ids ! c)"
      using c "1.prems"(1,2) len by (simp_all add: rd_def id2_entries_nth c_def)
    have ge: "k < xs ! p" if "k < xs ! (c - 1)" "c - 1 \<le> p" "p < length xs" for p
      using that ascending_nth_less [OF "1.prems"(3), of "c - 1" p] by (cases "p = c - 1") auto
    have le: "xs ! p < k" if "xs ! (c - 1) < k" "p < c" for p
    proof (cases "p = c - 1")
      case False
      then have "xs ! p < xs ! (c - 1)" using that(2) c by (intro ascending_nth_less [OF "1.prems"(3)]) auto
      then show ?thesis using that(1) by (rule less_trans)
    qed (use that in simp)
    consider (lt) "k < xs ! (c - 1)" | (gt) "xs ! (c - 1) < k" | (eq) "k = xs ! (c - 1)" by force
    then show ?thesis
    proof cases
      case lt
      then have v: "CMP k (mid (ids ! c)) < 0" using at(2) by (simp add: CMP_sign)
      have "search2_loop ids k base c (n div 2) (CMP k (mid (ids ! c))) = Some (rank xs k + 1)"
        by (rule "1.IH"(1) [OF True refl c_def at(1) refl v])
          (use "1.prems"(1-6) ge lt v in \<open>auto simp: c_def\<close>)
      then show ?thesis using True at(1) v by (subst search2_loop.simps) (simp add: c_def Let_def)
    next
      case gt
      then have v: "\<not> CMP k (mid (ids ! c)) < 0" "0 < CMP k (mid (ids ! c))" using at(2) by (auto simp: CMP_sign)
      have "search2_loop ids k c c (n - (n div 2 + 1)) (CMP k (mid (ids ! c))) = Some (rank xs k + 1)"
        by (rule "1.IH"(2) [OF True refl c_def at(1) refl v])
          (use "1.prems"(1-6) le gt v True in \<open>auto simp: c_def\<close>)
      then show ?thesis using True at(1) v by (subst search2_loop.simps) (simp add: c_def Let_def)
    next
      case eq
      have "rank xs k + 1 = c" using rank_nth [OF "1.prems"(3) c(1)] eq c(2) by simp
      moreover have "CMP k (mid (ids ! c)) = 0" using eq at(2) by (simp add: CMP_sign)
      ultimately show ?thesis using True at(1) by (subst search2_loop.simps) (simp add: c_def Let_def)
    qed
  qed
qed

lemma UM_MAX_less: "MDB_IDL_UM_MAX < 2 ^ 32"
  by (simp add: MDB_IDL_UM_MAX_def)

lemma mid2l_search_spec:
  assumes "mid2l_ok ids"
  shows "mdb_mid2l_search ids k = Some (rank (map mid (id2_entries ids)) k + 1)"
proof -
  have c: "id2_count ids < length ids" "id2_count ids < 2 ^ 32" and asc: "ascending (map mid (id2_entries ids))"
    using assms UM_MAX_less by (auto simp: mid2l_ok_def)
  have "search2_loop ids k 0 1 (id2_count ids) 0 = Some (rank (map mid (id2_entries ids)) k + 1)"
    by (rule search2_loop_spec [OF c(1) refl asc]) (use id2_entries_length [OF c(1)] in auto)
  moreover have "rd ids 0 = Some (ids ! 0)" using c(1) by (cases ids) (simp_all add: rd_def)
  ultimately show ?thesis using c(2) by (simp add: mdb_mid2l_search_def id2_count_def)
qed

text \<open>A list in memory with given keys, and the answer a caller derives from the position.\<close>

definition mid2l_of :: "mdb_id list \<Rightarrow> mdb_id2 list" where
  "mid2l_of xs = map (\<lambda>x. \<lparr>mid = x, mptr = 0\<rparr>) (of_nat (length xs) # xs)"

definition mid2l_find :: "mdb_id list \<Rightarrow> mdb_id \<Rightarrow> nat \<times> bool" where
  "mid2l_find xs k =
     (let x = the (mdb_mid2l_search (mid2l_of xs) k) in (x - 1, x \<le> length xs \<and> mid (mid2l_of xs ! x) = k))"

lemma mid2l_of_ok:
  assumes "ascending xs" and "length xs \<le> MDB_IDL_UM_MAX"
  shows "mid2l_ok (mid2l_of xs)" and "map mid (id2_entries (mid2l_of xs)) = xs"
proof -
  have "unat (of_nat (length xs) :: mdb_id) = length xs"
    using assms(2) by (simp add: unat_of_nat MDB_IDL_UM_MAX_def)
  then show "map mid (id2_entries (mid2l_of xs)) = xs" "mid2l_ok (mid2l_of xs)"
    using assms by (simp_all add: mid2l_ok_def id2_entries_def id2_count_def mid2l_of_def o_def)
qed

interpretation mid2l: sorted_search mid2l_find "\<lambda>xs k. length xs \<le> MDB_IDL_UM_MAX"
proof
  fix xs :: "mdb_id list" and k
  assume a: "ascending xs" "length xs \<le> MDB_IDL_UM_MAX"
  have "mdb_mid2l_search (mid2l_of xs) k = Some (rank xs k + 1)"
    using mid2l_search_spec [OF mid2l_of_ok(1) [OF a]] mid2l_of_ok(2) [OF a] by simp
  moreover have "mid (mid2l_of xs ! Suc p) = xs ! p" if "p < length xs" for p
    using that by (simp add: mid2l_of_def)
  ultimately show "mid2l_find xs k = (rank xs k, k \<in> set xs)"
    using member_at_rank [OF a(1), of k] by (auto simp: mid2l_find_def Let_def Suc_le_eq)
qed

section \<open>Insertion\<close>

lemma insert_at_map: "map f (insert_at xs p x) = insert_at (map f xs) p (f x)"
  by (simp add: insert_at_def take_map drop_map)

text \<open>The loop that makes room, seen from the entries.\<close>

lemma shift_up_insert:
  assumes "p \<le> n" and "n + 1 < length ids"
  shows "take (Suc n) (drop 1 ((shift_up ids (Suc p) (Suc n))[Suc p := e])) = insert_at (take n (drop 1 ids)) p e"
    and "(shift_up ids (Suc p) (Suc n))[Suc p := e] ! 0 = ids ! 0"
    and "length ((shift_up ids (Suc p) (Suc n))[Suc p := e]) = length ids"
proof -
  let ?s = "shift_up ids (Suc p) (Suc n)"
  have s: "?s = take (Suc (Suc p)) ids @ take (n - p) (drop (Suc p) ids) @ drop (Suc (Suc n)) ids"
    using assms by (subst shift_up_spec) simp_all
  show "length (?s[Suc p := e]) = length ids" using assms by (simp only: s length_list_update length_append) simp
  have t: "take (Suc (Suc p)) ids = ids ! 0 # take p (drop 1 ids) @ [ids ! Suc p]"
    using assms by (cases ids) (simp_all add: take_Suc_conv_app_nth)
  show "?s[Suc p := e] ! 0 = ids ! 0" by (simp add: s t del: shift_up.simps)
  have "?s[Suc p := e] = ids ! 0 # take p (drop 1 ids) @ e # take (n - p) (drop (Suc p) ids) @ drop (Suc (Suc n)) ids"
    using assms by (simp add: s t list_update_append del: shift_up.simps)
  then show "take (Suc n) (drop 1 (?s[Suc p := e])) = insert_at (take n (drop 1 ids)) p e"
    using assms by (auto simp: insert_at_def min_def Suc_diff_le drop_take simp del: shift_up.simps)
qed

lemma insert_at_length: "p \<le> length xs \<Longrightarrow> length (insert_at xs p x) = Suc (length xs)"
  by (simp add: insert_at_def)

text \<open>The state after an insertion at the rank of a new key.\<close>

lemma mid2l_inserted:
  fixes e :: mdb_id2
  assumes ok: "mid2l_ok ids" and new: "mid e \<notin> mid ` set (id2_entries ids)"
    and room: "id2_count ids < MDB_IDL_UM_MAX" "id2_count ids + 1 < length ids"
    and p: "p = rank (map mid (id2_entries ids)) (mid e)"
    and i: "ids' = (shift_up (ids[0 := (ids ! 0)\<lparr>mid := mid (ids ! 0) + 1\<rparr>]) (p + 1) (id2_count ids + 1))[p + 1 := e]"
  shows "mid2l_ok ids' \<and> length ids' = length ids \<and> id2_entries ids' = insert_at (id2_entries ids) p e"
proof -
  let ?ids = "ids[0 := (ids ! 0)\<lparr>mid := mid (ids ! 0) + 1\<rparr>]"
  have asc: "ascending (map mid (id2_entries ids))" using ok by (simp add: mid2l_ok_def)
  have len: "length (id2_entries ids) = id2_count ids" using room(2) by (simp add: id2_entries_length)
  have pl: "p \<le> id2_count ids" using rank_le [of "map mid (id2_entries ids)"] len p by simp
  note ins = shift_up_insert [of p "id2_count ids" ?ids e] 
  have sh: "ids' ! 0 = ?ids ! 0" "length ids' = length ids"
    "take (Suc (id2_count ids)) (drop 1 ids') = insert_at (take (id2_count ids) (drop 1 ?ids)) p e"
    using ins [OF pl] room(2) by (simp_all only: i length_list_update Suc_eq_plus1 [symmetric])
  have "unat (mid (ids ! 0) + 1) = unat (mid (ids ! 0)) + 1"
    using room(1) by (simp add: unat_word_ariths MDB_IDL_UM_MAX_def id2_count_def)
  then have c: "id2_count ids' = Suc (id2_count ids)"
    using sh(1) room(2) by (cases ids) (simp_all add: id2_count_def)
  have e: "id2_entries ids' = insert_at (id2_entries ids) p e"
    using sh(3) c by (cases ids) (simp_all add: id2_entries_def)
  have "ascending (insert_at (map mid (id2_entries ids)) p (mid e))"
    using mid2l.insert_missing [OF asc, of "mid e"] mid2l.find_pos [OF asc, of "mid e"] new p len room(1) by simp
  then show ?thesis using room c sh(2) e by (simp add: mid2l_ok_def insert_at_map)
qed

lemma mid2l_at_rank:
  assumes "mid2l_ok ids"
  shows "rank (map mid (id2_entries ids)) k < id2_count ids \<and> mid (ids ! Suc (rank (map mid (id2_entries ids)) k)) = k
           \<longleftrightarrow> k \<in> mid ` set (id2_entries ids)"
proof -
  have c: "id2_count ids < length ids" and asc: "ascending (map mid (id2_entries ids))"
    using assms by (auto simp: mid2l_ok_def)
  show ?thesis using member_at_rank [OF asc, of k] id2_entries_length [OF c] id2_entries_nth [OF c]
    by (auto simp: nth_map)
qed

text \<open>
  C13: \<^verbatim>\<open>mdb_mid2l_insert\<close> on every branch.  On a list that satisfies the invariant, with memory for one more entry unless it
  is full: a key that is present is refused with -1 and a new key in a full list with -2, and the list is unchanged; otherwise
  the result is 0, the new list satisfies the invariant, and its entries are the old ones and the new one.  The assertion
  does not fail and no access is outside the list.
\<close>

theorem mdb_mid2l_insert_result:
  assumes "mid2l_ok ids" and "id2_count ids < MDB_IDL_UM_MAX \<longrightarrow> id2_count ids + 1 < length ids"
  shows "if mid e \<in> mid ` set (id2_entries ids) then mdb_mid2l_insert ids e = Some (-1, ids)
         else if id2_count ids = MDB_IDL_UM_MAX then mdb_mid2l_insert ids e = Some (-2, ids)
         else \<exists>ids'. mdb_mid2l_insert ids e = Some (0, ids') \<and> mid2l_ok ids' \<and> length ids' = length ids
                \<and> id2_count ids' = id2_count ids + 1 \<and> set (id2_entries ids') = insert e (set (id2_entries ids))"
proof -
  let ?r = "rank (map mid (id2_entries ids)) (mid e)"
  have c: "id2_count ids < length ids" "id2_count ids \<le> MDB_IDL_UM_MAX" using assms(1) by (auto simp: mid2l_ok_def)
  have r: "?r \<le> id2_count ids" using rank_le [of "map mid (id2_entries ids)"] id2_entries_length [OF c(1)] by simp
  have h: "rd ids 0 = Some (ids ! 0)" using c(1) by (cases ids) (simp_all add: rd_def)
  note at = mid2l_at_rank [OF assms(1), of "mid e"]
  note ev = mdb_mid2l_insert_def mid2l_search_spec [OF assms(1)] h Let_def Suc_le_eq id2_count_def [symmetric]
  consider (dup) "mid e \<in> mid ` set (id2_entries ids)" | (full) "mid e \<notin> mid ` set (id2_entries ids)" "id2_count ids = MDB_IDL_UM_MAX"
    | (new) "mid e \<notin> mid ` set (id2_entries ids)" "id2_count ids < MDB_IDL_UM_MAX" using c(2) by linarith
  then show ?thesis
  proof cases
    case dup
    then show ?thesis using at c(1) by (simp add: ev)
  next
    case full
    then have "\<not> (?r < id2_count ids \<and> mid (ids ! Suc ?r) = mid e)" using at by blast
    then show ?thesis using full c(1) by (auto simp: ev)
  next
    case new
    define ids' where "ids' = (shift_up (ids[0 := (ids ! 0)\<lparr>mid := mid (ids ! 0) + 1\<rparr>]) (?r + 1) (id2_count ids + 1))[?r + 1 := e]"
    have room: "id2_count ids + 1 < length ids" using new(2) assms(2) by blast
    have i: "mid2l_ok ids'" "length ids' = length ids" "id2_entries ids' = insert_at (id2_entries ids) ?r e"
      using mid2l_inserted [OF assms(1) new room refl ids'_def] by auto
    have "\<not> (?r < id2_count ids \<and> mid (ids ! Suc ?r) = mid e)" using at new(1) by blast
    then have "mdb_mid2l_insert ids e = Some (0, ids')"
      using new(2) c(1) room by (auto simp: ev ids'_def simp del: shift_up.simps)
    moreover have "set (id2_entries ids') = insert e (set (id2_entries ids))"
      unfolding i(3) insert_at_def using append_take_drop_id [of ?r "id2_entries ids"] by (metis Un_insert_right list.simps(15) set_append)
    moreover have "id2_count ids' = id2_count ids + 1"
      using i id2_entries_length [of ids'] id2_entries_length [OF c(1)] r by (simp add: mid2l_ok_def insert_at_length)
    ultimately show ?thesis using new i(1,2) by simp
  qed
qed

theorem mdb_mid2l_insert_result_witness:
  "\<exists>ids'. mdb_mid2l_insert (mid2l_of [3, 8] @ [\<lparr>mid = 0, mptr = 0\<rparr>]) \<lparr>mid = 5, mptr = 1\<rparr> = Some (0, ids') \<and> mid2l_ok ids'
     \<and> id2_count ids' = 3
     \<and> set (id2_entries ids') = {\<lparr>mid = 5, mptr = 1\<rparr>, \<lparr>mid = 3, mptr = 0\<rparr>, \<lparr>mid = 8, mptr = 0\<rparr>}"
  using mdb_mid2l_insert_result [of "mid2l_of [3, 8] @ [\<lparr>mid = 0, mptr = 0\<rparr>]" "\<lparr>mid = 5, mptr = 1\<rparr>"]
  by (auto simp: mid2l_ok_def id2_entries_def id2_count_def mid2l_of_def MDB_IDL_UM_MAX_def)

text \<open>Appending to a list of pairs keeps the invariant when the key is greater than all others.\<close>

lemma mdb_mid2l_append_result:
  assumes "mid2l_ok ids" and "id2_count ids < MDB_IDL_UM_MAX" and "id2_count ids + 1 < length ids"
    and "\<forall>x\<in>set (id2_entries ids). mid x < mid e"
  shows "\<exists>ids'. mdb_mid2l_append ids e = Some (0, ids') \<and> mid2l_ok ids' \<and> id2_entries ids' = id2_entries ids @ [e]"
proof -
  have h: "rd ids 0 = Some (ids ! 0)" using assms(3) by (cases ids) (simp_all add: rd_def)
  have u: "unat (mid (ids ! 0) + 1) = unat (mid (ids ! 0)) + 1"
    using assms(2) by (simp add: unat_word_ariths MDB_IDL_UM_MAX_def id2_count_def)
  define ids' where "ids' = ids[0 := (ids ! 0)\<lparr>mid := mid (ids ! 0) + 1\<rparr>, id2_count ids + 1 := e]"
  have "mdb_mid2l_append ids e = Some (0, ids')"
    using assms(2,3) h by (auto simp: mdb_mid2l_append_def wr_def ids'_def id2_count_def)
  moreover have c: "id2_count ids' = id2_count ids + 1" using u assms(3) by (cases ids) (simp_all add: id2_count_def ids'_def)
  moreover have "drop 1 ids' = (drop 1 ids)[id2_count ids := e]" by (cases ids) (simp_all add: ids'_def)
  then have e: "id2_entries ids' = id2_entries ids @ [e]"
    using assms(3) by (simp add: id2_entries_def c take_Suc_conv_app_nth)
  moreover have "mid2l_ok ids'" using assms c e by (simp add: mid2l_ok_def sorted_wrt_append ids'_def)
  ultimately show ?thesis by blast
qed

section \<open>Appending to a plain list\<close>

text \<open>
  A list as \<^verbatim>\<open>mdb_midl_alloc\<close> leaves it has \<^verbatim>\<open>ids[-1]\<close> words from \<^verbatim>\<open>ids[0]\<close> on, one of which is the count.  Below
  \<^verbatim>\<open>ids[-1] - 1\<close> entries, \<^verbatim>\<open>mdb_midl_append\<close> appends; at \<^verbatim>\<open>ids[-1] - 1\<close> entries, it does not grow the list and stores
  behind the allocation.
\<close>

lemma mdb_midl_append_appends:
  assumes "length (idl_mem ids) = idl_max ids" and "n = unat (idl_mem ids ! 0)" and "n + 1 < idl_max ids" and "idl_max ids < 2 ^ 64"
  shows "\<exists>m. mdb_midl_append ma junk ids i = Some (0, ids\<lparr>idl_mem := m\<rparr>) \<and> length m = length (idl_mem ids)
           \<and> unat (m ! 0) = n + 1 \<and> take (n + 1) (drop 1 m) = take n (drop 1 (idl_mem ids)) @ [i]"
proof -
  let ?m = "idl_mem ids"
  define m where "m = ?m[0 := ?m ! 0 + 1, n + 1 := i]"
  have u: "unat (?m ! 0 + 1) = n + 1" using assms by (simp add: unat_word_ariths)
  have ne: "0 < length ?m" using assms by simp
  then have "mdb_midl_append ma junk ids i = Some (0, ids\<lparr>idl_mem := m\<rparr>)"
    using assms u by (auto simp: mdb_midl_append_def rd_def wr_def m_def Let_def)
  moreover have "drop 1 m = (drop 1 ?m)[n := i]" by (cases ?m) (simp_all add: m_def)
  then have "take (n + 1) (drop 1 m) = take n (drop 1 ?m) @ [i]" using assms(1,3) by (simp add: take_Suc_conv_app_nth)
  ultimately show ?thesis using u ne by (intro exI [of _ m]) (simp add: m_def)
qed

lemma mdb_midl_append_overrun:
  assumes "length (idl_mem ids) = idl_max ids" and "unat (idl_mem ids ! 0) + 1 = idl_max ids" and "idl_max ids < 2 ^ 64"
  shows "mdb_midl_append ma junk ids i = None"
proof -
  have "unat (idl_mem ids ! 0 + 1) = idl_max ids" using assms by (simp add: unat_word_ariths)
  then show ?thesis using assms by (auto simp: mdb_midl_append_def rd_def wr_def Let_def split: Option.bind_splits)
qed

end
