(* ===== verification/Rdwr_Lock.thy ===== *)
theory Rdwr_Lock
  imports Ldap_Prelude
begin

text \<open>
  The reader/writer locks of \<^verbatim>\<open>libldap_r/rdwr.c\<close>.  Every operation runs under the lock's mutex, so it is one atomic step,
  except that \<^verbatim>\<open>ldap_pvt_thread_cond_wait\<close> gives the mutex up: the blocking operations are cut there into the part
  up to the first wait and the part that runs after a wake-up.  A failing \<^verbatim>\<open>assert\<close> is \<open>None\<close>.  Threads, their waiting, signals,
  broadcasts and spurious wake-ups form a transition system, whose reachable states are shown to exclude writers from everybody
  else and never to forget a waiting thread.
\<close>

section \<open>The lock\<close>

text \<open>
  The counters are C integers.  They count threads, of which fewer than \<open>2 ^ 31\<close> use the lock at a
  time, so their values fit; both is part of the property below.
\<close>

record rdwr =
  ltrw_valid :: int
  ltrw_r_active :: int
  ltrw_w_active :: int
  ltrw_r_wait :: int
  ltrw_w_wait :: int

definition LDAP_PVT_THREAD_RDWR_VALID :: int where
  "LDAP_PVT_THREAD_RDWR_VALID = 0x0bad"

text \<open>Defined as \<^verbatim>\<open>EINVAL\<close>.\<close>

definition LDAP_PVT_THREAD_EBUSY :: int where
  "LDAP_PVT_THREAD_EBUSY = 22"

text \<open>The end of a step: the operation returns a value, or its thread waits.\<close>

datatype lock_outcome = Returns int | Waits

text \<open>The condition variable the step signals.\<close>

datatype wake_up = WakeNone | BroadcastRead | SignalWrite

definition counters_ok :: "rdwr \<Rightarrow> bool" where
  "counters_ok rw \<longleftrightarrow> 0 \<le> ltrw_w_active rw \<and> 0 \<le> ltrw_w_wait rw \<and> 0 \<le> ltrw_r_active rw \<and> 0 \<le> ltrw_r_wait rw"

text \<open>\<open>granted\<close>: the memory for the lock is granted.  \<^verbatim>\<open>LDAP_NO_MEMORY\<close> is -10.\<close>

definition ldap_pvt_thread_rdwr_init :: "bool \<Rightarrow> int \<times> rdwr option" where
  "ldap_pvt_thread_rdwr_init granted =
     (if \<not> granted then (-10, None)
      else (0, Some \<lparr>ltrw_valid = LDAP_PVT_THREAD_RDWR_VALID, ltrw_r_active = 0, ltrw_w_active = 0,
                     ltrw_r_wait = 0, ltrw_w_wait = 0\<rparr>))"

text \<open>The return value, and whether the lock is gone.\<close>

definition ldap_pvt_thread_rdwr_destroy :: "rdwr \<Rightarrow> (int \<times> bool) option" where
  "ldap_pvt_thread_rdwr_destroy rw =
     (if ltrw_valid rw \<noteq> LDAP_PVT_THREAD_RDWR_VALID \<or> \<not> counters_ok rw then None
      else if ltrw_r_active rw > 0 \<or> ltrw_w_active rw > 0 then Some (LDAP_PVT_THREAD_EBUSY, False)
      else if ltrw_r_wait rw > 0 \<or> ltrw_w_wait rw > 0 then Some (LDAP_PVT_THREAD_EBUSY, False)
      else Some (0, True))"

definition ldap_pvt_thread_rdwr_rlock :: "rdwr \<Rightarrow> (lock_outcome \<times> rdwr) option" where
  "ldap_pvt_thread_rdwr_rlock rw =
     (if ltrw_valid rw \<noteq> LDAP_PVT_THREAD_RDWR_VALID \<or> \<not> counters_ok rw then None
      else if ltrw_w_active rw > 0 then Some (Waits, rw\<lparr>ltrw_r_wait := ltrw_r_wait rw + 1\<rparr>)
      else Some (Returns 0, rw\<lparr>ltrw_r_active := ltrw_r_active rw + 1\<rparr>))"

definition rlock_resume :: "rdwr \<Rightarrow> (lock_outcome \<times> rdwr) option" where
  "rlock_resume rw =
     (if ltrw_w_active rw > 0 then Some (Waits, rw)
      else let rw = rw\<lparr>ltrw_r_wait := ltrw_r_wait rw - 1\<rparr>
           in if ltrw_r_wait rw < 0 then None else Some (Returns 0, rw\<lparr>ltrw_r_active := ltrw_r_active rw + 1\<rparr>))"

definition ldap_pvt_thread_rdwr_rtrylock :: "rdwr \<Rightarrow> (int \<times> rdwr) option" where
  "ldap_pvt_thread_rdwr_rtrylock rw =
     (if ltrw_valid rw \<noteq> LDAP_PVT_THREAD_RDWR_VALID \<or> \<not> counters_ok rw then None
      else if ltrw_w_active rw > 0 then Some (LDAP_PVT_THREAD_EBUSY, rw)
      else Some (0, rw\<lparr>ltrw_r_active := ltrw_r_active rw + 1\<rparr>))"

definition ldap_pvt_thread_rdwr_runlock :: "rdwr \<Rightarrow> (wake_up \<times> rdwr) option" where
  "ldap_pvt_thread_rdwr_runlock rw =
     (if ltrw_valid rw \<noteq> LDAP_PVT_THREAD_RDWR_VALID then None
      else let rw = rw\<lparr>ltrw_r_active := ltrw_r_active rw - 1\<rparr>
           in if \<not> counters_ok rw then None
              else Some (if ltrw_r_active rw = 0 \<and> ltrw_w_wait rw > 0 then SignalWrite else WakeNone, rw))"

definition ldap_pvt_thread_rdwr_wlock :: "rdwr \<Rightarrow> (lock_outcome \<times> rdwr) option" where
  "ldap_pvt_thread_rdwr_wlock rw =
     (if ltrw_valid rw \<noteq> LDAP_PVT_THREAD_RDWR_VALID \<or> \<not> counters_ok rw then None
      else if ltrw_w_active rw > 0 \<or> ltrw_r_active rw > 0 then Some (Waits, rw\<lparr>ltrw_w_wait := ltrw_w_wait rw + 1\<rparr>)
      else Some (Returns 0, rw\<lparr>ltrw_w_active := ltrw_w_active rw + 1\<rparr>))"

definition wlock_resume :: "rdwr \<Rightarrow> (lock_outcome \<times> rdwr) option" where
  "wlock_resume rw =
     (if ltrw_w_active rw > 0 \<or> ltrw_r_active rw > 0 then Some (Waits, rw)
      else let rw = rw\<lparr>ltrw_w_wait := ltrw_w_wait rw - 1\<rparr>
           in if ltrw_w_wait rw < 0 then None else Some (Returns 0, rw\<lparr>ltrw_w_active := ltrw_w_active rw + 1\<rparr>))"

definition ldap_pvt_thread_rdwr_wtrylock :: "rdwr \<Rightarrow> (int \<times> rdwr) option" where
  "ldap_pvt_thread_rdwr_wtrylock rw =
     (if ltrw_valid rw \<noteq> LDAP_PVT_THREAD_RDWR_VALID \<or> \<not> counters_ok rw then None
      else if ltrw_w_active rw > 0 \<or> ltrw_r_active rw > 0 then Some (LDAP_PVT_THREAD_EBUSY, rw)
      else Some (0, rw\<lparr>ltrw_w_active := ltrw_w_active rw + 1\<rparr>))"

definition ldap_pvt_thread_rdwr_wunlock :: "rdwr \<Rightarrow> (wake_up \<times> rdwr) option" where
  "ldap_pvt_thread_rdwr_wunlock rw =
     (if ltrw_valid rw \<noteq> LDAP_PVT_THREAD_RDWR_VALID then None
      else let rw = rw\<lparr>ltrw_w_active := ltrw_w_active rw - 1\<rparr>
           in if \<not> counters_ok rw then None
              else Some (if ltrw_r_wait rw > 0 then BroadcastRead
                         else if ltrw_w_wait rw > 0 then SignalWrite else WakeNone, rw))"

section \<open>Threads\<close>

text \<open>
  What a thread is doing: nothing with the lock, holding it, waiting for a signal, or awake again and about to take the mutex.
\<close>

datatype thread_state = Idle | Reading | Writing | ReadParked | ReadAwake | WriteParked | WriteAwake

record rdwr_sys =
  rw_lock :: rdwr
  rw_thread :: "nat \<Rightarrow> thread_state"

definition after :: "thread_state \<Rightarrow> thread_state \<Rightarrow> lock_outcome \<Rightarrow> thread_state" where
  "after waiting got r = (if r = Waits then waiting else got)"

text \<open>A signal wakes one waiting thread if there is one, a broadcast all of them.\<close>

inductive woken :: "wake_up \<Rightarrow> (nat \<Rightarrow> thread_state) \<Rightarrow> (nat \<Rightarrow> thread_state) \<Rightarrow> bool" where
  woken_none: "woken WakeNone st st"
| woken_readers: "woken BroadcastRead st (\<lambda>t. if st t = ReadParked then ReadAwake else st t)"
| woken_writer: "st u = WriteParked \<Longrightarrow> woken SignalWrite st (st(u := WriteAwake))"
| woken_nobody: "\<forall>u. st u \<noteq> WriteParked \<Longrightarrow> woken SignalWrite st st"

inductive rdwr_step :: "rdwr_sys \<Rightarrow> rdwr_sys \<Rightarrow> bool" where
  rlock: "st t = Idle \<Longrightarrow> ldap_pvt_thread_rdwr_rlock rw = Some (r, rw') \<Longrightarrow>
    rdwr_step \<lparr>rw_lock = rw, rw_thread = st\<rparr> \<lparr>rw_lock = rw', rw_thread = st(t := after ReadParked Reading r)\<rparr>"
| rresume: "st t = ReadAwake \<Longrightarrow> rlock_resume rw = Some (r, rw') \<Longrightarrow>
    rdwr_step \<lparr>rw_lock = rw, rw_thread = st\<rparr> \<lparr>rw_lock = rw', rw_thread = st(t := after ReadParked Reading r)\<rparr>"
| rtrylock: "st t = Idle \<Longrightarrow> ldap_pvt_thread_rdwr_rtrylock rw = Some (rc, rw') \<Longrightarrow>
    rdwr_step \<lparr>rw_lock = rw, rw_thread = st\<rparr> \<lparr>rw_lock = rw', rw_thread = st(t := if rc = 0 then Reading else Idle)\<rparr>"
| runlock: "st t = Reading \<Longrightarrow> ldap_pvt_thread_rdwr_runlock rw = Some (wk, rw') \<Longrightarrow> woken wk (st(t := Idle)) st' \<Longrightarrow>
    rdwr_step \<lparr>rw_lock = rw, rw_thread = st\<rparr> \<lparr>rw_lock = rw', rw_thread = st'\<rparr>"
| wlock: "st t = Idle \<Longrightarrow> ldap_pvt_thread_rdwr_wlock rw = Some (r, rw') \<Longrightarrow>
    rdwr_step \<lparr>rw_lock = rw, rw_thread = st\<rparr> \<lparr>rw_lock = rw', rw_thread = st(t := after WriteParked Writing r)\<rparr>"
| wresume: "st t = WriteAwake \<Longrightarrow> wlock_resume rw = Some (r, rw') \<Longrightarrow>
    rdwr_step \<lparr>rw_lock = rw, rw_thread = st\<rparr> \<lparr>rw_lock = rw', rw_thread = st(t := after WriteParked Writing r)\<rparr>"
| wtrylock: "st t = Idle \<Longrightarrow> ldap_pvt_thread_rdwr_wtrylock rw = Some (rc, rw') \<Longrightarrow>
    rdwr_step \<lparr>rw_lock = rw, rw_thread = st\<rparr> \<lparr>rw_lock = rw', rw_thread = st(t := if rc = 0 then Writing else Idle)\<rparr>"
| wunlock: "st t = Writing \<Longrightarrow> ldap_pvt_thread_rdwr_wunlock rw = Some (wk, rw') \<Longrightarrow> woken wk (st(t := Idle)) st' \<Longrightarrow>
    rdwr_step \<lparr>rw_lock = rw, rw_thread = st\<rparr> \<lparr>rw_lock = rw', rw_thread = st'\<rparr>"
| spurious_read: "st t = ReadParked \<Longrightarrow>
    rdwr_step \<lparr>rw_lock = rw, rw_thread = st\<rparr> \<lparr>rw_lock = rw, rw_thread = st(t := ReadAwake)\<rparr>"
| spurious_write: "st t = WriteParked \<Longrightarrow>
    rdwr_step \<lparr>rw_lock = rw, rw_thread = st\<rparr> \<lparr>rw_lock = rw, rw_thread = st(t := WriteAwake)\<rparr>"

definition rdwr_start :: "rdwr_sys \<Rightarrow> bool" where
  "rdwr_start s \<longleftrightarrow> ldap_pvt_thread_rdwr_init True = (0, Some (rw_lock s)) \<and> (\<forall>t. rw_thread s t = Idle)"

definition few_threads :: "(nat \<Rightarrow> thread_state) \<Rightarrow> bool" where
  "few_threads st \<longleftrightarrow> card {t. st t \<noteq> Idle} < 2 ^ 31"

text \<open>States reachable from a fresh lock, with fewer than \<open>2 ^ 31\<close> threads using it at a time.\<close>

inductive rdwr_reachable :: "rdwr_sys \<Rightarrow> bool" where
  reach_start: "rdwr_start s \<Longrightarrow> rdwr_reachable s"
| reach_step: "rdwr_reachable s \<Longrightarrow> rdwr_step s s' \<Longrightarrow> few_threads (rw_thread s') \<Longrightarrow> rdwr_reachable s'"

section \<open>Counting threads\<close>

definition threads_in :: "(nat \<Rightarrow> thread_state) \<Rightarrow> thread_state set \<Rightarrow> int" where
  "threads_in st S = int (card {t. st t \<in> S})"

definition finitely_busy :: "(nat \<Rightarrow> thread_state) \<Rightarrow> bool" where
  "finitely_busy st \<longleftrightarrow> finite {t. st t \<noteq> Idle}"

lemma finite_threads_in: "finitely_busy st \<Longrightarrow> Idle \<notin> S \<Longrightarrow> finite {t. st t \<in> S}"
  unfolding finitely_busy_def by (rule finite_subset) auto

lemma finitely_busy_upd: "finitely_busy st \<Longrightarrow> finitely_busy (st(t := x))"
  unfolding finitely_busy_def by (rule finite_subset [of _ "insert t {t. st t \<noteq> Idle}"]) auto

lemma threads_in_upd:
  assumes "finitely_busy st" and "Idle \<notin> S"
  shows "threads_in (st(t := x)) S = threads_in st S - (if st t \<in> S then 1 else 0) + (if x \<in> S then 1 else 0)"
proof -
  let ?A = "{u. st u \<in> S}"
  have fin: "finite ?A" using assms by (rule finite_threads_in)
  have "{u. (st(t := x)) u \<in> S} = (if x \<in> S then insert t (?A - {t}) else ?A - {t})" by auto
  moreover have "int (card (?A - {t})) = int (card ?A) - (if st t \<in> S then 1 else 0)"
  proof (cases "st t \<in> S")
    case True
    then have "card ?A = Suc (card (?A - {t}))" using fin by (intro card.remove) auto
    then show ?thesis using True by simp
  qed simp
  ultimately show ?thesis using fin by (simp add: threads_in_def insert_absorb)
qed

lemma threads_in_pos:
  assumes "finitely_busy st" and "Idle \<notin> S"
  shows "0 < threads_in st S \<longleftrightarrow> (\<exists>t. st t \<in> S)" and "0 \<le> threads_in st S"
  using finite_threads_in [OF assms] by (auto simp: threads_in_def card_gt_0_iff)

section \<open>The invariant\<close>

text \<open>
  The counters count the threads; a writer is alone; readers wait only for a writer; and when nobody holds the lock while a
  writer waits for a signal, somebody has been woken.
\<close>

definition rdwr_inv :: "rdwr_sys \<Rightarrow> bool" where
  "rdwr_inv s \<longleftrightarrow>
     (let rw = rw_lock s; st = rw_thread s
      in finitely_busy st \<and> ltrw_valid rw = LDAP_PVT_THREAD_RDWR_VALID
       \<and> ltrw_r_active rw = threads_in st {Reading} \<and> ltrw_w_active rw = threads_in st {Writing}
       \<and> ltrw_r_wait rw = threads_in st {ReadParked, ReadAwake} \<and> ltrw_w_wait rw = threads_in st {WriteParked, WriteAwake}
       \<and> (ltrw_w_active rw = 0 \<or> ltrw_w_active rw = 1 \<and> ltrw_r_active rw = 0)
       \<and> (ltrw_w_active rw = 0 \<longrightarrow> (\<forall>t. st t \<noteq> ReadParked))
       \<and> (ltrw_w_active rw = 0 \<and> ltrw_r_active rw = 0 \<and> (\<exists>t. st t = WriteParked) \<longrightarrow> (\<exists>t. st t \<in> {ReadAwake, WriteAwake})))"

lemma inv_counters: "rdwr_inv s \<Longrightarrow> counters_ok (rw_lock s)"
  by (simp add: rdwr_inv_def counters_ok_def Let_def threads_in_def)

lemma woken_threads:
  assumes "woken wk st st'" and "finitely_busy st"
  shows "finitely_busy st'"
    and "threads_in st' {Reading} = threads_in st {Reading}" "threads_in st' {Writing} = threads_in st {Writing}"
    and "threads_in st' {ReadParked, ReadAwake} = threads_in st {ReadParked, ReadAwake}"
    and "threads_in st' {WriteParked, WriteAwake} = threads_in st {WriteParked, WriteAwake}"
proof -
  have r: "{t. (if st t = ReadParked then ReadAwake else st t) \<noteq> Idle} = {t. st t \<noteq> Idle}"
    "{t. (if st t = ReadParked then ReadAwake else st t) \<in> {Reading}} = {t. st t \<in> {Reading}}"
    "{t. (if st t = ReadParked then ReadAwake else st t) \<in> {Writing}} = {t. st t \<in> {Writing}}"
    "{t. (if st t = ReadParked then ReadAwake else st t) \<in> {ReadParked, ReadAwake}} = {t. st t \<in> {ReadParked, ReadAwake}}"
    "{t. (if st t = ReadParked then ReadAwake else st t) \<in> {WriteParked, WriteAwake}} = {t. st t \<in> {WriteParked, WriteAwake}}"
    by auto
  have "finitely_busy st' \<and> threads_in st' {Reading} = threads_in st {Reading} \<and> threads_in st' {Writing} = threads_in st {Writing}
      \<and> threads_in st' {ReadParked, ReadAwake} = threads_in st {ReadParked, ReadAwake}
      \<and> threads_in st' {WriteParked, WriteAwake} = threads_in st {WriteParked, WriteAwake}"
    using assms(1)
  proof cases
    case woken_readers
    then show ?thesis using assms(2) by (simp only: threads_in_def finitely_busy_def r)
  qed (use assms(2) in \<open>simp_all add: finitely_busy_upd threads_in_upd\<close>)
  then show "finitely_busy st'" "threads_in st' {Reading} = threads_in st {Reading}" "threads_in st' {Writing} = threads_in st {Writing}"
    "threads_in st' {ReadParked, ReadAwake} = threads_in st {ReadParked, ReadAwake}"
    "threads_in st' {WriteParked, WriteAwake} = threads_in st {WriteParked, WriteAwake}"
    by simp_all
qed

lemma woken_readers_all: "woken BroadcastRead st st' \<Longrightarrow> st' t \<noteq> ReadParked"
  by (erule woken.cases) auto

lemma woken_writer_one:
  assumes "woken SignalWrite st st'"
  shows "\<exists>t. st t \<in> {WriteParked, WriteAwake} \<Longrightarrow> \<exists>t. st' t = WriteAwake" and "st' t = ReadParked \<Longrightarrow> st t = ReadParked"
  using assms by (cases; auto split: if_splits)+

lemmas rdwr_ops =
  ldap_pvt_thread_rdwr_rlock_def rlock_resume_def ldap_pvt_thread_rdwr_rtrylock_def ldap_pvt_thread_rdwr_runlock_def
  ldap_pvt_thread_rdwr_wlock_def wlock_resume_def ldap_pvt_thread_rdwr_wtrylock_def ldap_pvt_thread_rdwr_wunlock_def
  ldap_pvt_thread_rdwr_destroy_def

lemma inv_sys:
  "rdwr_inv \<lparr>rw_lock = rw, rw_thread = st\<rparr> \<longleftrightarrow>
     finitely_busy st \<and> ltrw_valid rw = LDAP_PVT_THREAD_RDWR_VALID
     \<and> ltrw_r_active rw = threads_in st {Reading} \<and> ltrw_w_active rw = threads_in st {Writing}
     \<and> ltrw_r_wait rw = threads_in st {ReadParked, ReadAwake} \<and> ltrw_w_wait rw = threads_in st {WriteParked, WriteAwake}
     \<and> (ltrw_w_active rw = 0 \<or> ltrw_w_active rw = 1 \<and> ltrw_r_active rw = 0)
     \<and> (ltrw_w_active rw = 0 \<longrightarrow> (\<forall>t. st t \<noteq> ReadParked))
     \<and> (ltrw_w_active rw = 0 \<and> ltrw_r_active rw = 0 \<and> (\<exists>t. st t = WriteParked) \<longrightarrow> (\<exists>t. st t \<in> {ReadAwake, WriteAwake}))"
  by (simp add: rdwr_inv_def Let_def)

lemma inv_nonneg: "rdwr_inv \<lparr>rw_lock = rw, rw_thread = st\<rparr> \<Longrightarrow> 0 \<le> ltrw_r_active rw \<and> 0 \<le> ltrw_w_active rw"
  using inv_counters by (fastforce simp: counters_ok_def)

lemma inv_runlock:
  assumes inv: "rdwr_inv \<lparr>rw_lock = rw, rw_thread = st\<rparr>" and t: "st t = Reading"
    and op: "ldap_pvt_thread_rdwr_runlock rw = Some (wk, rw')" and wk: "woken wk (st(t := Idle)) st'"
  shows "rdwr_inv \<lparr>rw_lock = rw', rw_thread = st'\<rparr>"
proof -
  let ?s = "st(t := Idle)"
  have i: "finitely_busy st" "ltrw_r_active rw = threads_in st {Reading}" "ltrw_w_active rw = threads_in st {Writing}"
    "ltrw_w_wait rw = threads_in st {WriteParked, WriteAwake}" "ltrw_r_wait rw = threads_in st {ReadParked, ReadAwake}"
    using inv by (simp_all add: inv_sys)
  have fb: "finitely_busy ?s" using i(1) by (rule finitely_busy_upd)
  note c = woken_threads [OF wk fb]
  have "0 < ltrw_r_active rw" using threads_in_pos(1) [OF i(1), of "{Reading}"] t i(2) by auto
  then have w0: "ltrw_w_active rw = 0" and np: "\<forall>u. st u \<noteq> ReadParked" using inv by (auto simp: inv_sys)
  have rw': "rw' = rw\<lparr>ltrw_r_active := ltrw_r_active rw - 1\<rparr>"
    and wk': "wk = (if ltrw_r_active rw = 1 \<and> 0 < ltrw_w_wait rw then SignalWrite else WakeNone)"
    using op by (auto simp: rdwr_ops Let_def split: if_splits)
  have np': "\<forall>u. st' u \<noteq> ReadParked"
    using wk np unfolding wk' by (auto split: if_splits elim!: woken.cases)
  have "\<exists>u. st' u \<in> {ReadAwake, WriteAwake}" if "ltrw_r_active rw = 1" "st' u = WriteParked" for u
  proof -
    have "0 < threads_in st' {WriteParked, WriteAwake}" using threads_in_pos(1) [OF c(1), of "{WriteParked, WriteAwake}"] that(2) by auto
    then have pos: "0 < threads_in ?s {WriteParked, WriteAwake}" by (simp add: c)
    then have "0 < ltrw_w_wait rw" using t i by (simp add: threads_in_upd)
    then have "woken SignalWrite ?s st'" using wk wk' that(1) by simp
    moreover have "\<exists>t. ?s t \<in> {WriteParked, WriteAwake}" using pos threads_in_pos(1) [OF fb, of "{WriteParked, WriteAwake}"] by simp
    ultimately show ?thesis using woken_writer_one(1) by blast
  qed
  then show ?thesis using i t w0 np' inv c unfolding inv_sys rw' by (auto simp: threads_in_upd)
qed

lemma inv_wunlock:
  assumes inv: "rdwr_inv \<lparr>rw_lock = rw, rw_thread = st\<rparr>" and t: "st t = Writing"
    and op: "ldap_pvt_thread_rdwr_wunlock rw = Some (wk, rw')" and wk: "woken wk (st(t := Idle)) st'"
  shows "rdwr_inv \<lparr>rw_lock = rw', rw_thread = st'\<rparr>"
proof -
  let ?s = "st(t := Idle)"
  have i: "finitely_busy st" "ltrw_r_active rw = threads_in st {Reading}" "ltrw_w_active rw = threads_in st {Writing}"
    "ltrw_w_wait rw = threads_in st {WriteParked, WriteAwake}" "ltrw_r_wait rw = threads_in st {ReadParked, ReadAwake}"
    using inv by (simp_all add: inv_sys)
  have fb: "finitely_busy ?s" using i(1) by (rule finitely_busy_upd)
  note c = woken_threads [OF wk fb]
  have "0 < ltrw_w_active rw" using threads_in_pos(1) [OF i(1), of "{Writing}"] t i(3) by auto
  then have w1: "ltrw_w_active rw = 1" "ltrw_r_active rw = 0" using inv by (auto simp: inv_sys)
  have rw': "rw' = rw\<lparr>ltrw_w_active := ltrw_w_active rw - 1\<rparr>"
    and wk': "wk = (if 0 < ltrw_r_wait rw then BroadcastRead else if 0 < ltrw_w_wait rw then SignalWrite else WakeNone)"
    using op by (auto simp: rdwr_ops Let_def split: if_splits)
  have r: "threads_in st' {ReadParked, ReadAwake} = ltrw_r_wait rw" "threads_in st' {WriteParked, WriteAwake} = ltrw_w_wait rw"
    using c t i by (simp_all add: threads_in_upd)
  note p = threads_in_pos(1) [OF c(1), of "{ReadParked, ReadAwake}"] threads_in_pos(1) [OF c(1), of "{WriteParked, WriteAwake}"]
  have np': "st' u \<noteq> ReadParked" for u
    using woken_readers_all [of ?s st' u] wk p(1) unfolding wk' r by (auto split: if_splits)
  have "\<exists>u. st' u \<in> {ReadAwake, WriteAwake}" if "st' u = WriteParked" for u
  proof (cases "0 < ltrw_r_wait rw")
    case True
    then show ?thesis using p(1) np' unfolding r by auto
  next
    case False
    have "0 < ltrw_w_wait rw" using p(2) that unfolding r by auto
    then have s: "woken SignalWrite ?s st'" and "\<exists>t. ?s t \<in> {WriteParked, WriteAwake}"
      using wk wk' False threads_in_pos(1) [OF fb, of "{WriteParked, WriteAwake}"] c(5) r(2) by auto
    then show ?thesis using woken_writer_one(1) [OF s] by blast
  qed
  then show ?thesis using i t w1 np' inv c unfolding inv_sys rw' by (auto simp: threads_in_upd)
qed

lemma inv_step: "rdwr_step s s' \<Longrightarrow> rdwr_inv s \<Longrightarrow> rdwr_inv s'"
proof (induction rule: rdwr_step.induct)
  case (rlock st t rw r rw')
  show ?case
  proof (cases "0 < ltrw_w_active rw")
    case True
    then have "r = Waits" "rw' = rw\<lparr>ltrw_r_wait := ltrw_r_wait rw + 1\<rparr>" using rlock(2) by (auto simp: rdwr_ops split: if_splits)
    then show ?thesis using rlock(1,3) True by (simp add: inv_sys after_def threads_in_upd finitely_busy_upd)
  next
    case False
    then have "r = Returns 0" "rw' = rw\<lparr>ltrw_r_active := ltrw_r_active rw + 1\<rparr>" using rlock(2) by (auto simp: rdwr_ops split: if_splits)
    then show ?thesis using rlock(1,3) False inv_nonneg [OF rlock(3)] by (simp add: inv_sys after_def threads_in_upd finitely_busy_upd)
  qed
next
  case (rresume st t rw r rw')
  then show ?case using inv_nonneg [OF rresume(3)]
    by (auto simp: inv_sys rdwr_ops Let_def after_def threads_in_upd finitely_busy_upd split: if_splits)
next
  case (rtrylock st t rw rc rw')
  then show ?case using inv_nonneg [OF rtrylock(3)]
    by (auto simp: inv_sys rdwr_ops LDAP_PVT_THREAD_EBUSY_def threads_in_upd finitely_busy_upd split: if_splits)
next
  case (runlock st t rw wk rw' st')
  then show ?case by (blast intro: inv_runlock)
next
  case (wlock st t rw r rw')
  then show ?case using inv_nonneg [OF wlock(3)]
    by (auto simp: inv_sys rdwr_ops after_def threads_in_upd finitely_busy_upd split: if_splits)
next
  case (wresume st t rw r rw')
  then show ?case using inv_nonneg [OF wresume(3)]
    by (auto simp: inv_sys rdwr_ops Let_def after_def threads_in_upd finitely_busy_upd split: if_splits)
next
  case (wtrylock st t rw rc rw')
  then show ?case using inv_nonneg [OF wtrylock(3)]
    by (auto simp: inv_sys rdwr_ops LDAP_PVT_THREAD_EBUSY_def threads_in_upd finitely_busy_upd split: if_splits)
next
  case (wunlock st t rw wk rw' st')
  then show ?case by (blast intro: inv_wunlock)
next
  case (spurious_read st t rw)
  then show ?case by (auto simp: inv_sys threads_in_upd finitely_busy_upd)
next
  case (spurious_write st t rw)
  then show ?case by (auto simp: inv_sys threads_in_upd finitely_busy_upd)
qed

lemma reachable_inv: "rdwr_reachable s \<Longrightarrow> rdwr_inv s"
proof (induction rule: rdwr_reachable.induct)
  case (reach_start s)
  then have "rw_thread s = (\<lambda>_. Idle)" "rw_lock s = the (snd (ldap_pvt_thread_rdwr_init True))" by (auto simp: rdwr_start_def)
  then show ?case by (simp add: ldap_pvt_thread_rdwr_init_def rdwr_inv_def Let_def finitely_busy_def threads_in_def)
qed (rule inv_step)

lemma reachable_few: "rdwr_reachable s \<Longrightarrow> few_threads (rw_thread s)"
  by (induction rule: rdwr_reachable.induct) (simp_all add: few_threads_def rdwr_start_def)

text \<open>The counters count the threads and fit in a C integer.\<close>

lemma inv_counts:
  assumes "rdwr_inv s" and "few_threads (rw_thread s)"
  shows "ltrw_r_active (rw_lock s) = threads_in (rw_thread s) {Reading}"
    and "ltrw_w_active (rw_lock s) = threads_in (rw_thread s) {Writing}"
    and "ltrw_r_wait (rw_lock s) = threads_in (rw_thread s) {ReadParked, ReadAwake}"
    and "ltrw_w_wait (rw_lock s) = threads_in (rw_thread s) {WriteParked, WriteAwake}"
    and "Idle \<notin> S \<Longrightarrow> c_int (threads_in (rw_thread s) S) \<noteq> None"
proof -
  show "ltrw_r_active (rw_lock s) = threads_in (rw_thread s) {Reading}"
    "ltrw_w_active (rw_lock s) = threads_in (rw_thread s) {Writing}"
    "ltrw_r_wait (rw_lock s) = threads_in (rw_thread s) {ReadParked, ReadAwake}"
    "ltrw_w_wait (rw_lock s) = threads_in (rw_thread s) {WriteParked, WriteAwake}"
    using assms(1) by (simp_all add: rdwr_inv_def Let_def)
  assume "Idle \<notin> S"
  moreover have "finite {t. rw_thread s t \<noteq> Idle}" using assms(1) by (simp add: rdwr_inv_def Let_def finitely_busy_def)
  ultimately have "card {t. rw_thread s t \<in> S} \<le> card {t. rw_thread s t \<noteq> Idle}" by (intro card_mono) auto
  then show "c_int (threads_in (rw_thread s) S) \<noteq> None"
    using assms(2) by (simp add: threads_in_def c_int_def few_threads_def)
qed

lemma few_threads_below: "(\<And>t. st t \<noteq> Idle \<Longrightarrow> t < n) \<Longrightarrow> n < 2 ^ 31 \<Longrightarrow> few_threads st"
  using card_mono [of "{..<n}" "{t. st t \<noteq> Idle}"] by (simp add: few_threads_def subset_iff)

lemma inv_active:
  assumes "rdwr_inv s"
  shows "0 < ltrw_r_active (rw_lock s) \<longleftrightarrow> (\<exists>t. rw_thread s t = Reading)"
    and "0 < ltrw_w_active (rw_lock s) \<longleftrightarrow> (\<exists>t. rw_thread s t = Writing)"
    and "0 < ltrw_r_wait (rw_lock s) \<longleftrightarrow> (\<exists>t. rw_thread s t \<in> {ReadParked, ReadAwake})"
    and "0 < ltrw_w_wait (rw_lock s) \<longleftrightarrow> (\<exists>t. rw_thread s t \<in> {WriteParked, WriteAwake})"
  using assms threads_in_pos(1) [of "rw_thread s" "{Reading}"] threads_in_pos(1) [of "rw_thread s" "{Writing}"]
    threads_in_pos(1) [of "rw_thread s" "{ReadParked, ReadAwake}"] threads_in_pos(1) [of "rw_thread s" "{WriteParked, WriteAwake}"]
  by (simp_all add: rdwr_inv_def Let_def)

lemma inv_one_writer:
  assumes "rdwr_inv s" and "rw_thread s t = Writing" and "rw_thread s u \<in> {Reading, Writing}"
  shows "u = t"
proof -
  have "0 < ltrw_w_active (rw_lock s)" using inv_active(2) [OF assms(1)] assms(2) by blast
  then have a: "ltrw_w_active (rw_lock s) = 1" "ltrw_r_active (rw_lock s) = 0" using assms(1) by (auto simp: rdwr_inv_def Let_def)
  then have u: "rw_thread s u = Writing" using inv_active(1) [OF assms(1)] assms(3) by auto
  have "card {v. rw_thread s v \<in> {Writing}} = 1"
    using a(1) assms(1) by (auto simp: rdwr_inv_def Let_def threads_in_def)
  then obtain w where "{v. rw_thread s v \<in> {Writing}} = {w}" by (rule card_1_singletonE)
  then show ?thesis using u assms(2) by (metis (mono_tags) mem_Collect_eq singletonI singletonD)
qed

lemma inv_no_assertion:
  assumes "rdwr_inv s"
  shows "ldap_pvt_thread_rdwr_rlock (rw_lock s) \<noteq> None" "ldap_pvt_thread_rdwr_rtrylock (rw_lock s) \<noteq> None"
    "ldap_pvt_thread_rdwr_wlock (rw_lock s) \<noteq> None" "ldap_pvt_thread_rdwr_wtrylock (rw_lock s) \<noteq> None"
    "rw_thread s t = Reading \<Longrightarrow> ldap_pvt_thread_rdwr_runlock (rw_lock s) \<noteq> None"
    "rw_thread s t = Writing \<Longrightarrow> ldap_pvt_thread_rdwr_wunlock (rw_lock s) \<noteq> None"
    "rw_thread s t = ReadAwake \<Longrightarrow> rlock_resume (rw_lock s) \<noteq> None"
    "rw_thread s t = WriteAwake \<Longrightarrow> wlock_resume (rw_lock s) \<noteq> None"
proof -
  have v: "ltrw_valid (rw_lock s) = LDAP_PVT_THREAD_RDWR_VALID" using assms by (simp add: rdwr_inv_def Let_def)
  note c = inv_counters [OF assms] and a = inv_active [OF assms]
  show "ldap_pvt_thread_rdwr_rlock (rw_lock s) \<noteq> None" "ldap_pvt_thread_rdwr_rtrylock (rw_lock s) \<noteq> None"
    "ldap_pvt_thread_rdwr_wlock (rw_lock s) \<noteq> None" "ldap_pvt_thread_rdwr_wtrylock (rw_lock s) \<noteq> None"
    using v c by (simp_all add: rdwr_ops)
  have "rw_thread s t = Reading \<Longrightarrow> 0 < ltrw_r_active (rw_lock s)" "rw_thread s t = Writing \<Longrightarrow> 0 < ltrw_w_active (rw_lock s)"
    "rw_thread s t = ReadAwake \<Longrightarrow> 0 < ltrw_r_wait (rw_lock s)" "rw_thread s t = WriteAwake \<Longrightarrow> 0 < ltrw_w_wait (rw_lock s)"
    using a by auto
  then show "rw_thread s t = Reading \<Longrightarrow> ldap_pvt_thread_rdwr_runlock (rw_lock s) \<noteq> None"
    "rw_thread s t = Writing \<Longrightarrow> ldap_pvt_thread_rdwr_wunlock (rw_lock s) \<noteq> None"
    "rw_thread s t = ReadAwake \<Longrightarrow> rlock_resume (rw_lock s) \<noteq> None"
    "rw_thread s t = WriteAwake \<Longrightarrow> wlock_resume (rw_lock s) \<noteq> None"
    using v c by (simp_all add: rdwr_ops Let_def counters_ok_def)
qed

lemma inv_progress:
  assumes "rdwr_inv s" and free: "\<forall>u. rw_thread s u \<notin> {Reading, Writing}" and t: "rw_thread s t \<noteq> Idle"
  shows "\<exists>u. rw_thread s u \<in> {ReadAwake, WriteAwake}"
    and "rw_thread s u = ReadAwake \<Longrightarrow> \<exists>rw. rlock_resume (rw_lock s) = Some (Returns 0, rw)"
    and "rw_thread s u = WriteAwake \<Longrightarrow> \<exists>rw. wlock_resume (rw_lock s) = Some (Returns 0, rw)"
proof -
  note a = inv_active [OF assms(1)] and c = inv_counters [OF assms(1)]
  have f: "ltrw_w_active (rw_lock s) = 0" "ltrw_r_active (rw_lock s) = 0"
    using a(1,2) free c by (auto simp: counters_ok_def)
  then have np: "rw_thread s t \<noteq> ReadParked" and wp: "rw_thread s t = WriteParked \<Longrightarrow> \<exists>u. rw_thread s u \<in> {ReadAwake, WriteAwake}"
    using assms(1) by (auto simp: rdwr_inv_def Let_def)
  show "\<exists>u. rw_thread s u \<in> {ReadAwake, WriteAwake}"
    using free t np wp by (cases "rw_thread s t") auto
  have "rw_thread s u = ReadAwake \<Longrightarrow> 0 < ltrw_r_wait (rw_lock s)" "rw_thread s u = WriteAwake \<Longrightarrow> 0 < ltrw_w_wait (rw_lock s)"
    using a by auto
  then show "rw_thread s u = ReadAwake \<Longrightarrow> \<exists>rw. rlock_resume (rw_lock s) = Some (Returns 0, rw)"
    "rw_thread s u = WriteAwake \<Longrightarrow> \<exists>rw. wlock_resume (rw_lock s) = Some (Returns 0, rw)"
    using f by (simp_all add: rdwr_ops Let_def)
qed

lemma inv_destroy:
  assumes "rdwr_inv s"
  shows "ldap_pvt_thread_rdwr_destroy (rw_lock s)
    = Some (if \<exists>u. rw_thread s u \<noteq> Idle then (LDAP_PVT_THREAD_EBUSY, False) else (0, True))"
proof -
  have v: "ltrw_valid (rw_lock s) = LDAP_PVT_THREAD_RDWR_VALID" using assms by (simp add: rdwr_inv_def Let_def)
  have "(\<exists>u. rw_thread s u \<noteq> Idle) \<longleftrightarrow> (\<exists>u. rw_thread s u = Reading) \<or> (\<exists>u. rw_thread s u = Writing)
      \<or> (\<exists>u. rw_thread s u \<in> {ReadParked, ReadAwake}) \<or> (\<exists>u. rw_thread s u \<in> {WriteParked, WriteAwake})"
  proof -
    have "rw_thread s u \<noteq> Idle \<longleftrightarrow> rw_thread s u = Reading \<or> rw_thread s u = Writing
        \<or> rw_thread s u \<in> {ReadParked, ReadAwake} \<or> rw_thread s u \<in> {WriteParked, WriteAwake}" for u
      by (cases "rw_thread s u") auto
    then show ?thesis by blast
  qed
  then show ?thesis using v inv_counters [OF assms] unfolding inv_active [OF assms, symmetric] by (simp add: rdwr_ops)
qed

section \<open>Properties\<close>

text \<open>
  C12: the reader/writer lock, in every state that fewer than \<open>2 ^ 31\<close> threads at a time can reach in any order of their steps,
  spurious wake-ups included.  The four counters are the numbers of threads that read, write, wait to read and wait to write, and fit
  in a C integer.  A writer excludes everybody else.  No assertion of the code fails, whichever operation a thread that may
  call it calls next.  No wake-up is lost: when nobody holds the lock but some thread waits, then some waiting
  thread has been woken, and each woken thread gets the lock when it runs.  And the lock can be destroyed only when no thread uses it.
\<close>

theorem rdwr_lock_correct:
  assumes "rdwr_reachable s"
  shows "(ltrw_r_active (rw_lock s) = threads_in (rw_thread s) {Reading}
        \<and> ltrw_w_active (rw_lock s) = threads_in (rw_thread s) {Writing}
        \<and> ltrw_r_wait (rw_lock s) = threads_in (rw_thread s) {ReadParked, ReadAwake}
        \<and> ltrw_w_wait (rw_lock s) = threads_in (rw_thread s) {WriteParked, WriteAwake})
     \<and> (c_int (ltrw_r_active (rw_lock s)) \<noteq> None \<and> c_int (ltrw_w_active (rw_lock s)) \<noteq> None
        \<and> c_int (ltrw_r_wait (rw_lock s)) \<noteq> None \<and> c_int (ltrw_w_wait (rw_lock s)) \<noteq> None)
     \<and> (rw_thread s t = Writing \<longrightarrow> rw_thread s u \<in> {Reading, Writing} \<longrightarrow> u = t)
     \<and> (ldap_pvt_thread_rdwr_rlock (rw_lock s) \<noteq> None \<and> ldap_pvt_thread_rdwr_rtrylock (rw_lock s) \<noteq> None
        \<and> ldap_pvt_thread_rdwr_wlock (rw_lock s) \<noteq> None \<and> ldap_pvt_thread_rdwr_wtrylock (rw_lock s) \<noteq> None
        \<and> (rw_thread s t = Reading \<longrightarrow> ldap_pvt_thread_rdwr_runlock (rw_lock s) \<noteq> None)
        \<and> (rw_thread s t = Writing \<longrightarrow> ldap_pvt_thread_rdwr_wunlock (rw_lock s) \<noteq> None)
        \<and> (rw_thread s t = ReadAwake \<longrightarrow> rlock_resume (rw_lock s) \<noteq> None)
        \<and> (rw_thread s t = WriteAwake \<longrightarrow> wlock_resume (rw_lock s) \<noteq> None))
     \<and> ((\<forall>u. rw_thread s u \<notin> {Reading, Writing}) \<longrightarrow> rw_thread s t \<noteq> Idle \<longrightarrow>
          (\<exists>u. rw_thread s u \<in> {ReadAwake, WriteAwake})
          \<and> (\<forall>u. rw_thread s u = ReadAwake \<longrightarrow> (\<exists>rw. rlock_resume (rw_lock s) = Some (Returns 0, rw)))
          \<and> (\<forall>u. rw_thread s u = WriteAwake \<longrightarrow> (\<exists>rw. wlock_resume (rw_lock s) = Some (Returns 0, rw))))
     \<and> ldap_pvt_thread_rdwr_destroy (rw_lock s)
          = Some (if \<exists>u. rw_thread s u \<noteq> Idle then (LDAP_PVT_THREAD_EBUSY, False) else (0, True))"
proof -
  note inv = reachable_inv [OF assms]
  note counts = inv_counts [OF inv reachable_few [OF assms]]
  show ?thesis unfolding counts(1-4)
  proof (intro conjI impI allI)
    show "rw_thread s t = Writing \<Longrightarrow> rw_thread s u \<in> {Reading, Writing} \<Longrightarrow> u = t" by (rule inv_one_writer [OF inv])
    show "\<exists>u. rw_thread s u \<in> {ReadAwake, WriteAwake}"
      if "\<forall>u. rw_thread s u \<notin> {Reading, Writing}" "rw_thread s t \<noteq> Idle" by (rule inv_progress(1) [OF inv that])
    show "c_int (threads_in (rw_thread s) {Reading}) \<noteq> None" "c_int (threads_in (rw_thread s) {Writing}) \<noteq> None"
      "c_int (threads_in (rw_thread s) {ReadParked, ReadAwake}) \<noteq> None"
      "c_int (threads_in (rw_thread s) {WriteParked, WriteAwake}) \<noteq> None" by (rule counts(5), simp)+
  qed (use inv_no_assertion [OF inv] inv_progress(2,3) [OF inv] inv_destroy [OF inv] in \<open>blast+\<close>)
qed

text \<open>A writer has the lock, a second one waits; the first one leaves.\<close>

theorem rdwr_lock_correct_witness:
  "\<exists>s. rdwr_reachable s \<and> rw_thread s 1 = WriteAwake \<and> (\<forall>u. rw_thread s u \<notin> {Reading, Writing})
     \<and> (\<exists>rw. wlock_resume (rw_lock s) = Some (Returns 0, rw))"
proof -
  let ?rw = "\<lambda>w n. \<lparr>ltrw_valid = LDAP_PVT_THREAD_RDWR_VALID, ltrw_r_active = 0, ltrw_w_active = w, ltrw_r_wait = 0, ltrw_w_wait = n\<rparr>"
  let ?st = "\<lambda>_ :: nat. Idle"
  let ?s = "\<lparr>rw_lock = ?rw 0 1, rw_thread = (?st(0 := Writing, 1 := WriteParked, 0 := Idle))(1 := WriteAwake)\<rparr>"
  have few: "few_threads (?st(0 := x, Suc 0 := y))" "few_threads (?st(0 := x))" "few_threads (?st(Suc 0 := y))" for x y
    by (rule few_threads_below [of _ 2]; simp split: if_splits)+
  have "rdwr_reachable \<lparr>rw_lock = ?rw 0 0, rw_thread = ?st\<rparr>"
    by (rule reach_start) (simp add: rdwr_start_def ldap_pvt_thread_rdwr_init_def)
  then have "rdwr_reachable \<lparr>rw_lock = ?rw 1 0, rw_thread = ?st(0 := after WriteParked Writing (Returns 0))\<rparr>"
    by (rule reach_step) (rule wlock, simp_all add: rdwr_ops counters_ok_def few)
  then have "rdwr_reachable \<lparr>rw_lock = ?rw 1 1, rw_thread = (?st(0 := after WriteParked Writing (Returns 0)))(1 := after WriteParked Writing Waits)\<rparr>"
    by (rule reach_step) (rule wlock, simp_all add: rdwr_ops counters_ok_def after_def few)
  then have "rdwr_reachable \<lparr>rw_lock = ?rw 1 1, rw_thread = ?st(0 := Writing, 1 := WriteParked)\<rparr>" by (simp add: after_def)
  then have r: "rdwr_reachable ?s"
    by (rule reach_step) (rule wunlock [of _ 0 _ SignalWrite], simp, simp add: rdwr_ops counters_ok_def, rule woken_writer, simp, simp add: few)
  have "\<exists>rw. wlock_resume (rw_lock ?s) = Some (Returns 0, rw)"
    using rdwr_lock_correct [OF r, of 1 1] by auto
  then show ?thesis using r by (intro exI [of _ ?s]) auto
qed

end
