(* ===== verification/Runqueue.thy ===== *)
theory Runqueue
  imports Ldap_Prelude "HOL-Library.Multiset"
begin

text \<open>
  The run queue of \<^verbatim>\<open>libldap_r/rq.c\<close>: a list of tasks in the order of their next run, and a list of the tasks that run.  A
  task is known by its address; routines and arguments are addresses too.  \<^verbatim>\<open>time(NULL)\<close> is the argument \<open>now\<close>, \<^verbatim>\<open>LDAP_CALLOC\<close>
  gives an address or NULL (\<open>None\<close>).  A failing assertion, unlinking an entry that is not in the list or linking one twice is \<open>None\<close>.
\<close>

section \<open>Operations\<close>

record re_s =
  re_addr :: nat
  re_next_sec :: int
  re_next_usec :: int
  re_interval_sec :: int
  re_interval_usec :: int
  re_routine :: nat
  re_arg :: nat
  re_tname :: "byte list"
  re_tspec :: "byte list"

record runqueue_s =
  task_list :: "re_s list"
  run_list :: "nat list"

definition ldap_pvt_runqueue_insert ::
  "nat option \<Rightarrow> int \<Rightarrow> runqueue_s \<Rightarrow> int \<Rightarrow> nat \<Rightarrow> nat \<Rightarrow> byte list \<Rightarrow> byte list \<Rightarrow> re_s option \<times> runqueue_s" where
  "ldap_pvt_runqueue_insert cell now rq interval routine arg tname tspec =
     (case cell of
        None \<Rightarrow> (None, rq)
      | Some a \<Rightarrow>
          let entry = \<lparr>re_addr = a, re_next_sec = now, re_next_usec = 0, re_interval_sec = interval, re_interval_usec = 0,
                       re_routine = routine, re_arg = arg, re_tname = tname, re_tspec = tspec\<rparr>
          in (Some entry, rq\<lparr>task_list := entry # task_list rq\<rparr>))"

definition ldap_pvt_runqueue_find :: "runqueue_s \<Rightarrow> nat \<Rightarrow> nat \<Rightarrow> re_s option" where
  "ldap_pvt_runqueue_find rq routine arg = find (\<lambda>e. re_routine e = routine \<and> re_arg e = arg) (task_list rq)"

text \<open>\<^verbatim>\<open>LDAP_STAILQ_REMOVE\<close> after the loop that looks for the entry: the entry and the others.\<close>

fun unlink_task :: "nat \<Rightarrow> re_s list \<Rightarrow> (re_s \<times> re_s list) option" where
  "unlink_task a [] = None"
| "unlink_task a (e # es) =
     (if re_addr e = a then Some (e, es)
      else case unlink_task a es of None \<Rightarrow> None | Some (x, es) \<Rightarrow> Some (x, e # es))"

definition ldap_pvt_runqueue_remove :: "runqueue_s \<Rightarrow> nat \<Rightarrow> runqueue_s option" where
  "ldap_pvt_runqueue_remove rq a = map_option (\<lambda>(e, es). rq\<lparr>task_list := es\<rparr>) (unlink_task a (task_list rq))"

definition ldap_pvt_runqueue_next_sched :: "runqueue_s \<Rightarrow> re_s option" where
  "ldap_pvt_runqueue_next_sched rq =
     (case task_list rq of [] \<Rightarrow> None | e # _ \<Rightarrow> if re_next_sec e = 0 then None else Some e)"

text \<open>Linking an entry that is in the list already makes a cycle.\<close>

definition ldap_pvt_runqueue_runtask :: "runqueue_s \<Rightarrow> nat \<Rightarrow> runqueue_s option" where
  "ldap_pvt_runqueue_runtask rq a =
     (if a \<in> set (run_list rq) then None else Some (rq\<lparr>run_list := run_list rq @ [a]\<rparr>))"

definition ldap_pvt_runqueue_stoptask :: "runqueue_s \<Rightarrow> nat \<Rightarrow> runqueue_s option" where
  "ldap_pvt_runqueue_stoptask rq a =
     (if a \<in> set (run_list rq) then Some (rq\<lparr>run_list := remove1 a (run_list rq)\<rparr>) else None)"

definition ldap_pvt_runqueue_isrunning :: "runqueue_s \<Rightarrow> nat \<Rightarrow> int" where
  "ldap_pvt_runqueue_isrunning rq a = (if a \<in> set (run_list rq) then 1 else 0)"

text \<open>The loop that finds the place of an entry: before the first that runs later or has no time set.\<close>

fun resched_place :: "re_s \<Rightarrow> re_s list \<Rightarrow> re_s list" where
  "resched_place entry [] = [entry]"
| "resched_place entry (e # es) =
     (if re_next_sec e = 0 then entry # e # es
      else if re_next_sec e > re_next_sec entry then entry # e # es
      else e # resched_place entry es)"

definition ldap_pvt_runqueue_resched :: "int \<Rightarrow> runqueue_s \<Rightarrow> nat \<Rightarrow> bool \<Rightarrow> runqueue_s option" where
  "ldap_pvt_runqueue_resched now rq a defer =
     (case unlink_task a (task_list rq) of
        None \<Rightarrow> None
      | Some (entry, es) \<Rightarrow>
          let entry = entry\<lparr>re_next_sec := if \<not> defer then now + re_interval_sec entry else 0\<rparr>
          in Some (rq\<lparr>task_list := if es = [] then [entry]
                               else if re_next_sec entry = 0 then es @ [entry] else resched_place entry es\<rparr>))"

definition ldap_pvt_runqueue_persistent_backload :: "runqueue_s \<Rightarrow> int" where
  "ldap_pvt_runqueue_persistent_backload rq = int (length (filter (\<lambda>e. re_next_sec e = 0) (task_list rq)))"

section \<open>The order of the tasks\<close>

text \<open>Tasks in the order of their next run, those without a time last.\<close>

definition runs_before :: "re_s \<Rightarrow> re_s \<Rightarrow> bool" where
  "runs_before x y \<longleftrightarrow> re_next_sec y = 0 \<or> re_next_sec x \<noteq> 0 \<and> re_next_sec x \<le> re_next_sec y"

definition rq_ok :: "runqueue_s \<Rightarrow> bool" where
  "rq_ok rq \<longleftrightarrow> sorted_wrt runs_before (task_list rq) \<and> distinct (map re_addr (task_list rq))"

lemma runs_before_trans: "runs_before x y \<Longrightarrow> runs_before y z \<Longrightarrow> runs_before x z"
  by (auto simp: runs_before_def)

lemma unlink_task_some: "unlink_task a es = Some (e, es') \<Longrightarrow> \<exists>u v. es = u @ e # v \<and> es' = u @ v \<and> re_addr e = a"
proof (induction es arbitrary: es')
  case (Cons x es)
  show ?case
  proof (cases "re_addr x = a")
    case True
    then show ?thesis using Cons.prems by (intro exI [of _ "[]"] exI [of _ es]) simp
  next
    case False
    then obtain es1 where "unlink_task a es = Some (e, es1)" "es' = x # es1"
      using Cons.prems by (auto split: option.splits)
    then obtain u v where "es = u @ e # v" "es1 = u @ v" "re_addr e = a" using Cons.IH by blast
    then show ?thesis using \<open>es' = x # es1\<close> by (intro exI [of _ "x # u"] exI [of _ v]) simp
  qed
qed simp

lemma unlink_task_found: "a \<in> re_addr ` set es \<Longrightarrow> \<exists>e es'. unlink_task a es = Some (e, es')"
  by (induction es) auto

lemma set_place: "set (resched_place x es) = insert x (set es)"
  by (induction es) auto

lemma place_sorted:
  assumes "sorted_wrt runs_before es" and "re_next_sec x \<noteq> 0"
  shows "sorted_wrt runs_before (resched_place x es)"
  using assms(1)
proof (induction es)
  case (Cons e es)
  have e: "\<forall>y\<in>set es. runs_before e y" and s: "sorted_wrt runs_before es" using Cons.prems by auto
  show ?case
  proof (cases "re_next_sec e = 0 \<or> re_next_sec e > re_next_sec x")
    case True
    then have "runs_before x e" using assms(2) by (auto simp: runs_before_def)
    then show ?thesis using True e s runs_before_trans by auto
  next
    case False
    then have "runs_before e x" by (auto simp: runs_before_def)
    then show ?thesis using False e Cons.IH [OF s] by (auto simp: set_place)
  qed
qed simp

lemma place_mset: "mset (resched_place x es) = add_mset x (mset es)"
  by (induction es) auto

text \<open>
  Rescheduling a queued task keeps the order and the tasks, and the next task to run is then one with the earliest time.
\<close>

lemma runqueue_resched_ok:
  assumes ok: "rq_ok rq" and a: "a \<in> re_addr ` set (task_list rq)"
  shows "\<exists>rq'. ldap_pvt_runqueue_resched now rq a defer = Some rq' \<and> rq_ok rq' \<and> run_list rq' = run_list rq
       \<and> re_addr ` set (task_list rq') = re_addr ` set (task_list rq)"
proof -
  obtain e es where un: "unlink_task a (task_list rq) = Some (e, es)" using unlink_task_found [OF a] by blast
  then obtain u v where uv: "task_list rq = u @ e # v" "es = u @ v" "re_addr e = a" using unlink_task_some by blast
  define x where "x = e\<lparr>re_next_sec := if \<not> defer then now + re_interval_sec e else 0\<rparr>"
  define es' where "es' = (if es = [] then [x] else if re_next_sec x = 0 then es @ [x] else resched_place x es)"
  have xa: "re_addr x = re_addr e" by (simp add: x_def)
  have s: "sorted_wrt runs_before es" and d: "distinct (map re_addr (x # es))"
    using ok unfolding rq_ok_def uv(1,2) by (auto simp: sorted_wrt_append xa)
  have m: "mset (map re_addr es') = mset (map re_addr (x # es))" by (simp add: es'_def place_mset)
  have "sorted_wrt runs_before es'"
    using s place_sorted [OF s, of x] by (auto simp: es'_def sorted_wrt_append runs_before_def)
  moreover have "distinct (map re_addr es')" using d m mset_eq_imp_distinct_iff by blast
  moreover have "re_addr ` set es' = re_addr ` set (task_list rq)"
    using mset_eq_setD [OF m] by (auto simp: uv xa)
  moreover have "ldap_pvt_runqueue_resched now rq a defer = Some (rq\<lparr>task_list := es'\<rparr>)"
    using un by (simp add: ldap_pvt_runqueue_resched_def es'_def x_def Let_def)
  ultimately show ?thesis by (auto simp: rq_ok_def)
qed

lemma runqueue_next_earliest:
  assumes "rq_ok rq"
  shows "case ldap_pvt_runqueue_next_sched rq of
           Some e \<Rightarrow> e \<in> set (task_list rq) \<and> (\<forall>y\<in>set (task_list rq). re_next_sec y = 0 \<or> re_next_sec e \<le> re_next_sec y)
         | None \<Rightarrow> \<forall>y\<in>set (task_list rq). re_next_sec y = 0"
  using assms by (cases "task_list rq") (auto simp: ldap_pvt_runqueue_next_sched_def rq_ok_def runs_before_def)

lemma runqueue_insert_ok:
  assumes "rq_ok rq" and "0 < now" and "\<forall>y\<in>set (task_list rq). re_next_sec y = 0 \<or> now \<le> re_next_sec y"
    and "a \<notin> re_addr ` set (task_list rq)"
  shows "rq_ok (snd (ldap_pvt_runqueue_insert (Some a) now rq interval routine arg tname tspec))"
  using assms by (auto simp: ldap_pvt_runqueue_insert_def rq_ok_def runs_before_def Let_def)

lemma runqueue_remove_ok:
  assumes "rq_ok rq" and "a \<in> re_addr ` set (task_list rq)"
  shows "\<exists>rq'. ldap_pvt_runqueue_remove rq a = Some rq' \<and> rq_ok rq' \<and> re_addr ` set (task_list rq') = re_addr ` set (task_list rq) - {a}"
proof -
  obtain e es where un: "unlink_task a (task_list rq) = Some (e, es)" using unlink_task_found [OF assms(2)] by blast
  then obtain u v where uv: "task_list rq = u @ e # v" "es = u @ v" "re_addr e = a" using unlink_task_some by blast
  have "rq_ok (rq\<lparr>task_list := es\<rparr>)" using assms(1) uv(1,2) by (auto simp: rq_ok_def sorted_wrt_append)
  moreover have "re_addr ` set es = re_addr ` set (task_list rq) - {a}"
    using assms(1) uv by (auto simp: rq_ok_def, (metis image_eqI)+)
  ultimately show ?thesis using un by (simp add: ldap_pvt_runqueue_remove_def)
qed

text \<open>Starting and stopping a task undo each other, and only they change what runs.\<close>

lemma runqueue_run_stop:
  assumes "ldap_pvt_runqueue_isrunning rq a = 0"
  shows "\<exists>rq'. ldap_pvt_runqueue_runtask rq a = Some rq' \<and> ldap_pvt_runqueue_isrunning rq' a = 1
       \<and> (\<forall>b. b \<noteq> a \<longrightarrow> ldap_pvt_runqueue_isrunning rq' b = ldap_pvt_runqueue_isrunning rq b)
       \<and> ldap_pvt_runqueue_stoptask rq' a = Some rq"
  using assms by (auto simp: ldap_pvt_runqueue_isrunning_def ldap_pvt_runqueue_runtask_def ldap_pvt_runqueue_stoptask_def
      remove1_append split: if_splits)

end
