(* ===== verification/Lutil_Base64.thy ===== *)
theory Lutil_Base64
  imports C_Strings "HOL-Library.Monad_Syntax"
begin

text \<open>
  Base64 as \<^verbatim>\<open>liblutil/base64.c\<close> writes and reads it.  A buffer is the list of its octets, as many as the size passed with it.
  Lengths are converted to \<^verbatim>\<open>int\<close> when they are returned.  The index \<^verbatim>\<open>tarindex\<close> of \<^verbatim>\<open>lutil_b64_pton\<close> is an \<^verbatim>\<open>int\<close>; it is a
  natural number here, which is the same for targets of less than \<open>2 ^ 31\<close> octets.  A failing assertion is \<open>None\<close>.
\<close>

unbundle bit_operations_syntax

section \<open>The code\<close>

definition Base64 :: "byte list" where
  "Base64 = map of_nat ([65..<91] @ [97..<123] @ [48..<58] @ [43, 47])"

definition Pad64 :: byte where "Pad64 = 61"

text \<open>The four digits of a group of three octets, before they are looked up.\<close>

definition b64_group :: "byte \<Rightarrow> byte \<Rightarrow> byte \<Rightarrow> byte list" where
  "b64_group a b c =
     [drop_bit 2 a, push_bit 4 (a AND 0x03) + drop_bit 4 b, push_bit 2 (b AND 0x0f) + drop_bit 6 c, c AND 0x3f]"

abbreviation (input) b64_char :: "byte \<Rightarrow> byte" where
  "b64_char d \<equiv> Base64 ! unat d"

text \<open>What follows the loop of \<^verbatim>\<open>lutil_b64_ntop\<close>: the last group with its padding, and the terminating 0.\<close>

definition b64_ntop_end :: "byte list \<Rightarrow> nat \<Rightarrow> int \<times> byte list" where
  "b64_ntop_end target datalength =
     (if datalength \<ge> length target then (-1, target) else (c_to_int (int datalength), target[datalength := 0]))"

definition b64_ntop_tail :: "byte list \<Rightarrow> byte list \<Rightarrow> nat \<Rightarrow> (int \<times> byte list) option" where
  "b64_ntop_tail src target datalength =
     (if length src = 0 then Some (b64_ntop_end target datalength)
      else let output = b64_group (src ! 0) (if 1 < length src then src ! 1 else 0) 0
           in if \<not> list_all (\<lambda>d. d < 64) (take 3 output) then None
              else if datalength + 4 > length target then Some (-1, target)
              else Some (b64_ntop_end
                     (memcpy target datalength
                        [b64_char (output ! 0), b64_char (output ! 1),
                         if length src = 1 then Pad64 else b64_char (output ! 2), Pad64])
                     (datalength + 4)))"

fun b64_ntop_loop :: "byte list \<Rightarrow> byte list \<Rightarrow> nat \<Rightarrow> (int \<times> byte list) option" where
  "b64_ntop_loop (a # b # c # src) target datalength =
     (let output = b64_group a b c
      in if \<not> list_all (\<lambda>d. d < 64) output then None
         else if datalength + 4 > length target then Some (-1, target)
         else b64_ntop_loop src (memcpy target datalength (map b64_char output)) (datalength + 4))"
| "b64_ntop_loop src target datalength = b64_ntop_tail src target datalength"

definition lutil_b64_ntop :: "byte list \<Rightarrow> byte list \<Rightarrow> (int \<times> byte list) option" where
  "lutil_b64_ntop src target = b64_ntop_loop src target 0"

text \<open>\<^verbatim>\<open>isascii(ch) && isspace(ch)\<close> in the C locale.\<close>

definition b64_space :: "byte \<Rightarrow> bool" where
  "b64_space ch \<longleftrightarrow> ch = 32 \<or> 9 \<le> ch \<and> ch \<le> 13"

text \<open>\<^verbatim>\<open>strchr(Base64, ch) - Base64\<close>\<close>

definition b64_pos :: "byte \<Rightarrow> byte option" where
  "b64_pos ch = map_option (\<lambda>(before, _). of_nat (length before)) (c_strchr ch Base64)"

text \<open>
  One digit: the new state, index and target, or \<open>None\<close> for the result -1.  A NULL target is \<open>None\<close>.  The state is 0 to 3; the
  \<^verbatim>\<open>default\<close> with \<^verbatim>\<open>abort\<close> is never entered, since every case sets one of these.
\<close>

definition b64_digit ::
  "byte \<Rightarrow> nat \<Rightarrow> nat \<Rightarrow> byte list option \<Rightarrow> (nat \<times> nat \<times> byte list option) option" where
  "b64_digit pos state tarindex target =
     (if state = 0 then
        (case target of
           None \<Rightarrow> Some (1, tarindex, None)
         | Some t \<Rightarrow> if tarindex \<ge> length t then None else Some (1, tarindex, Some (t[tarindex := push_bit 2 pos])))
      else if state = 1 then
        (case target of
           None \<Rightarrow> Some (2, tarindex + 1, None)
         | Some t \<Rightarrow>
             if tarindex + 1 \<ge> length t then None
             else Some (2, tarindex + 1, Some (t[tarindex := t ! tarindex OR drop_bit 4 pos, tarindex + 1 := push_bit 4 (pos AND 0x0f)])))
      else if state = 2 then
        (case target of
           None \<Rightarrow> Some (3, tarindex + 1, None)
         | Some t \<Rightarrow>
             if tarindex + 1 \<ge> length t then None
             else Some (3, tarindex + 1, Some (t[tarindex := t ! tarindex OR drop_bit 2 pos, tarindex + 1 := push_bit 6 (pos AND 0x03)])))
      else
        (case target of
           None \<Rightarrow> Some (0, tarindex + 1, None)
         | Some t \<Rightarrow> if tarindex \<ge> length t then None else Some (0, tarindex + 1, Some (t[tarindex := t ! tarindex OR pos]))))"

text \<open>After a pad character: the rest of the text is \<open>src\<close>.\<close>

definition b64_pad :: "byte list \<Rightarrow> nat \<Rightarrow> nat \<Rightarrow> byte list option \<Rightarrow> int" where
  "b64_pad src state tarindex target =
     (if state = 0 \<or> state = 1 then -1
      else let src = (if state = 2 then dropWhile b64_space src else src)
           in if state = 2 \<and> c_head src \<noteq> Pad64 then -1
              else let src = (if state = 2 then tl src else src)
                   in if \<not> list_all b64_space src then -1
                      else case target of
                             Some t \<Rightarrow> if t ! tarindex \<noteq> 0 then -1 else c_to_int (int tarindex)
                           | None \<Rightarrow> c_to_int (int tarindex))"

fun b64_pton_loop :: "byte list \<Rightarrow> nat \<Rightarrow> nat \<Rightarrow> byte list option \<Rightarrow> int \<times> byte list option" where
  "b64_pton_loop [] state tarindex target = (if state \<noteq> 0 then -1 else c_to_int (int tarindex), target)"
| "b64_pton_loop (ch # src) state tarindex target =
     (if b64_space ch then b64_pton_loop src state tarindex target
      else if ch = Pad64 then (b64_pad src state tarindex target, target)
      else case b64_pos ch of
             None \<Rightarrow> (-1, target)
           | Some pos \<Rightarrow>
               (case b64_digit pos state tarindex target of
                  None \<Rightarrow> (-1, target)
                | Some (state, tarindex, target) \<Rightarrow> b64_pton_loop src state tarindex target))"

definition lutil_b64_pton :: "byte list \<Rightarrow> byte list option \<Rightarrow> int \<times> byte list option" where
  "lutil_b64_pton src target = b64_pton_loop src 0 0 target"

section \<open>Digits\<close>

lemma Base64_facts: "length Base64 = 64" "distinct Base64" "Pad64 \<notin> set Base64" "0 \<notin> set Base64"
  "list_all (\<lambda>ch. \<not> b64_space ch) Base64"
  by code_simp+

lemma c_strchr_Some: "c_strchr ch s = Some (a, b) \<Longrightarrow> s = a @ ch # b \<and> ch \<notin> set a"
  by (induction s arbitrary: a b) (auto split: if_splits option.splits)

lemma b64_pos_char:
  assumes "d < 64"
  shows "b64_pos (b64_char d) = Some d"
proof -
  have d: "unat d < 64" using assms by (simp add: word_less_nat_alt)
  have s: "Base64 = take (unat d) Base64 @ b64_char d # drop (Suc (unat d)) Base64"
    using d Base64_facts(1) by (simp add: id_take_nth_drop)
  moreover have "b64_char d \<notin> set (take (unat d) Base64)"
    using arg_cong [OF s, of distinct] Base64_facts(2) by auto
  ultimately have "c_strchr (b64_char d) Base64 = Some (take (unat d) Base64, drop (Suc (unat d)) Base64)"
    using c_strchr_found by metis
  then show ?thesis using d Base64_facts(1) by (simp add: b64_pos_def min_def)
qed

lemma b64_pos_Some:
  assumes "b64_pos ch = Some d"
  shows "d < 64 \<and> ch = b64_char d"
proof -
  obtain a b where s: "c_strchr ch Base64 = Some (a, b)" "d = of_nat (length a)" using assms by (auto simp: b64_pos_def)
  then have B: "Base64 = a @ ch # b" using c_strchr_Some by blast
  have l: "length a < 64" using Base64_facts(1) arg_cong [OF B, of length] by simp
  then have u: "unat d = length a" using s(2) by (simp add: unat_of_nat)
  then show ?thesis using l arg_cong [OF B, of "\<lambda>s. s ! length a"] by (simp add: word_less_nat_alt)
qed

lemma b64_char_plain:
  assumes "d < 64"
  shows "\<not> b64_space (b64_char d)" and "b64_char d \<noteq> Pad64"
proof -
  have "b64_char d \<in> set Base64" using assms Base64_facts(1) by (simp add: word_less_nat_alt)
  then show "\<not> b64_space (b64_char d)" "b64_char d \<noteq> Pad64" using Base64_facts(3,5) by (auto simp: list_all_iff)
qed

lemma b64_char_inj: "c < 64 \<Longrightarrow> d < 64 \<Longrightarrow> b64_char c = b64_char d \<longleftrightarrow> c = d"
  using b64_pos_char by (metis option.inject)

text \<open>The three octets that four digits make up.\<close>

definition b64_join :: "byte \<Rightarrow> byte \<Rightarrow> byte \<Rightarrow> byte \<Rightarrow> byte list" where
  "b64_join p q r s =
     [push_bit 2 p OR drop_bit 4 q, push_bit 4 (q AND 0x0f) OR drop_bit 2 r, push_bit 6 (r AND 0x03) OR s]"

lemma mask_numerals: "(0x03 :: byte) = mask 2" "(0x0f :: byte) = mask 4" "(0x3f :: byte) = mask 6"
  by (simp_all add: mask_eq_exp_minus_1)

text \<open>Bit by bit.\<close>

lemma byte_bit_high [simp]: "8 \<le> n \<Longrightarrow> \<not> bit (x :: byte) n"
  using bit_imp_le_length [of x n] by auto

lemma byte_eq_iff:
  "(x :: byte) = y \<longleftrightarrow>
     (bit x 0 \<longleftrightarrow> bit y 0) \<and> (bit x 1 \<longleftrightarrow> bit y 1) \<and> (bit x 2 \<longleftrightarrow> bit y 2) \<and> (bit x 3 \<longleftrightarrow> bit y 3)
     \<and> (bit x 4 \<longleftrightarrow> bit y 4) \<and> (bit x 5 \<longleftrightarrow> bit y 5) \<and> (bit x 6 \<longleftrightarrow> bit y 6) \<and> (bit x 7 \<longleftrightarrow> bit y 7)"
  (is "_ \<longleftrightarrow> ?bits")
proof
  assume b: ?bits
  have "bit x n \<longleftrightarrow> bit y n" if "n < 8" for n
  proof -
    have "n = 0 \<or> n = 1 \<or> n = 2 \<or> n = 3 \<or> n = 4 \<or> n = 5 \<or> n = 6 \<or> n = 7" using that by linarith
    then show ?thesis using b by (elim disjE) simp_all
  qed
  then show "x = y" by (intro bit_word_eqI) simp
qed simp

lemma less_64_bits:
  assumes "d < (64 :: byte)"
  shows "\<not> bit d 6" and "\<not> bit d 7"
proof -
  have "d AND mask 6 = d" using assms by (intro less_mask_eq) simp
  moreover have "\<not> bit (d AND mask 6) 6" "\<not> bit (d AND mask 6) 7" by (simp_all add: bit_simps)
  ultimately show "\<not> bit d 6" "\<not> bit d 7" by simp_all
qed

lemmas bitwise = byte_eq_iff bit_simps

lemma b64_group_or:
  "b64_group a b c =
     [drop_bit 2 a, push_bit 4 (a AND 0x03) OR drop_bit 4 b, push_bit 2 (b AND 0x0f) OR drop_bit 6 c, c AND 0x3f]"
proof -
  have "push_bit 4 (a AND 0x03) + drop_bit 4 b = push_bit 4 (a AND 0x03) OR drop_bit 4 b"
    unfolding mask_numerals by (rule disjunctive_add_eq_or) (simp add: bitwise)
  moreover have "push_bit 2 (b AND 0x0f) + drop_bit 6 c = push_bit 2 (b AND 0x0f) OR drop_bit 6 c"
    unfolding mask_numerals by (rule disjunctive_add_eq_or) (simp add: bitwise)
  ultimately show ?thesis by (simp add: b64_group_def)
qed

lemma b64_join_group: "b64_group a b c = [p, q, r, s] \<Longrightarrow> b64_join p q r s = [a, b, c]"
  unfolding b64_group_or b64_join_def mask_numerals by (auto simp: bitwise)

lemma b64_group_join:
  assumes "p < 64" "q < 64" "r < 64" "s < 64" and "b64_join p q r s = [a, b, c]"
  shows "b64_group a b c = [p, q, r, s]"
  using assms(5) less_64_bits [OF assms(1)] less_64_bits [OF assms(2)] less_64_bits [OF assms(3)] less_64_bits [OF assms(4)]
  unfolding b64_group_or b64_join_def mask_numerals by (auto simp: bitwise)

section \<open>The encoding\<close>

text \<open>
  What the encoding is: three octets are a number of 24 bits, whose four digits to the base 64 are looked up in the alphabet; a
  last group of one or two octets is filled up with zeros, and the digits without data become pad characters.
\<close>

definition sextets :: "nat \<Rightarrow> nat list" where
  "sextets n = [n div 64 ^ 3, n div 64 ^ 2 mod 64, n div 64 mod 64, n mod 64]"

fun b64_encode :: "byte list \<Rightarrow> byte list" where
  "b64_encode (a # b # c # bs) = map ((!) Base64) (sextets (be_val [a, b, c])) @ b64_encode bs"
| "b64_encode [a, b] = map ((!) Base64) (take 3 (sextets (be_val [a, b, 0]))) @ [Pad64]"
| "b64_encode [a] = map ((!) Base64) (take 2 (sextets (be_val [a, 0, 0]))) @ [Pad64, Pad64]"
| "b64_encode [] = []"

lemma sextets_of:
  assumes "q < 64" "r < 64" "s < 64"
  shows "sextets (((p * 64 + q) * 64 + r) * 64 + s) = [p, q, r, s]"
proof -
  let ?n = "((p * 64 + q) * 64 + r) * 64 + s"
  have d: "?n div 64 = (p * 64 + q) * 64 + r" "((p * 64 + q) * 64 + r) div 64 = p * 64 + q" "(p * 64 + q) div 64 = p"
    using assms by (simp_all only: div_mult_self3 div_less add_0_right)
  have "?n div 64 ^ 2 = ?n div 64 div 64" "?n div 64 ^ 3 = ?n div 64 div 64 div 64"
    by (simp_all only: power2_eq_square power3_eq_cube div_mult2_eq)
  moreover have "?n mod 64 = s" "((p * 64 + q) * 64 + r) mod 64 = r" "(p * 64 + q) mod 64 = q"
    using assms by (simp_all only: mod_mult_self3 mod_less)
  ultimately show ?thesis by (simp only: sextets_def d)
qed

lemma regroup_24:
  fixes a1 :: nat
  shows "((a1 * 4 + a0) * 256 + (b1 * 16 + b0)) * 256 + (c1 * 64 + c0)
       = ((a1 * 64 + (a0 * 16 + b1)) * 64 + (b0 * 4 + c1)) * 64 + c0"
  by simp

lemma unat_and_mask: "unat ((x :: byte) AND mask k) = unat x mod 2 ^ k"
  by (simp only: take_bit_eq_mask [symmetric] unsigned_take_bit_eq) (simp add: take_bit_eq_mod)

lemma unat_drop_div: "unat (drop_bit j (y :: byte)) = unat y div 2 ^ j"
  by (simp only: unat_drop_bit_eq) (simp add: drop_bit_eq_div)

lemma unat_add_bounded: "unat (x :: byte) + unat y < 256 \<Longrightarrow> unat (x + y) = unat x + unat y"
  by (simp add: unat_word_ariths)

lemma unat_push_bounded: "unat (x :: byte) * 2 ^ k < 256 \<Longrightarrow> unat (push_bit k x) = unat x * 2 ^ k"
  by (simp only: unsigned_push_bit_eq) (simp add: push_bit_eq_mult take_bit_eq_mod)

lemma unat_shift_and_add:
  fixes x y :: byte
  assumes "2 ^ i * 2 ^ k \<le> (64 :: nat)" and "unat y div 2 ^ j < 2 ^ k"
  shows "unat (push_bit k (x AND mask i) + drop_bit j y) = unat x mod 2 ^ i * 2 ^ k + unat y div 2 ^ j"
    and "unat x mod 2 ^ i * 2 ^ k + unat y div 2 ^ j < 64"
proof -
  have "Suc (unat x mod 2 ^ i) * 2 ^ k \<le> 2 ^ i * 2 ^ k" by (intro mult_right_mono) (simp_all add: Suc_le_eq)
  then show l: "unat x mod 2 ^ i * 2 ^ k + unat y div 2 ^ j < 64" using assms by simp
  have p: "unat (push_bit k (x AND mask i)) = unat x mod 2 ^ i * 2 ^ k"
    using l by (subst unat_push_bounded) (simp_all only: unat_and_mask)
  show "unat (push_bit k (x AND mask i) + drop_bit j y) = unat x mod 2 ^ i * 2 ^ k + unat y div 2 ^ j"
    using l by (subst unat_add_bounded) (simp_all only: p unat_drop_div)
qed

lemma b64_group_sextets: "map unat (b64_group a b c) = sextets (be_val [a, b, c])"
proof -
  have n: "be_val [a, b, c] =
      ((unat a div 4 * 64 + (unat a mod 4 * 16 + unat b div 16)) * 64 + (unat b mod 16 * 4 + unat c div 64)) * 64 + unat c mod 64"
    unfolding regroup_24 [symmetric] div_mult_mod_eq by (simp add: be_val_def)
  have q: "unat (push_bit 4 (a AND mask 2) + drop_bit 4 b) = unat a mod 4 * 16 + unat b div 16"
    "unat a mod 4 * 16 + unat b div 16 < 64"
    using unat_shift_and_add [where i = 2 and k = 4 and j = 4 and x = a and y = b] by (simp_all add: less_mult_imp_div_less)
  have r: "unat (push_bit 2 (b AND mask 4) + drop_bit 6 c) = unat b mod 16 * 4 + unat c div 64"
    "unat b mod 16 * 4 + unat c div 64 < 64"
    using unat_shift_and_add [where i = 4 and k = 2 and j = 6 and x = b and y = c] by (simp_all add: less_mult_imp_div_less)
  have "unat (c AND mask 6) = unat c mod 64" "unat (drop_bit 2 a) = unat a div 4"
    by (simp_all add: unat_and_mask unat_drop_div)
  then show ?thesis
    unfolding n sextets_of [OF q(2) r(2) mod_less_divisor [OF zero_less_numeral]] b64_group_def mask_numerals
    using q(1) r(1) by simp
qed

lemma b64_group_less: "list_all (\<lambda>d. d < 64) (b64_group a b c)"
proof -
  have "be_val [a, b, c] div 64 ^ 3 < 64" using be_val_less [of "[a, b, c]"] by (simp add: less_mult_imp_div_less)
  then have "\<forall>x\<in>set (map unat (b64_group a b c)). x < 64" unfolding b64_group_sextets by (simp add: sextets_def)
  then show ?thesis by (auto simp: list_all_iff word_less_nat_alt)
qed

lemma list_all_take: "list_all P xs \<Longrightarrow> list_all P (take n xs)"
  by (auto simp: list_all_iff dest: in_set_takeD)

lemma b64_chars: "map ((!) Base64) (sextets (be_val [a, b, c])) = map b64_char (b64_group a b c)"
  by (simp flip: b64_group_sextets)

lemma b64_chars_take: "map ((!) Base64) (take n (sextets (be_val [a, b, c]))) = map b64_char (take n (b64_group a b c))"
  by (simp add: take_map b64_chars flip: take_map)

lemma b64_encode_length: "length (b64_encode bs) = 4 * ((length bs + 2) div 3)"
  by (induction bs rule: b64_encode.induct) (simp_all add: sextets_def, presburger)

text \<open>The outcome of \<^verbatim>\<open>lutil_b64_ntop\<close> that has \<open>e\<close> left to write from offset \<open>d\<close> on.\<close>

definition ntop_outcome :: "byte list \<Rightarrow> nat \<Rightarrow> byte list \<Rightarrow> (int \<times> byte list) option \<Rightarrow> bool" where
  "ntop_outcome e d target r \<longleftrightarrow>
     (\<exists>t. r = Some (if d + length e < length target then c_to_int (int (d + length e)) else -1, t) \<and> length t = length target
        \<and> (d + length e < length target \<longrightarrow> take (d + length e + 1) t = take d target @ e @ [0]))"

lemma ntop_outcome_short: "length target < d + length e \<Longrightarrow> ntop_outcome e d target (Some (-1, target))"
  by (auto simp: ntop_outcome_def)

lemma ntop_outcome_end: "d \<le> length target \<Longrightarrow> ntop_outcome [] d target (Some (b64_ntop_end target d))"
  by (auto simp: ntop_outcome_def b64_ntop_end_def take_Suc_conv_app_nth)

lemma ntop_outcome_step:
  assumes "ntop_outcome e (d + length g) (memcpy target d g) r" and "d + length g \<le> length target"
  shows "ntop_outcome (g @ e) d target r"
  using assms by (auto simp: ntop_outcome_def add.assoc)

lemma ntop_outcome_last:
  assumes "length g = 4" and "d \<le> length target"
  shows "ntop_outcome g d target
           (if length target < d + 4 then Some (-1, target) else Some (b64_ntop_end (memcpy target d g) (d + 4)))"
  using assms ntop_outcome_step [of "[]" d g target] ntop_outcome_end [of "d + 4" "memcpy target d g"]
  by (simp add: ntop_outcome_short)

lemma b64_ntop_loop_outcome: "d \<le> length target \<Longrightarrow> ntop_outcome (b64_encode src) d target (b64_ntop_loop src target d)"
proof (induction src target d rule: b64_ntop_loop.induct [case_names group none one two])
  case (group a b c src target d)
  let ?g = "map b64_char (b64_group a b c)"
  have g: "length ?g = 4" by (simp add: b64_group_def)
  show ?case
  proof (cases "d + 4 > length target")
    case True
    then show ?thesis using g b64_group_less by (simp add: b64_chars ntop_outcome_short)
  next
    case False
    then have "ntop_outcome (b64_encode src) (d + length ?g) (memcpy target d ?g) (b64_ntop_loop src (memcpy target d ?g) (d + 4))"
      using group.IH [OF refl] b64_group_less g by simp
    then have "ntop_outcome (?g @ b64_encode src) d target (b64_ntop_loop src (memcpy target d ?g) (d + 4))"
      using False g by (intro ntop_outcome_step) simp_all
    then show ?thesis using False b64_group_less by (simp add: b64_chars)
  qed
next
  case (none target d)
  then show ?case by (simp add: b64_ntop_tail_def ntop_outcome_end)
next
  case (one a target d)
  have e: "b64_encode [a] = [b64_char (b64_group a 0 0 ! 0), b64_char (b64_group a 0 0 ! 1), Pad64, Pad64]"
    by (simp add: b64_chars_take) (simp add: b64_group_def)
  show ?case using ntop_outcome_last [OF _ one, of "b64_encode [a]", unfolded e] b64_group_less [of a 0 0]
    by (simp add: b64_ntop_tail_def Let_def e list_all_take del: b64_encode.simps split: if_splits)
next
  case (two a b target d)
  have e: "b64_encode [a, b] =
      [b64_char (b64_group a b 0 ! 0), b64_char (b64_group a b 0 ! 1), b64_char (b64_group a b 0 ! 2), Pad64]"
    by (simp add: b64_chars_take) (simp add: b64_group_def)
  show ?case using ntop_outcome_last [OF _ two, of "b64_encode [a, b]", unfolded e] b64_group_less [of a b 0]
    by (simp add: b64_ntop_tail_def Let_def e list_all_take del: b64_encode.simps split: if_splits)
qed

end
