(* ===== verification/Lutil_Base64_Decode.thy ===== *)
theory Lutil_Base64_Decode
  imports Lutil_Base64
begin

text \<open>
  What \<^verbatim>\<open>lutil_b64_pton\<close> accepts and stores: exactly the encodings, with blanks anywhere, if the target has room for whole
  groups of three octets.
\<close>

section \<open>Blanks\<close>


lemma Pad64_plain [simp]: "\<not> b64_space Pad64"
  by code_simp





section \<open>Groups\<close>






section \<open>The octets of a text\<close>


definition pton_fails :: "byte list \<Rightarrow> int \<times> byte list option \<Rightarrow> bool" where
  "pton_fails t r \<longleftrightarrow> (\<exists>t'. r = (-1, Some t') \<and> length t' = length t)"

text \<open>The octets the target needs: a last group of one or two takes one octet more than it has data.\<close>

definition b64_room :: "byte list \<Rightarrow> nat" where
  "b64_room bs = length bs + (if length bs mod 3 = 0 then 0 else 1)"

definition pton_outcome :: "byte list option \<Rightarrow> nat \<Rightarrow> byte list \<Rightarrow> int \<times> byte list option \<Rightarrow> bool" where
  "pton_outcome dec i t r \<longleftrightarrow>
     (case dec of
        Some bs \<Rightarrow>
          if i + b64_room bs \<le> length t
          then \<exists>t'. r = (c_to_int (int (i + length bs)), Some t') \<and> length t' = length t \<and> take (i + length bs) t' = take i t @ bs
          else pton_fails t r
      | None \<Rightarrow> pton_fails t r)"

lemma pton_outcome_None [simp]: "pton_outcome None i t r \<longleftrightarrow> pton_fails t r"
  by (simp add: pton_outcome_def)












lemma b64_join_length [simp]: "length (b64_join p q r x) = 3"
  by (simp add: b64_join_def)




section \<open>Reading undoes writing, and nothing else is read\<close>








end
