(* ===== verification/Sockbuf.thy ===== *)
theory Sockbuf
  imports Ldap_Prelude
begin

text \<open>
  The input side of \<^verbatim>\<open>liblber/sockbuf.c\<close>: the buffer \<^verbatim>\<open>Sockbuf_Buf\<close> and the read-ahead layer over
  another layer's read function.  A read function gets its state and the room in the caller's buffer
  and returns the C return value, the octets stored and the new state, or \<open>None\<close> where an assertion
  fails.  A call that \<^verbatim>\<open>EINTR\<close>
  interrupts is repeated by the code, so a read here is the first call that is not interrupted.
\<close>

section \<open>Buffers\<close>

text \<open>\<^verbatim>\<open>buf_base\<close> is the allocated memory; \<^verbatim>\<open>buf_size\<close> is its length.\<close>

record sockbuf_buf =
  buf_base :: "byte list"
  buf_ptr :: nat
  buf_end :: nat

abbreviation (input) LBER_MIN_BUFF_SIZE :: nat where "LBER_MIN_BUFF_SIZE \<equiv> 4096"
abbreviation (input) LBER_MAX_BUFF_SIZE :: nat where "LBER_MAX_BUFF_SIZE \<equiv> 65536 * 256"
abbreviation (input) LBER_DEFAULT_READAHEAD :: nat where "LBER_DEFAULT_READAHEAD \<equiv> 16384"

definition buf_size :: "sockbuf_buf \<Rightarrow> nat" where
  "buf_size p = length (buf_base p)"

definition ber_pvt_sb_buf_init :: sockbuf_buf where
  "ber_pvt_sb_buf_init = \<lparr>buf_base = [], buf_ptr = 0, buf_end = 0\<rparr>"

definition ber_pvt_sb_buf_destroy :: "sockbuf_buf \<Rightarrow> sockbuf_buf" where
  "ber_pvt_sb_buf_destroy buf = ber_pvt_sb_buf_init"

text \<open>The loop that doubles \<^verbatim>\<open>pw\<close>: \<open>None\<close> where it exceeds the maximum.\<close>

function grow_loop :: "nat \<Rightarrow> nat \<Rightarrow> nat option" where
  "grow_loop minsize pw =
     (if pw < minsize then
        if pw > LBER_MAX_BUFF_SIZE \<or> pw = 0 then None else grow_loop minsize (2 * pw)
      else Some pw)"
  by pat_completeness auto
termination
  by (relation "measure (\<lambda>(minsize, pw). minsize - pw)") auto

declare grow_loop.simps [simp del]

text \<open>\<open>fresh n\<close> is what the memory that \<^verbatim>\<open>realloc\<close> adds holds.\<close>

definition ber_pvt_sb_grow_buffer ::
  "allocator \<Rightarrow> (nat \<Rightarrow> byte list) \<Rightarrow> sockbuf_buf \<Rightarrow> nat \<Rightarrow> int \<times> sockbuf_buf" where
  "ber_pvt_sb_grow_buffer ma fresh buf minsize =
     (case grow_loop minsize LBER_MIN_BUFF_SIZE of
        None \<Rightarrow> (-1, buf)
      | Some pw \<Rightarrow>
          if buf_size buf < pw then
            (if \<not> ma pw then (-1, buf)
             else (0, buf\<lparr>buf_base := buf_base buf @ fresh (pw - buf_size buf)\<rparr>))
          else (0, buf))"

text \<open>The octets copied, whose number is the return value, and the buffer.\<close>

definition ber_pvt_sb_copy_out :: "sockbuf_buf \<Rightarrow> nat \<Rightarrow> byte list \<times> sockbuf_buf" where
  "ber_pvt_sb_copy_out sbb len =
     (let mx = buf_end sbb - buf_ptr sbb; mx = (if mx < len then mx else len)
      in if mx \<noteq> 0 then
           let bs = take mx (drop (buf_ptr sbb) (buf_base sbb)); q = buf_ptr sbb + mx
           in (bs, if q \<ge> buf_end sbb then sbb\<lparr>buf_ptr := 0, buf_end := 0\<rparr> else sbb\<lparr>buf_ptr := q\<rparr>)
         else ([], sbb))"

section \<open>The read-ahead layer\<close>

type_synonym 's layer_read = "'s \<Rightarrow> nat \<Rightarrow> (int \<times> byte list \<times> 's) option"

definition sb_rdahead_setup :: "allocator \<Rightarrow> (nat \<Rightarrow> byte list) \<Rightarrow> nat option \<Rightarrow> int \<times> sockbuf_buf option" where
  "sb_rdahead_setup ma fresh arg =
     (if \<not> ma 32 then (-1, None)
      else let p = ber_pvt_sb_buf_init;
               p = snd (ber_pvt_sb_grow_buffer ma fresh p (case arg of None \<Rightarrow> LBER_DEFAULT_READAHEAD | Some n \<Rightarrow> n))
           in (0, Some p))"

definition sb_rdahead_remove :: "sockbuf_buf \<Rightarrow> int" where
  "sb_rdahead_remove p = (if buf_ptr p \<noteq> buf_end p then -1 else 0)"

definition sb_rdahead_read :: "'s layer_read \<Rightarrow> (sockbuf_buf \<times> 's) layer_read" where
  "sb_rdahead_read read_next ps len =
     (case ps of (p, s) \<Rightarrow>
        if buf_size p = 0 then None
        else case ber_pvt_sb_copy_out p len of (bs, p1) \<Rightarrow>
          let len1 = len - length bs
          in if len1 = 0 then Some (int (length bs), bs, p1, s)
             else
               let mx = buf_size p1 - buf_end p1
               in case (if mx > 0 then read_next s mx else Some (0, [], s)) of
                    None \<Rightarrow> None
                  | Some (ret, rs, s1) \<Rightarrow>
                      if ret < 0 then Some (if bs \<noteq> [] then int (length bs) else ret, bs, p1, s1)
                      else
                        let p2 = p1\<lparr>buf_base := memcpy (buf_base p1) (buf_end p1) rs, buf_end := buf_end p1 + nat ret\<rparr>
                        in case ber_pvt_sb_copy_out p2 len1 of (cs, p3) \<Rightarrow>
                             Some (int (length (bs @ cs)), bs @ cs, p3, s1))"

definition sb_rdahead_close :: "sockbuf_buf \<Rightarrow> int \<times> sockbuf_buf" where
  "sb_rdahead_close p = (0, ber_pvt_sb_buf_destroy p)"

datatype sb_ctrl = LBER_SB_OPT_DATA_READY | LBER_SB_OPT_SET_READAHEAD nat | LBER_SB_OPT_OTHER int

definition sb_rdahead_ctrl ::
  "allocator \<Rightarrow> (nat \<Rightarrow> byte list) \<Rightarrow> (sb_ctrl \<Rightarrow> 's \<Rightarrow> int \<times> 's) \<Rightarrow> sb_ctrl \<Rightarrow> sockbuf_buf \<times> 's \<Rightarrow> int \<times> sockbuf_buf \<times> 's" where
  "sb_rdahead_ctrl ma fresh ctrl_next opt ps =
     (case ps of (p, s) \<Rightarrow>
        (case opt of
           LBER_SB_OPT_DATA_READY \<Rightarrow>
             if buf_ptr p \<noteq> buf_end p then (1, p, s)
             else (case ctrl_next opt s of (r, s) \<Rightarrow> (r, p, s))
         | LBER_SB_OPT_SET_READAHEAD n \<Rightarrow>
             if buf_size p \<ge> n then (0, p, s)
             else (case ber_pvt_sb_grow_buffer ma fresh p n of (r, p) \<Rightarrow> (if r \<noteq> 0 then -1 else 1, p, s))
         | LBER_SB_OPT_OTHER c \<Rightarrow> (case ctrl_next opt s of (r, s) \<Rightarrow> (r, p, s))))"


section \<open>Streams\<close>

text \<open>
  What a reader of octets relies on.  \<open>pending\<close> is what the peer has still to deliver: a read hands out its next
  octets, as many as the return value says and no more than there is room for.  In a \<open>live\<close> state a read with
  something pending gives at least one octet.
\<close>

locale byte_stream =
  fixes rd :: "'s layer_read" and pending :: "'s \<Rightarrow> byte list" and ok :: "'s \<Rightarrow> bool" and live :: "'s \<Rightarrow> bool"
  assumes rd_total: "ok s \<Longrightarrow> 0 < n \<Longrightarrow> \<exists>r. rd s n = Some r"
    and rd_order: "ok s \<Longrightarrow> 0 < n \<Longrightarrow> rd s n = Some (ret, bs, s') \<Longrightarrow>
      ok s' \<and> pending s = bs @ pending s' \<and> length bs \<le> n \<and> (if 0 < ret then ret = int (length bs) else bs = [])"
    and rd_live: "ok s \<Longrightarrow> 0 < n \<Longrightarrow> live s \<Longrightarrow> rd s n = Some (ret, bs, s') \<Longrightarrow>
      live s' \<and> (pending s \<noteq> [] \<longrightarrow> 0 < ret)"
begin

lemma rd_cases:
  assumes "ok s" and "0 < n"
  obtains (none) ret s' where "rd s n = Some (ret, [], s')" "ret \<le> 0" "ok s'" "pending s' = pending s"
      "live s \<Longrightarrow> live s' \<and> pending s = []"
  | (some) bs s' where "rd s n = Some (int (length bs), bs, s')" "bs \<noteq> []" "length bs \<le> n" "ok s'"
      "pending s = bs @ pending s'" "live s \<Longrightarrow> live s'"
proof -
  obtain ret bs s' where r: "rd s n = Some (ret, bs, s')" using rd_total [OF assms] by auto
  note o = rd_order [OF assms r]
  show thesis
  proof (cases "0 < ret")
    case True
    then show thesis using some [of bs s'] r o rd_live [OF assms _ r] by auto
  next
    case False
    then show thesis using none [of ret s'] r o rd_live [OF assms _ r] by auto
  qed
qed

end

text \<open>The octets that the buffer still holds.\<close>

definition unread :: "sockbuf_buf \<Rightarrow> byte list" where
  "unread p = take (buf_end p - buf_ptr p) (drop (buf_ptr p) (buf_base p))"

definition buf_ok :: "sockbuf_buf \<Rightarrow> bool" where
  "buf_ok p \<longleftrightarrow> buf_ptr p \<le> buf_end p \<and> buf_end p \<le> buf_size p \<and> 0 < buf_size p
     \<and> (buf_ptr p = buf_end p \<longrightarrow> buf_end p = 0)"

lemma copy_out_spec:
  assumes "buf_ok p" and "ber_pvt_sb_copy_out p len = (bs, p')"
  shows "unread p = bs @ unread p'" and "length bs = min len (length (unread p))" and "buf_ok p'"
    and "buf_size p' = buf_size p" and "length bs < len \<Longrightarrow> buf_ptr p' = 0 \<and> buf_end p' = 0"
proof -
  let ?n = "buf_end p - buf_ptr p"
  have len: "length (unread p) = ?n" using assms(1) by (auto simp: unread_def buf_ok_def buf_size_def)
  have bs: "bs = take (min len ?n) (drop (buf_ptr p) (buf_base p))"
    and p': "p' = (if min len ?n \<noteq> 0 then (if buf_ptr p + min len ?n \<ge> buf_end p then p\<lparr>buf_ptr := 0, buf_end := 0\<rparr>
        else p\<lparr>buf_ptr := buf_ptr p + min len ?n\<rparr>) else p)"
    using assms(2) by (auto simp: ber_pvt_sb_copy_out_def Let_def min_def split: if_splits)
  show "length bs = min len (length (unread p))"
    using assms(1) len by (auto simp: bs buf_ok_def buf_size_def min_def)
  show "buf_ok p'" "buf_size p' = buf_size p" using assms(1) by (auto simp: p' buf_ok_def buf_size_def)
  show "buf_ptr p' = 0 \<and> buf_end p' = 0" if "length bs < len"
    using that assms(1) by (auto simp: bs p' buf_ok_def buf_size_def min_def split: if_splits)
  show "unread p = bs @ unread p'"
  proof (cases "len < ?n")
    case True
    then have "unread p' = drop len (unread p)"
      by (auto simp: unread_def p' drop_take add.commute)
    moreover have "bs = take len (unread p)" using True by (simp add: bs unread_def min_def)
    ultimately show ?thesis by simp
  next
    case False
    then have "bs = unread p" "unread p' = []" by (auto simp: bs p' unread_def min_def)
    then show ?thesis by simp
  qed
qed


lemma unread_empty: "buf_ptr p = 0 \<Longrightarrow> buf_end p = 0 \<Longrightarrow> unread p = []"
  by (simp add: unread_def)

context byte_stream
begin

abbreviation (input) ahead_pending :: "sockbuf_buf \<times> 's \<Rightarrow> byte list" where
  "ahead_pending ps \<equiv> unread (fst ps) @ pending (snd ps)"

abbreviation (input) ahead_ok :: "sockbuf_buf \<times> 's \<Rightarrow> bool" where
  "ahead_ok ps \<equiv> buf_ok (fst ps) \<and> ok (snd ps)"

lemma rdahead_cases:
  assumes p: "buf_ok p" and s: "ok s" and n: "0 < n"
  shows "\<exists>ret bs p' s'. sb_rdahead_read rd (p, s) n = Some (ret, bs, p', s') \<and> buf_ok p' \<and> ok s'
     \<and> unread p @ pending s = bs @ unread p' @ pending s' \<and> length bs \<le> n
     \<and> (if 0 < ret then ret = int (length bs) else bs = [])
     \<and> (live s \<longrightarrow> live s' \<and> (unread p @ pending s \<noteq> [] \<longrightarrow> 0 < ret))"
proof -
  obtain bs p1 where c1: "ber_pvt_sb_copy_out p n = (bs, p1)" by force
  note k1 = copy_out_spec [OF p c1]
  have size: "buf_size p \<noteq> 0" using p by (simp add: buf_ok_def)
  show ?thesis
  proof (cases "length bs = n")
    case True
    then have "sb_rdahead_read rd (p, s) n = Some (int (length bs), bs, p1, s)"
      using size c1 by (simp add: sb_rdahead_read_def)
    moreover have "0 < length bs" using True n by simp
    ultimately show ?thesis using k1(1,3) s True
      by (intro exI [of _ "int (length bs)"] exI [of _ bs] exI [of _ p1] exI [of _ s]) simp
  next
    case False
    then have short: "length bs < n" using k1(2) by simp
    then have e: "buf_ptr p1 = 0" "buf_end p1 = 0" using k1(5) by auto
    have bs: "bs = unread p" using k1(1) unread_empty [OF e] by simp
    have m: "0 < buf_size p1" using size k1(4) by simp
    from s m show ?thesis
    proof (cases rule: rd_cases)
      case (none ret s')
      have "ber_pvt_sb_copy_out (p1\<lparr>buf_base := buf_base p1, buf_end := 0\<rparr>) (n - length bs) = ([], p1)"
        using e by (simp add: ber_pvt_sb_copy_out_def)
      then have "sb_rdahead_read rd (p, s) n = Some (if ret < 0 \<and> bs = [] then ret else int (length bs), bs, p1, s')"
        using size c1 short e m none by (auto simp: sb_rdahead_read_def Let_def)
      moreover have "live s \<Longrightarrow> live s' \<and> pending s = []" by (rule none(5))
      ultimately show ?thesis using k1(3) none(2-4) bs unread_empty [OF e] short
        by (intro exI [of _ "if ret < 0 \<and> bs = [] then ret else int (length bs)"] exI [of _ bs] exI [of _ p1] exI [of _ s'])
          auto
    next
      case (some rs s')
      let ?p2 = "p1\<lparr>buf_base := memcpy (buf_base p1) 0 rs, buf_end := length rs\<rparr>"
      have len: "length rs \<le> length (buf_base p1)" using some(3) by (simp add: buf_size_def)
      have ok2: "buf_ok ?p2" using e some(2) len by (auto simp: buf_ok_def buf_size_def)
      have un2: "unread ?p2 = rs" using e by (simp add: unread_def memcpy_def)
      obtain cs p3 where c2: "ber_pvt_sb_copy_out ?p2 (n - length bs) = (cs, p3)" by force
      note k2 = copy_out_spec [OF ok2 c2]
      have "sb_rdahead_read rd (p, s) n = Some (int (length (bs @ cs)), bs @ cs, p3, s')"
        using size c1 short e m some c2 by (simp add: sb_rdahead_read_def Let_def)
      moreover have "0 < length cs" using k2(2) un2 some(2) short by simp
      moreover have "length cs \<le> n - length bs" using k2(2) by simp
      ultimately show ?thesis using k2(1,3) un2 some(4-6) bs short
        by (intro exI [of _ "int (length (bs @ cs))"] exI [of _ "bs @ cs"] exI [of _ p3] exI [of _ s'])
          (auto simp: add_nonneg_pos)
    qed
  qed
qed

lemma rdahead_stream:
  "byte_stream (sb_rdahead_read rd) (\<lambda>ps. unread (fst ps) @ pending (snd ps))
     (\<lambda>ps. buf_ok (fst ps) \<and> ok (snd ps)) (\<lambda>ps. live (snd ps))"
proof
  fix ps :: "sockbuf_buf \<times> 's" and n :: nat
  assume a: "buf_ok (fst ps) \<and> ok (snd ps)" "0 < n"
  note c = rdahead_cases [of "fst ps" "snd ps" n]
  show "\<exists>r. sb_rdahead_read rd ps n = Some r" using c a by auto
  fix ret bs ps'
  assume "sb_rdahead_read rd ps n = Some (ret, bs, ps')"
  then show "(buf_ok (fst ps') \<and> ok (snd ps')) \<and> unread (fst ps) @ pending (snd ps) = bs @ unread (fst ps') @ pending (snd ps')
      \<and> length bs \<le> n \<and> (if 0 < ret then ret = int (length bs) else bs = [])"
    "live (snd ps) \<Longrightarrow> live (snd ps') \<and> (unread (fst ps) @ pending (snd ps) \<noteq> [] \<longrightarrow> 0 < ret)"
    using c a by auto
qed

end

section \<open>Sockets\<close>

text \<open>
  A connected socket as \<^verbatim>\<open>read\<close> sees it: the octets the peer sends, and how many of them each call finds there
  (0: none yet, the call fails).  \<^verbatim>\<open>sb_stream_read\<close> is that call.  The end of the stream, where \<^verbatim>\<open>read\<close> returns 0, is a call
  that finds nothing too, and its result is -1 here: \<^verbatim>\<open>ber_get_next\<close> only tests whether the result is positive.  An
  interrupted \<^verbatim>\<open>read\<close> (\<^verbatim>\<open>EINTR\<close>) is repeated at once by its caller and takes no octets, so it is left out of the arrivals.
\<close>

record tcp_socket =
  tcp_in :: "byte list"
  tcp_arrivals :: "nat list"

definition sb_stream_read :: "tcp_socket layer_read" where
  "sb_stream_read sd len =
     (case tcp_arrivals sd of
        [] \<Rightarrow> Some (-1, [], sd)
      | a # as \<Rightarrow>
          let bs = take (min a len) (tcp_in sd)
          in Some (if bs = [] then -1 else int (length bs), bs,
                   sd\<lparr>tcp_in := drop (min a len) (tcp_in sd), tcp_arrivals := as\<rparr>))"

definition tcp_live :: "tcp_socket \<Rightarrow> bool" where
  "tcp_live sd \<longleftrightarrow> (\<forall>a\<in>set (tcp_arrivals sd). 0 < a) \<and> length (tcp_in sd) \<le> length (tcp_arrivals sd)"

lemma sb_stream_read_cases:
  assumes "sb_stream_read sd n = Some (ret, bs, sd')"
  shows "tcp_in sd = bs @ tcp_in sd' \<and> length bs \<le> n \<and> ret = (if bs = [] then -1 else int (length bs))"
proof (cases "tcp_arrivals sd")
  case (Cons a as)
  then have "bs = take (min a n) (tcp_in sd)" "tcp_in sd' = drop (min a n) (tcp_in sd)"
    "ret = (if bs = [] then -1 else int (length bs))"
    using assms by (auto simp: sb_stream_read_def Let_def)
  then show ?thesis by simp
qed (use assms in \<open>auto simp: sb_stream_read_def\<close>)

interpretation tcp: byte_stream sb_stream_read tcp_in "\<lambda>sd. True" tcp_live
proof
  fix s :: tcp_socket and n :: nat and ret and bs :: "byte list" and s' :: tcp_socket
  assume n: "0 < n"
  show "\<exists>r. sb_stream_read s n = Some r" by (auto simp: sb_stream_read_def Let_def split: list.split)
  assume r: "sb_stream_read s n = Some (ret, bs, s')"
  note c = sb_stream_read_cases [OF r]
  show "True \<and> tcp_in s = bs @ tcp_in s' \<and> length bs \<le> n \<and> (if 0 < ret then ret = int (length bs) else bs = [])"
    using c by auto
  show "tcp_live s' \<and> (tcp_in s \<noteq> [] \<longrightarrow> 0 < ret)" if live: "tcp_live s"
  proof (cases "tcp_arrivals s")
    case (Cons a as)
    then have a: "0 < a" "tcp_arrivals s' = as" "bs = take (min a n) (tcp_in s)"
      using live r by (auto simp: sb_stream_read_def tcp_live_def Let_def)
    have ne: "bs \<noteq> []" if "tcp_in s \<noteq> []" using a n that by auto
    have "length (tcp_in s') \<le> length as"
    proof (cases "tcp_in s = []")
      case True
      then show ?thesis using c by simp
    next
      case False
      then have "0 < length bs" using ne by simp
      moreover have "length (tcp_in s) = length bs + length (tcp_in s')" using c by (metis length_append)
      moreover have "length (tcp_in s) \<le> Suc (length as)" using live Cons by (simp add: tcp_live_def)
      ultimately show ?thesis by linarith
    qed
    moreover have "\<forall>x\<in>set as. 0 < x" using live Cons by (simp add: tcp_live_def)
    moreover have "0 < ret" if "tcp_in s \<noteq> []" using ne [OF that] c by simp
    ultimately show ?thesis using a(2) by (simp add: tcp_live_def)
  qed (use live r in \<open>auto simp: sb_stream_read_def tcp_live_def\<close>)
qed

interpretation ahead: byte_stream "sb_rdahead_read sb_stream_read" "\<lambda>ps. unread (fst ps) @ tcp_in (snd ps)"
  "\<lambda>ps. buf_ok (fst ps) \<and> True" "\<lambda>ps. tcp_live (snd ps)"
  by (rule tcp.rdahead_stream)

end
