(* ===== verification/Ber_Input.thy ===== *)
theory Ber_Input
  imports Ber_Io Sockbuf
begin

text \<open>
  Reading a message from a \<^verbatim>\<open>Sockbuf\<close>: \<^verbatim>\<open>ber_get_next\<close> of \<^verbatim>\<open>liblber/io.c\<close>.  The function may be
  called again and again until the message is complete.  The octets of tag and length are first stored in
  the element itself, from the last octet of \<^verbatim>\<open>ber_tag\<close> through \<^verbatim>\<open>ber_len\<close>; the model keeps these
  nine octets as \<open>rd_area\<close>, next to the fields they overlay, and assignments to the fields write them.
  A pointer is an offset into the area or into the buffer.
\<close>

section \<open>State\<close>

datatype rdpos = AtHeader nat | AtBuf nat

record bersock = berelement +
  rd_area :: "byte list"
  rd_ptr :: rdpos
  rd_rwptr :: "rdpos option"

datatype sock_errno = NoErrno | EWOULDBLOCK | ERANGE

datatype getnext = GnTag ber_tag_t ber_len_t | GnDefault sock_errno | GnAssert

abbreviation (input) LENSIZE :: nat where "LENSIZE \<equiv> 4"

text \<open>The octets of a 64-bit field in memory, least significant first.\<close>

definition le64 :: "64 word \<Rightarrow> byte list" where
  "le64 w = map (\<lambda>i. ucast (drop_bit (8 * i) w)) [0..<8]"

definition set_ber_tag :: "ber_tag_t \<Rightarrow> bersock \<Rightarrow> bersock" where
  "set_ber_tag tag ber = ber\<lparr>ber_tag := tag, rd_area := (rd_area ber)[0 := ucast (drop_bit 56 tag)]\<rparr>"

definition set_ber_len :: "ber_len_t \<Rightarrow> bersock \<Rightarrow> bersock" where
  "set_ber_len len ber = ber\<lparr>ber_len := len, rd_area := memcpy (rd_area ber) 1 (le64 len)\<rparr>"

section \<open>The header\<close>

text \<open>The loop over the further octets of a tag: \<open>Inl\<close> is a tag that is too big.\<close>

function gn_tag_loop :: "byte list \<Rightarrow> nat \<Rightarrow> nat \<Rightarrow> nat \<Rightarrow> ber_tag_t \<Rightarrow> sock_errno + (ber_tag_t \<times> nat)" where
  "gn_tag_loop area rw i p tag =
     (if p < rw then
        let tag = push_bit 8 tag OR ucast (area ! p); p = p + 1
        in if tag AND 0x80 = 0 then Inr (tag, p)
           else if i = 8 - 1 then Inl ERANGE
           else gn_tag_loop area rw (i + 1) p tag
      else Inr (tag, p))"
  by pat_completeness auto
termination
  by (relation "measure (\<lambda>(area, rw, i, p, tag). rw - p)") auto

declare gn_tag_loop.simps [simp del]

text \<open>Parsing the tag when it has not been parsed yet.\<close>

definition gn_tag :: "nat \<Rightarrow> bersock \<Rightarrow> sock_errno + bersock" where
  "gn_tag rw ber =
     (if rd_ptr ber = AtHeader 0 then
        let tag = ucast (rd_area ber ! 0) :: ber_tag_t
        in if tag AND 0x1f = 0x1f then
             (case gn_tag_loop (rd_area ber) rw 1 1 tag of
                Inl e \<Rightarrow> Inl e
              | Inr (tag, p) \<Rightarrow>
                  if p = rw then Inl EWOULDBLOCK
                  else Inr ((set_ber_tag tag ber)\<lparr>rd_ptr := AtHeader p\<rparr>))
           else Inr ((set_ber_tag tag ber)\<lparr>rd_ptr := AtHeader 1\<rparr>)
      else Inr ber)"

fun gn_len_loop :: "byte list \<Rightarrow> nat \<Rightarrow> nat \<Rightarrow> ber_len_t \<Rightarrow> ber_len_t" where
  "gn_len_loop area p 0 tlen = tlen"
| "gn_len_loop area p (Suc n) tlen = gn_len_loop area (Suc p) n (push_bit 8 tlen OR ucast (area ! p))"

text \<open>The length: its value and the offset behind it.\<close>

definition gn_len :: "byte list \<Rightarrow> nat \<Rightarrow> nat \<Rightarrow> sock_errno + (ber_len_t \<times> nat)" where
  "gn_len area p rw =
     (if area ! p AND 0x80 \<noteq> 0 then
        let llen = unat (area ! p AND 0x7f); p = p + 1
        in if llen > LENSIZE then Inl ERANGE
           else if rw - p < llen then Inl EWOULDBLOCK
           else Inr (gn_len_loop area p llen 0, p + llen)
      else Inr (ucast (area ! p), p + 1))"

definition rd_offset :: "rdpos \<Rightarrow> nat" where
  "rd_offset q = (case q of AtHeader n \<Rightarrow> n | AtBuf n \<Rightarrow> n)"

section \<open>Reading\<close>

definition gn_done :: "bersock \<Rightarrow> getnext \<times> bersock" where
  "gn_done ber = (GnTag (ber_tag ber) (ber_len ber), ber\<lparr>rd_rwptr := None, ber_rwptr := None\<rparr>)"

text \<open>The second half: filling the buffer.\<close>

definition gn_fill :: "'s layer_read \<Rightarrow> 's \<Rightarrow> bersock \<Rightarrow> getnext \<times> bersock \<times> 's" where
  "gn_fill rd s ber =
     (case rd_rwptr ber of
        Some (AtBuf k) \<Rightarrow>
          if k < ber_end ber then
            let to_go = ber_end ber - k
            in case rd s to_go of
                 None \<Rightarrow> (GnAssert, ber, s)
               | Some (res, bs, s) \<Rightarrow>
                   if res \<le> 0 then (GnDefault NoErrno, ber, s)
                   else let ber = ber\<lparr>ber_buf := memcpy (ber_buf ber) k bs, rd_rwptr := Some (AtBuf (k + nat res))\<rparr>
                        in if res < int to_go then (GnDefault EWOULDBLOCK, ber, s)
                           else (case gn_done ber of (r, ber) \<Rightarrow> (r, ber, s))
          else (GnAssert, ber, s)
      | _ \<Rightarrow> (GnAssert, ber, s))"

text \<open>
  The part of the header loop behind the tag: the length, the octets that already belong to the
  contents, and the buffer.  \<open>fresh n\<close> is what \<open>n\<close> octets of new memory hold.
\<close>

definition gn_contents ::
  "'s layer_read \<Rightarrow> allocator \<Rightarrow> (nat \<Rightarrow> byte list) \<Rightarrow> ber_len_t \<Rightarrow> 's \<Rightarrow> nat \<Rightarrow> bersock \<Rightarrow> getnext \<times> bersock \<times> 's" where
  "gn_contents rd ma fresh sb_max_incoming s rw ber =
     (let p = rd_offset (rd_ptr ber)
      in if p = rw then (GnDefault EWOULDBLOCK, ber, s)
         else case gn_len (rd_area ber) p rw of
                Inl e \<Rightarrow> (GnDefault e, ber, s)
              | Inr (tlen, p) \<Rightarrow>
                  let sblen = (if p < 9 then (if rw < 9 then rw - p else 9 - p) else 0);
                      buf = take sblen (drop p (rd_area ber));
                      rest = take (rw - (p + sblen)) (drop (p + sblen) (rd_area ber));
                      ber = set_ber_len tlen (ber\<lparr>rd_ptr := AtHeader (p + sblen)\<rparr>)
                  in if tlen = 0 then (GnDefault ERANGE, ber, s)
                     else if sb_max_incoming \<noteq> 0 \<and> tlen > sb_max_incoming then (GnDefault ERANGE, ber, s)
                     else if tlen < of_nat (sblen + length rest) then (GnDefault ERANGE, ber, s)
                     else if \<not> ber_memalloc_x ma (unat (tlen + 1)) then (GnDefault NoErrno, ber, s)
                     else
                       let ber = ber\<lparr>ber_buf := memcpy (fresh (unat tlen)) 0 (buf @ rest), ber_end := unat tlen,
                                     rd_ptr := AtBuf 0, ber_ptr := 0, ber_usertag := 0\<rparr>;
                           n = sblen + length rest
                       in if of_nat n = tlen then (case gn_done ber of (r, ber) \<Rightarrow> (r, ber, s))
                          else gn_fill rd s (ber\<lparr>rd_rwptr := Some (AtBuf n)\<rparr>))"

text \<open>How many octets the loop tries to read into the area at offset \<open>k\<close>.\<close>

definition gn_room :: "nat \<Rightarrow> nat" where
  "gn_room k = (if LENSIZE * 2 < k + 1 then 1 else LENSIZE * 2 - k)"

text \<open>
  The loop that reads the header.  While the read pointer is in the area there is no buffer
  yet, and once the header is complete the pointer moves to the buffer, so the body runs at most once.
\<close>

definition gn_header ::
  "'s layer_read \<Rightarrow> allocator \<Rightarrow> (nat \<Rightarrow> byte list) \<Rightarrow> ber_len_t \<Rightarrow> 's \<Rightarrow> nat \<Rightarrow> bersock \<Rightarrow> getnext \<times> bersock \<times> 's" where
  "gn_header rd ma fresh sb_max_incoming s k ber =
     (case rd s (gn_room k) of
        None \<Rightarrow> (GnAssert, ber, s)
      | Some (sblen, bs, s) \<Rightarrow>
          if sblen \<le> 0 then (GnDefault NoErrno, ber, s)
          else
            let rw = k + nat sblen;
                ber = ber\<lparr>rd_area := memcpy (rd_area ber) k bs, rd_rwptr := Some (AtHeader rw)\<rparr>
            in case gn_tag rw ber of
                 Inl e \<Rightarrow> (GnDefault e, ber, s)
               | Inr ber \<Rightarrow> gn_contents rd ma fresh sb_max_incoming s rw ber)"

definition ber_get_next ::
  "'s layer_read \<Rightarrow> allocator \<Rightarrow> (nat \<Rightarrow> byte list) \<Rightarrow> ber_len_t \<Rightarrow> 's \<Rightarrow> bersock \<Rightarrow> getnext \<times> bersock \<times> 's" where
  "ber_get_next rd ma fresh sb_max_incoming s ber =
     (if rd_rwptr ber = None \<and> ber_buf ber \<noteq> [] then (GnAssert, ber, s)
      else
        let ber = (if rd_rwptr ber = None
                   then (set_ber_tag 0 ber)\<lparr>rd_rwptr := Some (AtHeader 0), rd_ptr := AtHeader 0\<rparr>
                   else ber)
        in case rd_rwptr ber of
             Some (AtHeader k) \<Rightarrow>
               if k < 9 then gn_header rd ma fresh sb_max_incoming s k ber else gn_fill rd s ber
           | _ \<Rightarrow> gn_fill rd s ber)"

text \<open>A caller that calls again until the message is there, at most \<open>n\<close> times.\<close>

fun get_next_calls ::
  "'s layer_read \<Rightarrow> allocator \<Rightarrow> (nat \<Rightarrow> byte list) \<Rightarrow> ber_len_t \<Rightarrow> nat \<Rightarrow> 's \<Rightarrow> bersock \<Rightarrow> getnext \<times> bersock \<times> 's" where
  "get_next_calls rd ma fresh sb_max 0 s ber = (GnDefault EWOULDBLOCK, ber, s)"
| "get_next_calls rd ma fresh sb_max (Suc n) s ber =
     (case ber_get_next rd ma fresh sb_max s ber of
        (GnDefault e, ber, s) \<Rightarrow> if e = ERANGE then (GnDefault e, ber, s) else get_next_calls rd ma fresh sb_max n s ber
      | r \<Rightarrow> r)"

definition fresh_bersock :: bersock where
  "fresh_bersock =
     \<lparr>ber_valid = LBER_VALID_BERELEMENT, ber_options = 0, ber_tag = LBER_DEFAULT, ber_len = 0, ber_usertag = 0,
      ber_buf = [], ber_ptr = 0, ber_end = 0, ber_sos_ptr = None, ber_rwptr = None,
      rd_area = replicate 9 0, rd_ptr = AtHeader 0, rd_rwptr = None\<rparr>"

end
