(* ===== verification/Ber_Reassembly.thy ===== *)
theory Ber_Reassembly
  imports Ber_Input
begin

text \<open>
  \<^verbatim>\<open>ber_get_next\<close> puts a message together however the network cuts it up.  The octets
  of the message that have been consumed are the only thing that matters: an invariant relates
  them to the element between two calls.
\<close>

section \<open>Well-formed messages\<close>

definition shift_in :: "64 word \<Rightarrow> byte \<Rightarrow> 64 word" where
  "shift_in w b = push_bit 8 w OR ucast b"

definition octets_val :: "byte list \<Rightarrow> 64 word" where
  "octets_val bs = foldl shift_in 0 bs"

text \<open>The tags that the parser accepts: one octet, or up to eight where the first one says so.\<close>

definition tag_form :: "byte list \<Rightarrow> bool" where
  "tag_form tb \<longleftrightarrow> tb \<noteq> [] \<and> length tb \<le> 8 \<and>
     (if ucast (hd tb) AND 0x1f = (0x1f :: ber_tag_t)
      then 2 \<le> length tb \<and> (\<forall>i. 0 < i \<and> i < length tb - 1 \<longrightarrow> tb ! i AND 0x80 \<noteq> 0) \<and> last tb AND 0x80 = 0
      else length tb = 1)"

text \<open>The tags that leave room for every length.\<close>

definition tag_ok :: "byte list \<Rightarrow> bool" where
  "tag_ok tb \<longleftrightarrow> tag_form tb \<and> length tb \<le> 4"

text \<open>A length in the short form or in the long form with at most four octets.\<close>

definition len_ok :: "byte list \<Rightarrow> nat \<Rightarrow> bool" where
  "len_ok lb n \<longleftrightarrow>
     (\<exists>b. lb = [b] \<and> b AND 0x80 = 0 \<and> n = unat b) \<or>
     (\<exists>b ks. lb = b # ks \<and> b AND 0x80 \<noteq> 0 \<and> unat (b AND 0x7f) = length ks \<and> length ks \<le> 4 \<and> n = be_val ks)"

lemma octets_val_snoc [simp]: "octets_val (bs @ [b]) = shift_in (octets_val bs) b"
  by (simp add: octets_val_def)

lemma octets_val_single [simp]: "octets_val [b] = ucast b"
  by (simp add: octets_val_def shift_in_def)

lemma octets_val_be_val: "octets_val bs = of_nat (be_val bs)"
proof (induction bs rule: rev_induct)
  case Nil
  show ?case by (simp add: octets_val_def)
next
  case (snoc b bs)
  then show ?case by (simp add: shift_in_def push_or_byte)
qed

lemma and_0x80: "(w :: 'a::len word) AND 0x80 = 0 \<longleftrightarrow> \<not> bit w 7"
  using and_exp_eq_0_iff_not_bit [of w 7] by simp

lemma shift_in_more: "shift_in w b AND 0x80 = 0 \<longleftrightarrow> b AND 0x80 = 0"
  by (simp add: and_0x80 shift_in_def bit_simps)

section \<open>Parsing the header\<close>

text \<open>The octets from \<open>j\<close> on of the first \<open>c\<close> octets of \<open>m\<close> are in the area.\<close>

definition area_has :: "byte list \<Rightarrow> nat \<Rightarrow> nat \<Rightarrow> byte list \<Rightarrow> bool" where
  "area_has area j c m \<longleftrightarrow> (\<forall>i. j \<le> i \<and> i < c \<longrightarrow> area ! i = m ! i)"

lemma take_snoc_val:
  "p < length tb \<Longrightarrow> octets_val (take (Suc p) tb) = shift_in (octets_val (take p tb)) (tb ! p)"
  by (simp add: take_Suc_conv_app_nth)

lemma gn_tag_loop_spec:
  assumes tb: "tag_form tb" "ucast (hd tb) AND 0x1f = (0x1f :: ber_tag_t)"
    and a: "\<And>i. i < rw \<Longrightarrow> i < length tb \<Longrightarrow> area ! i = tb ! i"
    and p: "0 < p" "p \<le> rw" "p < length tb"
  shows "gn_tag_loop area rw p p (octets_val (take p tb)) =
     Inr (octets_val (take (min rw (length tb)) tb), min rw (length tb))"
  using p
proof (induction "length tb - p" arbitrary: p)
  case (Suc k)
  have last: "tb ! (length tb - 1) AND 0x80 = 0" and more: "\<And>i. 0 < i \<Longrightarrow> i < length tb - 1 \<Longrightarrow> tb ! i AND 0x80 \<noteq> 0"
    and len: "length tb \<le> 8" using tb by (auto simp: tag_form_def last_conv_nth split: if_splits)
  show ?case
  proof (cases "p < rw")
    case False
    then have "p = rw" using Suc.prems by simp
    then show ?thesis using Suc.prems by (subst gn_tag_loop.simps) simp
  next
    case True
    have ap: "area ! p = tb ! p" using a True Suc.prems by simp
    have v: "push_bit 8 (octets_val (take p tb)) OR ucast (area ! p) = octets_val (take (Suc p) tb)"
      using take_snoc_val [OF Suc.prems(3)] by (simp add: ap shift_in_def)
    have bit: "octets_val (take (Suc p) tb) AND 0x80 = 0 \<longleftrightarrow> tb ! p AND 0x80 = 0"
      using take_snoc_val [OF Suc.prems(3)] shift_in_more by simp
    show ?thesis
    proof (cases "p = length tb - 1")
      case True
      then have "min rw (length tb) = Suc p" using \<open>p < rw\<close> Suc.prems by simp
      then show ?thesis using \<open>p < rw\<close> v bit last True by (subst gn_tag_loop.simps) (simp add: Let_def)
    next
      case False
      have "gn_tag_loop area rw (Suc p) (Suc p) (octets_val (take (Suc p) tb))
          = Inr (octets_val (take (min rw (length tb)) tb), min rw (length tb))"
        using Suc True False by (intro Suc.hyps(1)) auto
      then show ?thesis using \<open>p < rw\<close> v bit more [of p] False Suc.prems len
        by (subst gn_tag_loop.simps) (simp add: Let_def)
    qed
  qed
qed simp

lemma gn_tag_spec:
  assumes tb: "tag_form tb" and m: "m = tb @ m'" and c: "0 < c"
    and ptr: "rd_ptr ber = AtHeader 0" and a: "area_has (rd_area ber) 0 c m"
  shows "gn_tag c ber = (if c < length tb \<or> (c = length tb \<and> 1 < length tb) then Inl EWOULDBLOCK
     else Inr ((set_ber_tag (octets_val tb) ber)\<lparr>rd_ptr := AtHeader (length tb)\<rparr>))"
proof -
  obtain t ts where t: "tb = t # ts" using tb by (cases tb) (auto simp: tag_form_def)
  have a0: "rd_area ber ! 0 = t" using a c by (simp add: area_has_def m t)
  show ?thesis
  proof (cases "ucast t AND 0x1f = (0x1f :: ber_tag_t)")
    case False
    then have "length tb = 1" using tb by (simp add: tag_form_def t)
    then show ?thesis using False ptr a0 c by (simp add: gn_tag_def t Let_def)
  next
    case True
    have l2: "2 \<le> length tb" using tb True by (simp add: tag_form_def t)
    have "rd_area ber ! i = tb ! i" if "i < c" "i < length tb" for i
      using a that by (simp add: area_has_def m nth_append)
    then have "gn_tag_loop (rd_area ber) c 1 1 (octets_val (take 1 tb)) =
        Inr (octets_val (take (min c (length tb)) tb), min c (length tb))"
      using l2 c by (intro gn_tag_loop_spec [OF tb]) (auto simp: t True)
    then show ?thesis using True ptr a0 l2 by (auto simp: gn_tag_def Let_def t min_def)
  qed
qed

lemma gn_len_loop_val:
  assumes "\<And>i. i < length ks \<Longrightarrow> area ! (p + i) = ks ! i"
  shows "gn_len_loop area p (length ks) w = foldl shift_in w ks"
  using assms
proof (induction ks arbitrary: p w)
  case (Cons k ks)
  have "area ! p = k" using Cons.prems [of 0] by simp
  moreover have "area ! (Suc p + i) = ks ! i" if "i < length ks" for i using Cons.prems [of "Suc i"] that by simp
  ultimately show ?case using Cons.IH [of "Suc p"] by (simp add: shift_in_def)
qed simp

lemma gn_len_spec:
  assumes lb: "len_ok lb n" and m: "m = tb @ lb @ m'" and c: "length tb < c"
    and a: "area_has area (length tb) c m"
  shows "gn_len area (length tb) c =
     (if c < length tb + length lb then Inl EWOULDBLOCK else Inr (of_nat n, length tb + length lb))"
proof -
  have at: "area ! (length tb + i) = lb ! i" if "i < length lb" "length tb + i < c" for i
    using a that by (simp add: area_has_def m nth_append)
  from lb consider b where "lb = [b]" "b AND 0x80 = 0" "n = unat b"
    | b ks where "lb = b # ks" "b AND 0x80 \<noteq> 0" "unat (b AND 0x7f) = length ks" "length ks \<le> 4" "n = be_val ks"
    by (auto simp: len_ok_def)
  then show ?thesis
  proof cases
    case 1
    then show ?thesis using at [of 0] c by (simp add: gn_len_def)
  next
    case 2
    have h: "area ! length tb = b" using at [of 0] c 2 by simp
    show ?thesis
    proof (cases "c < length tb + length lb")
      case True
      then have "c - Suc (length tb) < length ks" using 2(1) c by simp
      then show ?thesis using h 2 True by (simp add: gn_len_def Let_def)
    next
      case False
      have "gn_len_loop area (Suc (length tb)) (length ks) 0 = octets_val ks"
        unfolding octets_val_def using at [of "Suc _"] False 2(1) by (intro gn_len_loop_val) simp
      then show ?thesis using h 2 False by (simp add: gn_len_def Let_def octets_val_be_val)
    qed
  qed
qed


section \<open>The invariant between two calls\<close>

text \<open>\<open>c\<close> octets of the message \<open>tb @ lb @ content\<close> have been consumed: the header is incomplete.\<close>

definition header_inv :: "byte list \<Rightarrow> byte list \<Rightarrow> byte list \<Rightarrow> bersock \<Rightarrow> nat \<Rightarrow> bool" where
  "header_inv tb lb content ber c \<longleftrightarrow>
     length (rd_area ber) = 9 \<and> ber_buf ber = [] \<and> c < length tb + length lb \<and>
     (c = 0 \<and> rd_rwptr ber = None \<or>
      rd_rwptr ber = Some (AtHeader c) \<and>
        (rd_ptr ber = AtHeader 0 \<and> area_has (rd_area ber) 0 c (tb @ lb @ content) \<or>
         rd_ptr ber = AtHeader (length tb) \<and> length tb \<le> c \<and> ber_tag ber = octets_val tb
           \<and> area_has (rd_area ber) (length tb) c (tb @ lb @ content)))"

text \<open>The header is complete, the buffer is not.\<close>

definition buffer_inv :: "byte list \<Rightarrow> byte list \<Rightarrow> byte list \<Rightarrow> bersock \<Rightarrow> nat \<Rightarrow> bool" where
  "buffer_inv tb lb content ber c \<longleftrightarrow>
     (\<exists>k. c = length tb + length lb + k \<and> k < length content \<and> rd_rwptr ber = Some (AtBuf k)
       \<and> ber_tag ber = octets_val tb \<and> ber_len ber = of_nat (length content) \<and> ber_ptr ber = 0
       \<and> ber_end ber = length content \<and> length (ber_buf ber) = length content
       \<and> take k (ber_buf ber) = take k content)"

definition message_read :: "byte list \<Rightarrow> byte list \<Rightarrow> bersock \<Rightarrow> bool" where
  "message_read tb content ber \<longleftrightarrow>
     ber_tag ber = octets_val tb \<and> ber_len ber = of_nat (length content) \<and> ber_buf ber = content
     \<and> ber_ptr ber = 0 \<and> ber_end ber = length content \<and> ber_rwptr ber = None \<and> rd_rwptr ber = None"

definition wf_message :: "byte list \<Rightarrow> byte list \<Rightarrow> byte list \<Rightarrow> byte list \<Rightarrow> bool" where
  "wf_message tb lb content rest \<longleftrightarrow> tag_ok tb \<and> len_ok lb (length content) \<and> content \<noteq> []
     \<and> (8 \<le> length (tb @ lb @ content) \<or> rest = [])"

lemma wf_message_bounds:
  assumes "wf_message tb lb content rest"
  shows "0 < length tb" and "0 < length lb" and "length tb + length lb \<le> 9" and "length content < 2 ^ 32"
proof -
  show "0 < length tb" using assms by (simp add: wf_message_def tag_ok_def tag_form_def)
  show "0 < length lb" using assms by (auto simp: wf_message_def len_ok_def)
  show "length tb + length lb \<le> 9" using assms by (auto simp: wf_message_def tag_ok_def len_ok_def)
  from assms consider b where "length content = unat (b :: byte)"
    | ks where "length content = be_val ks" "length ks \<le> 4"
    by (auto simp: wf_message_def len_ok_def)
  then show "length content < 2 ^ 32"
  proof cases
    case 1
    then show ?thesis using unat_byte_less [of b] by (simp del: unat_byte_less)
  next
    case 2
    have "(256 :: nat) ^ length ks \<le> 256 ^ 4" using 2(2) by (intro power_increasing) auto
    then show ?thesis using be_val_less [of ks] 2(1) by simp
  qed
qed

lemma stream_cut:
  assumes "drop c m @ rest = bs @ q" and "c + length bs \<le> length m"
  shows "bs = take (length bs) (drop c m)" and "q = drop (c + length bs) m @ rest"
proof -
  have "take (length bs) (drop c m @ rest) = bs" "drop (length bs) (drop c m @ rest) = q" using assms(1) by simp_all
  then show "bs = take (length bs) (drop c m)" "q = drop (c + length bs) m @ rest"
    using assms(2) by (simp_all add: add.commute)
qed

lemma area_has_memcpy:
  assumes "area_has area j c m" and "c + length bs \<le> length area" and "c + length bs \<le> length m"
    and "bs = take (length bs) (drop c m)"
  shows "area_has (memcpy area c bs) j (c + length bs) m"
  unfolding area_has_def
proof (intro allI impI)
  fix i assume i: "j \<le> i \<and> i < c + length bs"
  show "memcpy area c bs ! i = m ! i"
  proof (cases "i < c")
    case True
    then show ?thesis using i assms(1,2) by (simp add: memcpy_def nth_append area_has_def)
  next
    case False
    then have ic: "i - c < length bs" "c + (i - c) = i" using i by auto
    have "memcpy area c bs ! i = bs ! (i - c)"
      using False i assms(2) by (auto simp: memcpy_def nth_append)
    also have "\<dots> = take (length bs) (drop c m) ! (i - c)" using assms(4) by simp
    also have "\<dots> = m ! i" using ic assms(3) by simp
    finally show ?thesis .
  qed
qed

text \<open>The state behind the tag, in all cases where parsing goes on.\<close>

definition tag_parsed :: "byte list \<Rightarrow> byte list \<Rightarrow> nat \<Rightarrow> bersock \<Rightarrow> bool" where
  "tag_parsed tb m c ber \<longleftrightarrow> length (rd_area ber) = 9 \<and> ber_buf ber = [] \<and> rd_rwptr ber = Some (AtHeader c)
     \<and> rd_ptr ber = AtHeader (length tb) \<and> length tb \<le> c \<and> ber_tag ber = octets_val tb \<and> area_has (rd_area ber) (length tb) c m"

text \<open>The state between the arrival of octets and the parsing of the tag.\<close>

definition header_ptr :: "byte list \<Rightarrow> byte list \<Rightarrow> nat \<Rightarrow> bersock \<Rightarrow> bool" where
  "header_ptr tb m c ber \<longleftrightarrow>
     rd_ptr ber = AtHeader 0 \<and> area_has (rd_area ber) 0 c m \<or>
     rd_ptr ber = AtHeader (length tb) \<and> length tb \<le> c \<and> ber_tag ber = octets_val tb
       \<and> area_has (rd_area ber) (length tb) c m"

lemma gn_tag_cases:
  assumes tb: "tag_form tb" and c: "0 < c"
    and ber: "length (rd_area ber) = 9" "ber_buf ber = []" "rd_rwptr ber = Some (AtHeader c)"
    and ptr: "header_ptr tb (tb @ lb @ content) c ber"
  shows "gn_tag c ber = Inl EWOULDBLOCK \<and> c \<le> length tb
     \<or> (\<exists>ber'. gn_tag c ber = Inr ber' \<and> tag_parsed tb (tb @ lb @ content) c ber')"
  using ptr unfolding header_ptr_def
proof
  assume p: "rd_ptr ber = AtHeader 0 \<and> area_has (rd_area ber) 0 c (tb @ lb @ content)"
  have t0: "0 < length tb" using tb by (simp add: tag_form_def)
  note g = gn_tag_spec [OF tb refl c conjunct1 [OF p] conjunct2 [OF p]]
  let ?b = "(set_ber_tag (octets_val tb) ber)\<lparr>rd_ptr := AtHeader (length tb)\<rparr>"
  have "area_has (rd_area ?b) (length tb) c (tb @ lb @ content)"
    unfolding area_has_def
  proof (intro allI impI)
    fix i assume i: "length tb \<le> i \<and> i < c"
    then have "i \<noteq> 0" using t0 by linarith
    then show "rd_area ?b ! i = (tb @ lb @ content) ! i" using p i by (simp add: area_has_def set_ber_tag_def)
  qed
  then have "tag_parsed tb (tb @ lb @ content) c ?b" if "length tb \<le> c"
    using that ber by (simp add: tag_parsed_def set_ber_tag_def)
  then show ?thesis using g by (auto simp: not_less)
next
  assume p: "rd_ptr ber = AtHeader (length tb) \<and> length tb \<le> c \<and> ber_tag ber = octets_val tb
           \<and> area_has (rd_area ber) (length tb) c (tb @ lb @ content)"
  have "0 < length tb" using tb by (simp add: tag_form_def)
  then have "gn_tag c ber = Inr ber" using p by (simp add: gn_tag_def)
  then show ?thesis using p ber by (simp add: tag_parsed_def)
qed

lemma header_arrival:
  assumes inv: "header_inv tb lb content ber c" "rd_rwptr ber = Some (AtHeader c)"
    and c: "c \<le> 8" and n: "length bs \<le> gn_room c" and cm: "c + length bs \<le> length (tb @ lb @ content)"
    and st: "drop c (tb @ lb @ content) @ rest = bs @ q"
  defines "b \<equiv> ber\<lparr>rd_area := memcpy (rd_area ber) c bs, rd_rwptr := Some (AtHeader (c + length bs))\<rparr>"
  shows "c + length bs \<le> 9" and "q = drop (c + length bs) (tb @ lb @ content) @ rest"
    and "header_ptr tb (tb @ lb @ content) (c + length bs) b"
    and "length (rd_area b) = 9" and "ber_buf b = []" and "rd_rwptr b = Some (AtHeader (c + length bs))"
proof -
  let ?c = "c + length bs" and ?m = "tb @ lb @ content"
  show c9: "?c \<le> 9" using n c by (auto simp: gn_room_def split: if_splits)
  note bs = stream_cut(1) [OF st cm]
  show "q = drop ?c ?m @ rest" by (rule stream_cut(2) [OF st cm])
  have area: "area_has (memcpy (rd_area ber) c bs) j ?c ?m" if "area_has (rd_area ber) j c ?m" for j
    using that c9 cm bs inv(1) by (intro area_has_memcpy) (auto simp: header_inv_def)
  show "header_ptr tb ?m ?c b"
    using inv area [of 0] area [of "length tb"] by (auto simp: header_inv_def header_ptr_def b_def)
  show "length (rd_area b) = 9" "ber_buf b = []" "rd_rwptr b = Some (AtHeader ?c)"
    using inv(1) c9 by (simp_all add: header_inv_def b_def)
qed

lemma header_inv_again:
  assumes "header_ptr tb (tb @ lb @ content) c ber" and "length (rd_area ber) = 9" and "ber_buf ber = []"
    and "rd_rwptr ber = Some (AtHeader c)" and "c < length tb + length lb"
  shows "header_inv tb lb content ber c"
  using assms by (auto simp: header_inv_def header_ptr_def)

context byte_stream
begin

text \<open>What a call that starts with \<open>c\<close> octets consumed may do.\<close>

definition step_ok :: "byte list \<Rightarrow> byte list \<Rightarrow> byte list \<Rightarrow> byte list \<Rightarrow> nat \<Rightarrow> bool \<Rightarrow> getnext \<times> bersock \<times> 's \<Rightarrow> bool" where
  "step_ok tb lb content rest c lv r \<longleftrightarrow>
     (case r of (res, ber', s') \<Rightarrow> ok s' \<and>
        ((\<exists>e c'. res = GnDefault e \<and> e \<noteq> ERANGE \<and> c \<le> c'
            \<and> (header_inv tb lb content ber' c' \<or> buffer_inv tb lb content ber' c')
            \<and> pending s' = drop c' (tb @ lb @ content) @ rest \<and> (lv \<longrightarrow> live s' \<and> c < c'))
         \<or> res = GnTag (octets_val tb) (of_nat (length content)) \<and> message_read tb content ber' \<and> pending s' = rest))"

lemma step_ok_again:
  assumes "ok s'" and "e \<noteq> ERANGE" and "c \<le> c'"
    and "header_inv tb lb content ber' c' \<or> buffer_inv tb lb content ber' c'"
    and "pending s' = drop c' (tb @ lb @ content) @ rest" and "lv \<Longrightarrow> live s' \<and> c < c'"
  shows "step_ok tb lb content rest c lv (GnDefault e, ber', s')"
  using assms by (auto simp: step_ok_def)

lemma fill_step:
  assumes inv: "buffer_inv tb lb content ber c'" and s: "ok s" and len: "length content < 2 ^ 32"
    and pend: "pending s = drop c' (tb @ lb @ content) @ rest"
    and c: "c \<le> c'" and lv: "lv \<Longrightarrow> live s"
  shows "step_ok tb lb content rest c lv (gn_fill rd s ber)"
proof -
  let ?h = "length tb + length lb"
  obtain k where k: "c' = ?h + k" "k < length content" "rd_rwptr ber = Some (AtBuf k)"
      "ber_tag ber = octets_val tb" "ber_len ber = of_nat (length content)" "ber_ptr ber = 0"
      "ber_end ber = length content" "length (ber_buf ber) = length content" "take k (ber_buf ber) = take k content"
    using inv by (auto simp: buffer_inv_def)
  have pk: "pending s = drop k content @ rest" using pend k(1) by simp
  have n: "0 < length content - k" using k(2) by simp
  from s n show ?thesis
  proof (cases rule: rd_cases)
    case (none ret s')
    then have "gn_fill rd s ber = (GnDefault NoErrno, ber, s')" using k by (simp add: gn_fill_def)
    moreover have "\<not> lv" using none(5) lv pk k(2) by auto
    ultimately show ?thesis using none inv c pend by (simp add: step_ok_again)
  next
    case (some bs s')
    let ?j = "k + length bs" and ?ber = "ber\<lparr>ber_buf := memcpy (ber_buf ber) k bs, rd_rwptr := Some (AtBuf (k + length bs))\<rparr>"
    have j: "?j \<le> length content" using some(3) k(2) by simp
    have "drop k content @ rest = bs @ pending s'" using some(5) pk by simp
    note bs = stream_cut(1) [OF this j] and p' = stream_cut(2) [OF this j]
    have buf: "take ?j (memcpy (ber_buf ber) k bs) = take ?j content"
    proof -
      have "take ?j (memcpy (ber_buf ber) k bs) = take k content @ bs" using k(2,8,9) by simp
      also have "\<dots> = take ?j content" using bs take_add [of k "length bs" content] by simp
      finally show ?thesis .
    qed
    show ?thesis
    proof (cases "?j = length content")
      case True
      then have "gn_fill rd s ber = (GnTag (octets_val tb) (of_nat (length content)), ?ber\<lparr>rd_rwptr := None, ber_rwptr := None\<rparr>, s')"
        using k some by (simp add: gn_fill_def gn_done_def)
      moreover have "memcpy (ber_buf ber) k bs = content"
        using buf True k(8) j by (metis length_memcpy take_all order_refl)
      ultimately show ?thesis using k some(4) p' True by (simp add: step_ok_def message_read_def)
    next
      case False
      then have "gn_fill rd s ber = (GnDefault EWOULDBLOCK, ?ber, s')"
        using k some j by (simp add: gn_fill_def)
      moreover have "buffer_inv tb lb content ?ber (?h + ?j)"
        using k j False buf by (simp add: buffer_inv_def)
      moreover have "c < ?h + ?j" using c k(1) some(2) by (cases bs) auto
      ultimately have "step_ok tb lb content rest c lv (GnDefault EWOULDBLOCK, ?ber, s')"
        using some(4,6) lv p' c k(1) by (intro step_ok_again [where c' = "?h + ?j"]) auto
      then show ?thesis using \<open>gn_fill rd s ber = _\<close> by simp
    qed
  qed
qed


lemma header_complete:
  assumes wf: "wf_message tb lb content rest" and tp: "tag_parsed tb (tb @ lb @ content) c' ber"
    and c': "length tb + length lb \<le> c'" "c' \<le> 9" "c' \<le> length (tb @ lb @ content)"
  shows "take (c' - (length tb + length lb)) (drop (length tb + length lb) (rd_area ber))
      = take (c' - (length tb + length lb)) content"
proof (rule nth_equalityI)
  let ?h = "length tb + length lb"
  show l: "length (take (c' - ?h) (drop ?h (rd_area ber))) = length (take (c' - ?h) content)"
    using tp c' by (simp add: tag_parsed_def)
  fix i assume "i < length (take (c' - ?h) (drop ?h (rd_area ber)))"
  then have i: "i < c' - ?h" by simp
  then have "rd_area ber ! (?h + i) = (tb @ lb @ content) ! (?h + i)" using tp by (simp add: tag_parsed_def area_has_def)
  then show "take (c' - ?h) (drop ?h (rd_area ber)) ! i = take (c' - ?h) content ! i"
    using i tp c' by (simp add: tag_parsed_def nth_append)
qed

text \<open>From the point where the tag is known to the end of the call.\<close>

lemma after_tag:
  assumes wf: "wf_message tb lb content rest" and tp: "tag_parsed tb (tb @ lb @ content) c' ber"
    and c': "c < c'" "c' \<le> 9" "c' \<le> length (tb @ lb @ content)"
    and s: "ok s" "pending s = drop c' (tb @ lb @ content) @ rest" "lv \<Longrightarrow> live s"
    and mem: "ma (length content + 1)" "\<And>n. length (fresh n) = n"
    and mx: "mx = 0 \<or> of_nat (length content) \<le> mx"
  shows "step_ok tb lb content rest c lv (gn_contents rd ma fresh mx s c' ber)"
    (is "step_ok _ _ _ _ _ _ ?run")
proof -
  let ?h = "length tb + length lb" and ?L = "length content"
  note b = wf_message_bounds [OF wf]
  have tp': "rd_ptr ber = AtHeader (length tb)" "length tb \<le> c'" "area_has (rd_area ber) (length tb) c' (tb @ lb @ content)"
    using tp by (simp_all add: tag_parsed_def)
  have len: "len_ok lb ?L" "content \<noteq> []" using wf by (simp_all add: wf_message_def)
  show ?thesis
  proof (cases "c' < ?h")
    case True
    then have "header_inv tb lb content ber c'" using tp by (auto simp: tag_parsed_def header_inv_def)
    then have again: "step_ok tb lb content rest c lv (GnDefault EWOULDBLOCK, ber, s)"
      using s c'(1) by (intro step_ok_again) auto
    have "?run = (GnDefault EWOULDBLOCK, ber, s)"
    proof (cases "length tb = c'")
      case False
      then show ?thesis using gn_len_spec [OF len(1) refl _ tp'(3)] tp' True by (simp add: gn_contents_def rd_offset_def)
    qed (simp add: gn_contents_def rd_offset_def tp')
    then show ?thesis using again by simp
  next
    case False
    let ?n = "c' - ?h"
    have g: "gn_len (rd_area ber) (length tb) c' = Inr (of_nat ?L, ?h)"
      using gn_len_spec [OF len(1) refl _ tp'(3)] False b(2) by simp
    have sblen: "(if ?h < 9 then (if c' < 9 then c' - ?h else 9 - ?h) else 0) = ?n" using c'(2) b(3) False by auto
    have n: "?n \<le> ?L" using c'(3) by simp
    have u: "unat (of_nat ?L :: ber_len_t) = ?L" "unat (of_nat ?L + 1 :: ber_len_t) = ?L + 1"
      "(of_nat ?L :: ber_len_t) \<noteq> 0" "\<not> (of_nat ?L :: ber_len_t) < of_nat ?n" "(of_nat ?n :: ber_len_t) = of_nat ?L \<longleftrightarrow> ?n = ?L"
    proof -
      show u1: "unat (of_nat ?L :: ber_len_t) = ?L" using b(4) by (intro unat_of_nat64) simp
      have "unat (of_nat (?L + 1) :: ber_len_t) = ?L + 1" using b(4) by (intro unat_of_nat64) simp
      then show "unat (of_nat ?L + 1 :: ber_len_t) = ?L + 1" by (simp add: add.commute)
      have un: "unat (of_nat ?n :: ber_len_t) = ?n" using b(4) n by (intro unat_of_nat64) simp
      show "(of_nat ?L :: ber_len_t) \<noteq> 0" using u1 len(2) by (metis length_0_conv unat_0)
      show "\<not> (of_nat ?L :: ber_len_t) < of_nat ?n" using u1 un n by (simp add: word_less_nat_alt)
      show "(of_nat ?n :: ber_len_t) = of_nat ?L \<longleftrightarrow> ?n = ?L" using u1 un by metis
    qed
    let ?ber = "(set_ber_len (of_nat ?L) (ber\<lparr>rd_ptr := AtHeader (?h + ?n)\<rparr>))
        \<lparr>ber_buf := memcpy (fresh ?L) 0 (take ?n content), ber_end := ?L, rd_ptr := AtBuf 0, ber_ptr := 0, ber_usertag := 0\<rparr>"
    have cut: "take ?n (drop ?h (rd_area ber)) = take ?n content"
      using header_complete [OF wf tp _ c'(2,3)] False by simp
    have run: "?run = (if ?n = ?L then (case gn_done ?ber of (r, ber) \<Rightarrow> (r, ber, s))
        else gn_fill rd s (?ber\<lparr>rd_rwptr := Some (AtBuf ?n)\<rparr>))"
      using tp'(1) g sblen u mem(1) mx cut False b(2)
      by (auto simp: gn_contents_def rd_offset_def Let_def ber_memalloc_x_def)
    show ?thesis
    proof (cases "?n = ?L")
      case True
      then have "memcpy (fresh ?L) 0 (take ?n content) = content" using mem(2) by (simp add: memcpy_def)
      moreover have "pending s = rest" using s(2) True False n by simp
      ultimately have "step_ok tb lb content rest c lv (case gn_done ?ber of (r, ber) \<Rightarrow> (r, ber, s))"
        using tp s(1) by (simp add: step_ok_def gn_done_def message_read_def set_ber_len_def tag_parsed_def)
      then show ?thesis using run True by simp
    next
      case neq: False
      have "buffer_inv tb lb content (?ber\<lparr>rd_rwptr := Some (AtBuf ?n)\<rparr>) c'"
        using tp n neq False mem(2) by (simp add: buffer_inv_def set_ber_len_def tag_parsed_def memcpy_def)
      then have "step_ok tb lb content rest c lv (gn_fill rd s (?ber\<lparr>rd_rwptr := Some (AtBuf ?n)\<rparr>))"
        using s c'(1) b(4) by (intro fill_step) auto
      then show ?thesis using run neq by simp
    qed
  qed
qed


lemma header_step:
  assumes wf: "wf_message tb lb content rest"
    and inv: "header_inv tb lb content ber c" "rd_rwptr ber = Some (AtHeader c)"
    and s: "ok s" "pending s = drop c (tb @ lb @ content) @ rest" "lv \<Longrightarrow> live s"
    and mem: "ma (length content + 1)" "\<And>n. length (fresh n) = n"
    and mx: "mx = 0 \<or> of_nat (length content) \<le> mx"
  shows "step_ok tb lb content rest c lv (gn_header rd ma fresh mx s c ber)"
proof -
  let ?m = "tb @ lb @ content"
  note b = wf_message_bounds [OF wf]
  have tb: "tag_form tb" using wf by (simp add: wf_message_def tag_ok_def)
  have c: "c < length tb + length lb" "c < length ?m" "c \<le> 8" using inv b by (auto simp: header_inv_def)
  have n: "0 < gn_room c" by (simp add: gn_room_def)
  from s(1) n show ?thesis
  proof (cases rule: rd_cases)
    case (none ret s')
    then have "gn_header rd ma fresh mx s c ber = (GnDefault NoErrno, ber, s')"
      by (simp add: gn_header_def)
    moreover have "\<not> lv" using none(5) s(2,3) c(2) by auto
    moreover have "step_ok tb lb content rest c lv (GnDefault NoErrno, ber, s')"
      using none(3,4) inv s(2) \<open>\<not> lv\<close> by (intro step_ok_again [where c' = c]) auto
    ultimately show ?thesis by simp
  next
    case (some bs s')
    let ?c = "c + length bs"
    let ?ber = "ber\<lparr>rd_area := memcpy (rd_area ber) c bs, rd_rwptr := Some (AtHeader ?c)\<rparr>"
    have cm: "?c \<le> length ?m"
    proof (cases "rest = []")
      case True
      then have "drop c ?m = bs @ pending s'" using some(5) s(2) by simp
      then have "length bs \<le> length (drop c ?m)" by simp
      then show ?thesis using c(2) by simp
    next
      case False
      then have "8 \<le> length ?m" using wf by (simp add: wf_message_def)
      then show ?thesis using some(3) c(2,3) by (auto simp: gn_room_def split: if_splits)
    qed
    have "drop c ?m @ rest = bs @ pending s'" using some(5) s(2) by simp
    note arr = header_arrival [OF inv c(3) some(3) cm this]
    have c0: "0 < ?c" "c < ?c" using some(2) by simp_all
    from gn_tag_cases [OF tb c0(1) arr(4,5,6,3)] show ?thesis
    proof
      assume t: "gn_tag ?c ?ber = Inl EWOULDBLOCK \<and> ?c \<le> length tb"
      then have "gn_header rd ma fresh mx s c ber = (GnDefault EWOULDBLOCK, ?ber, s')"
        using some by (simp add: gn_header_def)
      moreover have "header_inv tb lb content ?ber ?c"
        using conjunct2 [OF t] b(2) by (intro header_inv_again arr(3-6)) linarith
      moreover from this have "step_ok tb lb content rest c lv (GnDefault EWOULDBLOCK, ?ber, s')"
        using some(4,6) s(3) arr(2) c0(2) by (intro step_ok_again [where c' = ?c]) auto
      ultimately show ?thesis by simp
    next
      assume "\<exists>ber'. gn_tag ?c ?ber = Inr ber' \<and> tag_parsed tb ?m ?c ber'"
      then obtain ber' where t: "gn_tag ?c ?ber = Inr ber'" "tag_parsed tb ?m ?c ber'" by blast
      show ?thesis
        using after_tag [where fresh = fresh and ma = ma and lv = lv, OF wf t(2) c0(2) arr(1) cm some(4) arr(2) _ mem mx]
          some(1,2,6) s(3) t(1) by (simp add: gn_header_def)
    qed
  qed
qed

text \<open>One call of \<^verbatim>\<open>ber_get_next\<close>.\<close>

lemma get_next_step:
  assumes wf: "wf_message tb lb content rest"
    and inv: "header_inv tb lb content ber c \<or> buffer_inv tb lb content ber c"
    and s: "ok s" "pending s = drop c (tb @ lb @ content) @ rest" "lv \<Longrightarrow> live s"
    and mem: "ma (length content + 1)" "\<And>n. length (fresh n) = n"
    and mx: "mx = 0 \<or> of_nat (length content) \<le> mx"
  shows "step_ok tb lb content rest c lv (ber_get_next rd ma fresh mx s ber)"
  using inv
proof
  assume h: "header_inv tb lb content ber c"
  note b = wf_message_bounds [OF wf]
  let ?ber = "if rd_rwptr ber = None then (set_ber_tag 0 ber)\<lparr>rd_rwptr := Some (AtHeader 0), rd_ptr := AtHeader 0\<rparr> else ber"
  have "header_inv tb lb content ?ber c" "rd_rwptr ?ber = Some (AtHeader c)"
    using h b by (auto simp: header_inv_def set_ber_tag_def area_has_def)
  moreover from this have "ber_get_next rd ma fresh mx s ber = gn_header rd ma fresh mx s c ?ber"
    using h b by (auto simp: ber_get_next_def header_inv_def Let_def)
  ultimately show ?thesis using header_step [where fresh = fresh and ma = ma and lv = lv, OF wf _ _ s mem mx] by simp
next
  assume h: "buffer_inv tb lb content ber c"
  then have "ber_get_next rd ma fresh mx s ber = gn_fill rd s ber"
    by (auto simp: ber_get_next_def buffer_inv_def)
  then show ?thesis using fill_step [OF h s(1) wf_message_bounds(4) [OF wf] s(2) order_refl s(3)] by simp
qed

lemma calls_outcome:
  assumes wf: "wf_message tb lb content rest"
    and inv: "header_inv tb lb content ber c \<or> buffer_inv tb lb content ber c"
    and s: "ok s" "pending s = drop c (tb @ lb @ content) @ rest"
    and mem: "ma (length content + 1)" "\<And>n. length (fresh n) = n"
    and mx: "mx = 0 \<or> of_nat (length content) \<le> mx"
    and r: "get_next_calls rd ma fresh mx n s ber = (res, ber', s')"
  shows "(\<exists>e c'. res = GnDefault e \<and> e \<noteq> ERANGE \<and> c \<le> c' \<and> pending s' = drop c' (tb @ lb @ content) @ rest
        \<and> (header_inv tb lb content ber' c' \<or> buffer_inv tb lb content ber' c') \<and> (live s \<longrightarrow> c + n \<le> c'))
     \<or> res = GnTag (octets_val tb) (of_nat (length content)) \<and> message_read tb content ber' \<and> pending s' = rest"
  using inv s r
proof (induction n arbitrary: ber c s)
  case 0
  then show ?case by auto
next
  case (Suc n)
  obtain res1 ber1 s1 where g: "ber_get_next rd ma fresh mx s ber = (res1, ber1, s1)" by (metis prod_cases3)
  have st: "step_ok tb lb content rest c (live s) (res1, ber1, s1)"
    using get_next_step [where fresh = fresh and ma = ma and lv = "live s", OF wf Suc.prems(1,2,3) _ mem mx] unfolding g by blast
  have ok1: "ok s1" using st by (simp add: step_ok_def)
  from st consider e c1 where "res1 = GnDefault e" "e \<noteq> ERANGE" "c \<le> c1"
      "header_inv tb lb content ber1 c1 \<or> buffer_inv tb lb content ber1 c1"
      "pending s1 = drop c1 (tb @ lb @ content) @ rest" "live s \<longrightarrow> live s1 \<and> c < c1"
    | "res1 = GnTag (octets_val tb) (of_nat (length content))" "message_read tb content ber1" "pending s1 = rest"
    unfolding step_ok_def prod.case by blast
  then show ?case
  proof cases
    case 1
    have "get_next_calls rd ma fresh mx n s1 ber1 = (res, ber', s')" using Suc.prems(4) g 1(1,2) by simp
    from Suc.IH [OF 1(4) ok1 1(5) this] show ?thesis
    proof
      assume "\<exists>e c'. res = GnDefault e \<and> e \<noteq> ERANGE \<and> c1 \<le> c' \<and> pending s' = drop c' (tb @ lb @ content) @ rest
        \<and> (header_inv tb lb content ber' c' \<or> buffer_inv tb lb content ber' c') \<and> (live s1 \<longrightarrow> c1 + n \<le> c')"
      then obtain e c' where r: "res = GnDefault e" "e \<noteq> ERANGE" "c1 \<le> c'" "pending s' = drop c' (tb @ lb @ content) @ rest"
          "header_inv tb lb content ber' c' \<or> buffer_inv tb lb content ber' c'" "live s1 \<longrightarrow> c1 + n \<le> c'" by blast
      have "c \<le> c'" "live s \<longrightarrow> c + Suc n \<le> c'" using r(3,6) 1(3,6) by auto
      then show ?thesis using r(1,2,4,5) by blast
    qed blast
  next
    case 2
    then show ?thesis using Suc.prems(4) g by simp
  qed
qed

text \<open>
  A header of more than nine octets: every call that finds octets stores them in the area and
  asks to be called again, until the area is full.
\<close>

lemma overlong_step:
  assumes tb: "tag_form tb" and lb: "len_ok lb k" and big: "9 < length tb + length lb"
    and inv: "header_inv tb lb [] ber c" "rd_rwptr ber = Some (AtHeader c)" and c: "c < 9"
    and s: "ok s" "pending s = drop c (tb @ lb) @ rest" "live s"
  shows "\<exists>ber' c' s'. gn_header rd ma fresh mx s c ber = (GnDefault EWOULDBLOCK, ber', s')
     \<and> c < c' \<and> c' \<le> 9 \<and> header_inv tb lb [] ber' c' \<and> rd_rwptr ber' = Some (AtHeader c')
     \<and> ok s' \<and> pending s' = drop c' (tb @ lb) @ rest \<and> live s'"
proof -
  let ?m = "tb @ lb @ []"
  have n: "0 < gn_room c" and c8: "c \<le> 8" using c by (simp_all add: gn_room_def)
  from s(1) n show ?thesis
  proof (cases rule: rd_cases)
    case (none ret s')
    then show ?thesis using s(2,3) c big by auto
  next
    case (some bs s')
    let ?c = "c + length bs"
    let ?ber = "ber\<lparr>rd_area := memcpy (rd_area ber) c bs, rd_rwptr := Some (AtHeader ?c)\<rparr>"
    have cm: "?c \<le> length ?m" using some(3) c big by (auto simp: gn_room_def split: if_splits)
    have "drop c ?m @ rest = bs @ pending s'" using some(5) s(2) by simp
    note arr = header_arrival [OF inv c8 some(3) cm this]
    have c0: "0 < ?c" "c < ?c" using some(2) by simp_all
    have goal: ?thesis if "gn_header rd ma fresh mx s c ber = (GnDefault EWOULDBLOCK, b, s')"
        "header_inv tb lb [] b ?c" "rd_rwptr b = Some (AtHeader ?c)" for b
      using that c0(2) arr(1,2) c some(4,6) s(3) by (intro exI [of _ b] exI [of _ ?c] exI [of _ s']) simp
    from gn_tag_cases [OF tb c0(1) arr(4,5,6,3)] show ?thesis
    proof
      assume t: "gn_tag ?c ?ber = Inl EWOULDBLOCK \<and> ?c \<le> length tb"
      have "header_inv tb lb [] ?ber ?c" using arr big c by (intro header_inv_again) auto
      then show ?thesis using t some(1,2) by (intro goal [of ?ber]) (simp_all add: gn_header_def)
    next
      assume "\<exists>ber'. gn_tag ?c ?ber = Inr ber' \<and> tag_parsed tb ?m ?c ber'"
      then obtain b where t: "gn_tag ?c ?ber = Inr b" "tag_parsed tb ?m ?c b" by blast
      have "gn_contents rd ma fresh mx s' ?c b = (GnDefault EWOULDBLOCK, b, s')"
      proof (cases "length tb = ?c")
        case False
        then have "gn_len (rd_area b) (length tb) ?c = Inl EWOULDBLOCK"
          using gn_len_spec [OF lb, of ?m tb "[]" ?c "rd_area b"] t(2) arr(1) big c by (simp add: tag_parsed_def)
        then show ?thesis using t(2) False by (simp add: gn_contents_def tag_parsed_def rd_offset_def)
      qed (use t(2) in \<open>simp add: gn_contents_def tag_parsed_def rd_offset_def\<close>)
      moreover have "header_inv tb lb [] b ?c" "rd_rwptr b = Some (AtHeader ?c)"
        using t(2) arr(1) big c by (auto simp: tag_parsed_def header_inv_def)
      ultimately show ?thesis using t(1) some(1,2) by (intro goal [of b]) (simp_all add: gn_header_def)
    qed
  qed
qed

lemma overlong_calls:
  assumes tb: "tag_form tb" and lb: "len_ok lb k" and big: "9 < length tb + length lb"
  shows "header_inv tb lb [] ber c \<Longrightarrow> c \<le> 9 \<Longrightarrow> ok s \<Longrightarrow> pending s = drop c (tb @ lb) @ rest \<Longrightarrow> live s
     \<Longrightarrow> 9 - c < n \<Longrightarrow> fst (get_next_calls rd ma fresh mx n s ber) = GnAssert"
proof (induction n arbitrary: ber c s)
  case (Suc n)
  show ?case
  proof (cases "c = 9")
    case True
    then have "rd_rwptr ber = Some (AtHeader 9)" using Suc.prems(1) by (auto simp: header_inv_def)
    then have "ber_get_next rd ma fresh mx s ber = (GnAssert, ber, s)" by (simp add: ber_get_next_def gn_fill_def)
    then show ?thesis by simp
  next
    case False
    then have c: "c < 9" using Suc.prems(2) by simp
    let ?ber = "if rd_rwptr ber = None then (set_ber_tag 0 ber)\<lparr>rd_rwptr := Some (AtHeader 0), rd_ptr := AtHeader 0\<rparr> else ber"
    have h: "header_inv tb lb [] ?ber c" "rd_rwptr ?ber = Some (AtHeader c)"
      using Suc.prems(1) by (auto simp: header_inv_def set_ber_tag_def area_has_def)
    moreover from this have g: "ber_get_next rd ma fresh mx s ber = gn_header rd ma fresh mx s c ?ber"
      using Suc.prems(1) c by (auto simp: ber_get_next_def header_inv_def Let_def)
    obtain b c' s' where o: "ber_get_next rd ma fresh mx s ber = (GnDefault EWOULDBLOCK, b, s')" "c < c'" "c' \<le> 9"
        "header_inv tb lb [] b c'" "ok s'" "pending s' = drop c' (tb @ lb) @ rest" "live s'"
      using overlong_step [OF tb lb big h c Suc.prems(3,4,5), of ma fresh mx] g by auto
    have "fst (get_next_calls rd ma fresh mx n s' b) = GnAssert"
      using Suc.prems(6) o(2,3) c by (intro Suc.IH [OF o(4,3,5,6,7)]) linarith
    then show ?thesis using o(1) by simp
  qed
qed simp

end

section \<open>Properties\<close>

lemma fresh_header_inv:
  "wf_message tb lb content rest \<Longrightarrow> header_inv tb lb content fresh_bersock 0"
  using wf_message_bounds(1) by (auto simp: header_inv_def fresh_bersock_def)

lemma inv_incomplete:
  "header_inv tb lb content ber c \<or> buffer_inv tb lb content ber c \<Longrightarrow> c < length tb + length lb + length content \<or> content = []"
  by (auto simp: header_inv_def buffer_inv_def)

lemma calls_reassemble:
  assumes wf: "wf_message tb lb content rest"
    and p: "buf_ok p" "unread p @ tcp_in sd = tb @ lb @ content @ rest"
    and mem: "ma (length content + 1)" "\<forall>n. length (fresh n) = n"
    and mx: "mx = 0 \<or> of_nat (length content) \<le> mx"
    and r: "get_next_calls (sb_rdahead_read sb_stream_read) ma fresh mx n (p, sd) fresh_bersock = (res, ber, p', sd')"
  shows "((\<exists>e. res = GnDefault e \<and> e \<noteq> ERANGE)
        \<or> res = GnTag (octets_val tb) (of_nat (length content)) \<and> message_read tb content ber
          \<and> unread p' @ tcp_in sd' = rest)
     \<and> (tcp_live sd \<and> length (tb @ lb @ content) \<le> n \<longrightarrow> res = GnTag (octets_val tb) (of_nat (length content)))"
proof -
  have ne: "content \<noteq> []" using wf by (simp add: wf_message_def)
  have pend: "unread (fst (p, sd)) @ tcp_in (snd (p, sd)) = drop 0 (tb @ lb @ content) @ rest" using p(2) by simp
  have fr: "\<And>n. length (fresh n) = n" using mem(2) by blast
  have "buf_ok (fst (p, sd)) \<and> True" using p(1) by simp
  from ahead.calls_outcome [where ma = ma and fresh = fresh, OF wf disjI1 [OF fresh_header_inv [OF wf]] this pend mem(1) fr mx r]
  show ?thesis
  proof
    assume "\<exists>e c'. res = GnDefault e \<and> e \<noteq> ERANGE \<and> 0 \<le> c' \<and> unread (fst (p', sd')) @ tcp_in (snd (p', sd'))
        = drop c' (tb @ lb @ content) @ rest
      \<and> (header_inv tb lb content ber c' \<or> buffer_inv tb lb content ber c') \<and> (tcp_live (snd (p, sd)) \<longrightarrow> 0 + n \<le> c')"
    then obtain e c' where "res = GnDefault e" "e \<noteq> ERANGE"
        "header_inv tb lb content ber c' \<or> buffer_inv tb lb content ber c'" "tcp_live sd \<longrightarrow> n \<le> c'" by auto
    then show ?thesis using inv_incomplete [of tb lb content ber c'] ne by auto
  qed auto
qed

text \<open>
  C34: \<^verbatim>\<open>ber_get_next\<close>, over the read-ahead layer and a socket, puts together every well-formed
  message (a tag of up to four octets, a length of up to five, contents that are not empty, allowed by
  \<^verbatim>\<open>sb_max_incoming\<close> and by memory, and at least eight octets in all if more follows), however
  the octets arrive.  After any number of calls the result is either the message itself, with exactly its
  octets consumed, or a request to call again.  If every read finds at least one octet, then
  at most as many calls as the message has octets return the message.
\<close>

theorem ber_get_next_reassembles:
  assumes wf: "wf_message tb lb content rest"
    and p: "buf_ok p" "unread p @ tcp_in sd = tb @ lb @ content @ rest"
    and mem: "ma (length content + 1)" "\<forall>n. length (fresh n) = n"
    and mx: "mx = 0 \<or> of_nat (length content) \<le> mx"
    and r: "get_next_calls (sb_rdahead_read sb_stream_read) ma fresh mx n (p, sd) fresh_bersock = (res, ber, p', sd')"
  shows "((\<exists>e. res = GnDefault e \<and> e \<noteq> ERANGE)
        \<or> res = GnTag (octets_val tb) (of_nat (length content)) \<and> message_read tb content ber
          \<and> unread p' @ tcp_in sd' = rest)
     \<and> (tcp_live sd \<and> length (tb @ lb @ content) \<le> n \<longrightarrow> res = GnTag (octets_val tb) (of_nat (length content)))"
  by (rule calls_reassemble [OF assms])

theorem ber_get_next_reassembles_witness:
  "fst (get_next_calls (sb_rdahead_read sb_stream_read) (\<lambda>n. True) (\<lambda>n. replicate n 0) 0 8
      (\<lparr>buf_base = [0x30, 0, 0], buf_ptr = 0, buf_end = 1\<rparr>,
       \<lparr>tcp_in = [6, 2, 1, 1, 0x42, 0, 7, 9], tcp_arrivals = replicate 8 1\<rparr>) fresh_bersock)
     = GnTag (octets_val [0x30]) (of_nat (length [2, 1, 1, 0x42, 0, 7 :: byte]))"
proof -
  let ?p = "\<lparr>buf_base = [0x30, 0, 0], buf_ptr = 0, buf_end = 1\<rparr> :: sockbuf_buf"
    and ?sd = "\<lparr>tcp_in = [6, 2, 1, 1, 0x42, 0, 7, 9], tcp_arrivals = replicate 8 1\<rparr> :: tcp_socket"
  obtain res ber p' sd' where r: "get_next_calls (sb_rdahead_read sb_stream_read) (\<lambda>n. True) (\<lambda>n. replicate n 0) 0 8
      (?p, ?sd) fresh_bersock = (res, ber, p', sd')"
    by (metis prod_cases4)
  have "wf_message [0x30] [6] [2, 1, 1, 0x42, 0, 7] [9]" by (simp add: wf_message_def tag_ok_def tag_form_def len_ok_def)
  from ber_get_next_reassembles [OF this _ _ _ _ _ r] have "res = GnTag (octets_val [0x30]) (of_nat (length [2, 1, 1, 0x42, 0, 7 :: byte]))"
    by (simp add: buf_ok_def buf_size_def unread_def tcp_live_def)
  then show ?thesis using r by simp
qed

text \<open>
  C35: a peer can run \<^verbatim>\<open>ber_get_next\<close> into its final assertion.  The code accepts tags of up to eight
  octets and lengths of up to five, but reserves nine octets for both together.  Every message whose tag and
  length need more than that, whatever follows, whatever the read-ahead buffer holds, however the octets arrive
  (every read finds at least one) and whatever limit is set, fills the area before the
  length is complete; the call after that finds no buffer and fails the assertion, at the latest the tenth.
\<close>

theorem ber_get_next_assertion:
  assumes "tag_form tb" and "len_ok lb k" and "9 < length tb + length lb"
    and "buf_ok p" and "unread p @ tcp_in sd = tb @ lb @ rest" and "tcp_live sd" and "10 \<le> n"
  shows "fst (get_next_calls (sb_rdahead_read sb_stream_read) ma fresh mx n (p, sd) fresh_bersock) = GnAssert"
proof -
  have "header_inv tb lb [] fresh_bersock 0" using assms(3) by (auto simp: header_inv_def fresh_bersock_def)
  then show ?thesis using assms(4-7) by (intro ahead.overlong_calls [OF assms(1-3)]) auto
qed

theorem ber_get_next_assertion_witness:
  "fst (get_next_calls (sb_rdahead_read sb_stream_read) (\<lambda>n. True) (\<lambda>n. replicate n 0) 0 10
      (\<lparr>buf_base = [0x3f, 0, 0], buf_ptr = 0, buf_end = 1\<rparr>,
       \<lparr>tcp_in = [0x81, 0x81, 0x81, 1, 0x84, 0, 0, 0, 3, 1, 2, 3], tcp_arrivals = replicate 12 2\<rparr>) fresh_bersock) = GnAssert"
proof -
  have "i = 1 \<or> i = 2 \<or> i = 3" if "0 < i \<and> i < 4" for i :: nat using that by linarith
  then have "tag_form [0x3f, 0x81, 0x81, 0x81, 1]" by (fastforce simp: tag_form_def)
  moreover have "len_ok [0x84, 0, 0, 0, 3] (be_val [0, 0, 0, 3])" by (simp add: len_ok_def)
  ultimately show ?thesis
    by (rule ber_get_next_assertion [where rest = "[1, 2, 3]"])
       (simp_all add: buf_ok_def buf_size_def unread_def tcp_live_def)
qed

end
