(* ===== verification/Ber_Flush.thy ===== *)
theory Ber_Flush
  imports Ber_Reassembly
begin

text \<open>
  The output side: \<^verbatim>\<open>ber_flush2\<close> and \<^verbatim>\<open>ber_free\<close> of \<^verbatim>\<open>liblber/io.c\<close> over \<^verbatim>\<open>ber_int_sb_write\<close> of \<^verbatim>\<open>sockbuf.c\<close>.
  A write function gets its state and the octets and returns the C return value, whether \<^verbatim>\<open>errno\<close> is \<^verbatim>\<open>EINTR\<close>, and
  the new state.
\<close>

section \<open>Writing to a socket\<close>

type_synonym 's layer_write = "'s \<Rightarrow> byte list \<Rightarrow> int \<times> bool \<times> 's"

text \<open>A call that is interrupted is repeated, for ever if need be.\<close>

partial_function (option) ber_int_sb_write :: "'s layer_write \<Rightarrow> 's \<Rightarrow> byte list \<Rightarrow> (int \<times> 's) option" where
  "ber_int_sb_write sbi_write sb buf =
     (case sbi_write sb buf of
        (ret, eintr, sb) \<Rightarrow> if ret < 0 \<and> eintr then ber_int_sb_write sbi_write sb buf else Some (ret, sb))"

text \<open>
  A stream socket: the octets it has accepted, and what the coming calls of \<^verbatim>\<open>write\<close> do: be interrupted (\<open>None\<close>), or
  accept at most so many octets (0: the call would block and fails).
\<close>

record tcp_sender =
  tcp_out :: "byte list"
  tcp_room :: "nat option list"

definition sb_stream_write :: "tcp_sender layer_write" where
  "sb_stream_write sd buf =
     (case tcp_room sd of
        [] \<Rightarrow> (-1, False, sd)
      | None # as \<Rightarrow> (-1, True, sd\<lparr>tcp_room := as\<rparr>)
      | Some a # as \<Rightarrow>
          let bs = take a buf
          in (if bs = [] then -1 else int (length bs), False, sd\<lparr>tcp_out := tcp_out sd @ bs, tcp_room := as\<rparr>))"

section \<open>Flushing\<close>

definition LBER_FLUSH_FREE_NEVER :: "32 word" where "LBER_FLUSH_FREE_NEVER = 0x0"
definition LBER_FLUSH_FREE_ON_SUCCESS :: "32 word" where "LBER_FLUSH_FREE_ON_SUCCESS = 0x1"
definition LBER_FLUSH_FREE_ON_ERROR :: "32 word" where "LBER_FLUSH_FREE_ON_ERROR = 0x2"

text \<open>
  \<^verbatim>\<open>ber_free\<close>: what is left of the element.  \<open>Inl\<close> is a freed element, with the buffer that stays allocated.
\<close>

definition ber_free :: "berelement \<Rightarrow> bool \<Rightarrow> byte list + berelement" where
  "ber_free ber freebuf = Inl (ber_buf (if freebuf then ber_free_buf ber else ber))"

text \<open>
  The loop: whether everything was written, and where it stopped.  A write function that never returns, or claims to have
  written more than it was given, is \<open>None\<close>.
\<close>

function flush_loop :: "('s \<Rightarrow> byte list \<Rightarrow> (int \<times> 's) option) \<Rightarrow> byte list \<Rightarrow> nat \<Rightarrow> nat \<Rightarrow> 's \<Rightarrow> (bool \<times> nat \<times> 's) option" where
  "flush_loop w buf rw towrite sb =
     (if towrite > 0 then
        (case w sb (take towrite (drop rw buf)) of
           None \<Rightarrow> None
         | Some (rc, sb) \<Rightarrow>
             if rc \<le> 0 then Some (False, rw, sb)
             else if nat rc > towrite then None
             else flush_loop w buf (rw + nat rc) (towrite - nat rc) sb)
      else Some (True, rw, sb))"
  by pat_completeness auto
termination by (relation "measure (\<lambda>(w, buf, rw, towrite, sb). towrite)") auto

declare flush_loop.simps [simp del]

definition ber_flush2 ::
  "('s \<Rightarrow> byte list \<Rightarrow> (int \<times> 's) option) \<Rightarrow> 's \<Rightarrow> berelement \<Rightarrow> 32 word \<Rightarrow> (int \<times> (byte list + berelement) \<times> 's) option" where
  "ber_flush2 w sb ber freeit =
     (if ber_valid ber \<noteq> LBER_VALID_BERELEMENT then None
      else
        let rw = (case ber_rwptr ber of None \<Rightarrow> 0 | Some rw \<Rightarrow> rw)
        in if ber_ptr ber < rw then None
           else
             (case flush_loop w (ber_buf ber) rw (ber_ptr ber - rw) sb of
                None \<Rightarrow> None
              | Some (fin, rw, sb) \<Rightarrow>
                  let ber = ber\<lparr>ber_rwptr := Some rw\<rparr>
                  in if \<not> fin then
                       Some (-1, if freeit AND LBER_FLUSH_FREE_ON_ERROR \<noteq> 0 then ber_free ber True else Inr ber, sb)
                     else Some (0, if freeit AND LBER_FLUSH_FREE_ON_SUCCESS \<noteq> 0 then ber_free ber True else Inr ber, sb)))"

definition ber_flush ::
  "('s \<Rightarrow> byte list \<Rightarrow> (int \<times> 's) option) \<Rightarrow> 's \<Rightarrow> berelement \<Rightarrow> bool \<Rightarrow> (int \<times> (byte list + berelement) \<times> 's) option" where
  "ber_flush w sb ber freeit =
     ber_flush2 w sb ber (if freeit then LBER_FLUSH_FREE_ON_SUCCESS else LBER_FLUSH_FREE_NEVER)"

text \<open>A caller that flushes again until it succeeds, at most \<open>n + 1\<close> times.\<close>

fun flush_calls ::
  "('s \<Rightarrow> byte list \<Rightarrow> (int \<times> 's) option) \<Rightarrow> nat \<Rightarrow> 's \<Rightarrow> berelement \<Rightarrow> (int \<times> (byte list + berelement) \<times> 's) option" where
  "flush_calls w 0 sb ber = ber_flush2 w sb ber LBER_FLUSH_FREE_NEVER"
| "flush_calls w (Suc n) sb ber =
     (case ber_flush2 w sb ber LBER_FLUSH_FREE_NEVER of
        Some (rc, Inr ber, sb) \<Rightarrow> if rc = 0 then Some (rc, Inr ber, sb) else flush_calls w n sb ber
      | r \<Rightarrow> r)"

definition rwptr_at :: "berelement \<Rightarrow> nat" where
  "rwptr_at ber = (case ber_rwptr ber of None \<Rightarrow> 0 | Some rw \<Rightarrow> rw)"

section \<open>The contract of a write function\<close>

text \<open>
  A sink takes a prefix of what it is given, or fails and takes nothing; \<open>live\<close> is a state in which every write takes
  something.
\<close>

locale byte_sink =
  fixes w :: "'s \<Rightarrow> byte list \<Rightarrow> (int \<times> 's) option" and sent :: "'s \<Rightarrow> byte list" and live :: "'s \<Rightarrow> nat \<Rightarrow> bool"
  assumes w_sends: "bs \<noteq> [] \<Longrightarrow> \<exists>rc s'. w s bs = Some (rc, s') \<and> rc \<le> int (length bs) \<and> sent s' = sent s @ take (nat rc) bs"
    and w_live: "bs \<noteq> [] \<Longrightarrow> w s bs = Some (rc, s') \<Longrightarrow> live s n \<Longrightarrow> length bs \<le> n \<Longrightarrow> 0 < rc \<and> live s' (n - nat rc)"
begin

lemma flush_loop_sends:
  assumes "rw + towrite \<le> length buf"
  shows "\<exists>fin rw' s'. flush_loop w buf rw towrite s = Some (fin, rw', s') \<and> rw \<le> rw' \<and> rw' \<le> rw + towrite
       \<and> sent s' = sent s @ take (rw' - rw) (drop rw buf) \<and> (fin \<longleftrightarrow> rw' = rw + towrite) \<and> (live s towrite \<longrightarrow> fin)"
  using assms
proof (induction towrite arbitrary: rw s rule: less_induct)
  case (less towrite)
  show ?case
  proof (cases "towrite = 0")
    case True
    then show ?thesis by (auto simp: flush_loop.simps)
  next
    case tw: False
    let ?bs = "take towrite (drop rw buf)"
    have bs: "?bs \<noteq> []" "length ?bs = towrite" using tw less.prems by simp_all
    obtain rc s1 where w: "w s ?bs = Some (rc, s1)" "rc \<le> int towrite" "sent s1 = sent s @ take (nat rc) ?bs"
      using w_sends [OF bs(1), of s] bs(2) by auto
    note l = w_live [OF bs(1) w(1), of towrite]
    show ?thesis
    proof (cases "rc \<le> 0")
      case True
      then have "flush_loop w buf rw towrite s = Some (False, rw, s1)" using tw w(1) by (simp add: flush_loop.simps)
      then show ?thesis using True tw l bs(2) w(3) by auto
    next
      case pos: False
      then have k: "0 < nat rc" "nat rc \<le> towrite" using w(2) by auto
      obtain fin rw' s' where r: "flush_loop w buf (rw + nat rc) (towrite - nat rc) s1 = Some (fin, rw', s')" "rw + nat rc \<le> rw'"
          "rw' \<le> rw + towrite" "sent s' = sent s1 @ take (rw' - (rw + nat rc)) (drop (rw + nat rc) buf)"
          "fin \<longleftrightarrow> rw' = rw + towrite" "live s1 (towrite - nat rc) \<longrightarrow> fin"
        using less.IH [of "towrite - nat rc" "rw + nat rc" s1] k less.prems by auto
      have "take (rw' - rw) (drop rw buf) = take (nat rc) ?bs @ take (rw' - (rw + nat rc)) (drop (rw + nat rc) buf)"
        using r(2) k take_add [of "nat rc" "rw' - (rw + nat rc)" "drop rw buf"] by (simp add: add.commute min_def)
      moreover have "flush_loop w buf rw towrite s = Some (fin, rw', s')"
        using tw pos k w(1) r(1) by (subst flush_loop.simps) auto
      ultimately show ?thesis using r k w(3) l bs(2) by auto
    qed
  qed
qed

text \<open>One call: it gets to some position, sends what lies before it, and succeeds if that is the end.\<close>

lemma flush2_sends:
  assumes "ber_valid ber = LBER_VALID_BERELEMENT" and "rwptr_at ber \<le> ber_ptr ber" and "ber_ptr ber \<le> length (ber_buf ber)"
  shows "\<exists>k s'. ber_flush2 w s ber LBER_FLUSH_FREE_NEVER
           = Some (if k = ber_ptr ber then 0 else -1, Inr (ber\<lparr>ber_rwptr := Some k\<rparr>), s')
       \<and> rwptr_at ber \<le> k \<and> k \<le> ber_ptr ber \<and> sent s' = sent s @ take (k - rwptr_at ber) (drop (rwptr_at ber) (ber_buf ber))
       \<and> (live s (ber_ptr ber - rwptr_at ber) \<longrightarrow> k = ber_ptr ber)"
proof -
  obtain fin k s' where f: "flush_loop w (ber_buf ber) (rwptr_at ber) (ber_ptr ber - rwptr_at ber) s = Some (fin, k, s')"
      "rwptr_at ber \<le> k" "k \<le> ber_ptr ber" "sent s' = sent s @ take (k - rwptr_at ber) (drop (rwptr_at ber) (ber_buf ber))"
      "fin \<longleftrightarrow> k = ber_ptr ber" "live s (ber_ptr ber - rwptr_at ber) \<longrightarrow> fin"
    using flush_loop_sends [of "rwptr_at ber" "ber_ptr ber - rwptr_at ber" "ber_buf ber" s] assms(2,3) by auto
  have "ber_flush2 w s ber LBER_FLUSH_FREE_NEVER = Some (if k = ber_ptr ber then 0 else -1, Inr (ber\<lparr>ber_rwptr := Some k\<rparr>), s')"
    using f(1,5) assms(1,2) by (simp add: ber_flush2_def rwptr_at_def [symmetric] LBER_FLUSH_FREE_NEVER_def)
  then show ?thesis using f by blast
qed

lemma flush_calls_send:
  assumes "ber_valid ber = LBER_VALID_BERELEMENT" and "rwptr_at ber \<le> ber_ptr ber" and "ber_ptr ber \<le> length (ber_buf ber)"
  shows "\<exists>k s'. flush_calls w n s ber = Some (if k = ber_ptr ber then 0 else -1, Inr (ber\<lparr>ber_rwptr := Some k\<rparr>), s')
       \<and> rwptr_at ber \<le> k \<and> k \<le> ber_ptr ber \<and> sent s' = sent s @ take (k - rwptr_at ber) (drop (rwptr_at ber) (ber_buf ber))
       \<and> (live s (ber_ptr ber - rwptr_at ber) \<longrightarrow> k = ber_ptr ber)"
  using assms
proof (induction n arbitrary: s ber)
  case 0
  then show ?case using flush2_sends by simp
next
  case (Suc n)
  let ?r = "rwptr_at ber"
  obtain k s1 where f: "ber_flush2 w s ber LBER_FLUSH_FREE_NEVER
        = Some (if k = ber_ptr ber then 0 else -1, Inr (ber\<lparr>ber_rwptr := Some k\<rparr>), s1)"
      "?r \<le> k" "k \<le> ber_ptr ber" "sent s1 = sent s @ take (k - ?r) (drop ?r (ber_buf ber))"
      "live s (ber_ptr ber - ?r) \<longrightarrow> k = ber_ptr ber"
    using flush2_sends [OF Suc.prems] by blast
  show ?case
  proof (cases "k = ber_ptr ber")
    case True
    then show ?thesis using f by (intro exI [of _ k] exI [of _ s1]) simp
  next
    case False
    let ?b = "ber\<lparr>ber_rwptr := Some k\<rparr>"
    have at: "rwptr_at ?b = k" by (simp add: rwptr_at_def)
    obtain k' s' where c: "flush_calls w n s1 ?b = Some (if k' = ber_ptr ber then 0 else -1, Inr (ber\<lparr>ber_rwptr := Some k'\<rparr>), s')"
        "k \<le> k'" "k' \<le> ber_ptr ber" "sent s' = sent s1 @ take (k' - k) (drop k (ber_buf ber))"
      using Suc.IH [of ?b s1] Suc.prems f(3) at by auto
    have "take (k' - ?r) (drop ?r (ber_buf ber)) = take (k - ?r) (drop ?r (ber_buf ber)) @ take (k' - k) (drop k (ber_buf ber))"
      using f(2) c(2) take_add [of "k - ?r" "k' - k" "drop ?r (ber_buf ber)"] by simp
    moreover have "flush_calls w (Suc n) s ber = flush_calls w n s1 ?b" using f(1) False by simp
    ultimately show ?thesis using c f(2,4,5) False by (intro exI [of _ k'] exI [of _ s']) simp
  qed
qed

end

section \<open>The socket as a sink\<close>

definition sender_live :: "tcp_sender \<Rightarrow> nat \<Rightarrow> bool" where
  "sender_live sd n \<longleftrightarrow> Some 0 \<notin> set (tcp_room sd) \<and> n \<le> length (filter (\<lambda>a. a \<noteq> None) (tcp_room sd))"

lemma sb_write_stream:
  assumes "bs \<noteq> []"
  shows "\<exists>rc sd'. ber_int_sb_write sb_stream_write sd bs = Some (rc, sd') \<and> rc \<le> int (length bs)
       \<and> tcp_out sd' = tcp_out sd @ take (nat rc) bs
       \<and> (\<forall>n. sender_live sd n \<and> length bs \<le> n \<longrightarrow> 0 < rc \<and> sender_live sd' (n - nat rc))"
  using assms
proof (induction "tcp_room sd" arbitrary: sd)
  case Nil
  then show ?case by (subst ber_int_sb_write.simps) (auto simp: sb_stream_write_def sender_live_def)
next
  case (Cons a as)
  note room = Cons.hyps(2) [symmetric]
  show ?case
  proof (cases a)
    case None
    have "ber_int_sb_write sb_stream_write sd bs = ber_int_sb_write sb_stream_write (sd\<lparr>tcp_room := as\<rparr>) bs"
      using None room by (subst ber_int_sb_write.simps) (simp add: sb_stream_write_def)
    moreover have "sender_live sd n \<longleftrightarrow> sender_live (sd\<lparr>tcp_room := as\<rparr>) n" for n
      using None room by (simp add: sender_live_def)
    ultimately show ?thesis using Cons.hyps(1) [of "sd\<lparr>tcp_room := as\<rparr>"] Cons.prems by simp
  next
    case (Some k)
    show ?thesis
    proof (cases "k = 0")
      case True
      then show ?thesis using Some room
        by (subst ber_int_sb_write.simps) (simp add: sb_stream_write_def sender_live_def Let_def)
    next
      case False
      then have "ber_int_sb_write sb_stream_write sd bs
          = Some (int (length (take k bs)), sd\<lparr>tcp_out := tcp_out sd @ take k bs, tcp_room := as\<rparr>)"
        using Some room Cons.prems by (subst ber_int_sb_write.simps) (simp add: sb_stream_write_def Let_def)
      then show ?thesis using False Some room Cons.prems by (cases bs) (auto simp: sender_live_def min_def)
    qed
  qed
qed

interpretation stream_out: byte_sink "ber_int_sb_write sb_stream_write" tcp_out sender_live
proof
  fix bs :: "byte list" and s :: tcp_sender
  assume "bs \<noteq> []"
  note w = sb_write_stream [OF this, of s]
  show "\<exists>rc s'. ber_int_sb_write sb_stream_write s bs = Some (rc, s') \<and> rc \<le> int (length bs) \<and> tcp_out s' = tcp_out s @ take (nat rc) bs"
    using w by blast
  show "0 < rc \<and> sender_live s' (n - nat rc)"
    if "ber_int_sb_write sb_stream_write s bs = Some (rc, s')" "sender_live s n" "length bs \<le> n" for rc s' n
    using w that by auto
qed

section \<open>From one peer to the other\<close>

text \<open>
  C21: what is flushed arrives.  A message in an element, flushed again and again with a socket that takes any number of octets
  at a time, would block or is interrupted: the octets taken are always a prefix of the message, each sent once, the element
  keeps the position, and the result is 0 exactly when all of it has been taken, which happens at once if every write takes something.
  The peer that receives these octets, in pieces of any size, gets the tag, the length and the contents from \<^verbatim>\<open>ber_get_next\<close>.
\<close>

theorem flushed_message_arrives:
  assumes wf: "wf_message tb lb content []" and mem: "ma (length content + 1)" "\<forall>n. length (fresh n) = n"
    and ber: "ber_valid ber = LBER_VALID_BERELEMENT" "ber_rwptr ber = None" "ber_ptr ber \<le> length (ber_buf ber)"
      "take (ber_ptr ber) (ber_buf ber) = tb @ lb @ content"
    and peer: "buf_ok p" "unread p = []"
  shows "\<exists>k sd'. flush_calls (ber_int_sb_write sb_stream_write) n sd ber
           = Some (if k = length (tb @ lb @ content) then 0 else -1, Inr (ber\<lparr>ber_rwptr := Some k\<rparr>), sd')
       \<and> tcp_out sd' = tcp_out sd @ take k (tb @ lb @ content)
       \<and> (sender_live sd (length (tb @ lb @ content)) \<longrightarrow> k = length (tb @ lb @ content))
       \<and> (tcp_out sd = [] \<and> k = length (tb @ lb @ content) \<longrightarrow>
            (\<forall>res ber' p' as sd''.
               get_next_calls (sb_rdahead_read sb_stream_read) ma fresh 0 m (p, \<lparr>tcp_in = tcp_out sd', tcp_arrivals = as\<rparr>) fresh_bersock
                 = (res, ber', p', sd'') \<longrightarrow>
               ((\<exists>e. res = GnDefault e \<and> e \<noteq> ERANGE)
                \<or> res = GnTag (octets_val tb) (of_nat (length content)) \<and> message_read tb content ber')
               \<and> (tcp_live \<lparr>tcp_in = tcp_out sd', tcp_arrivals = as\<rparr> \<and> length (tb @ lb @ content) \<le> m \<longrightarrow>
                   res = GnTag (octets_val tb) (of_nat (length content)))))"
proof -
  have at: "rwptr_at ber = 0" using ber(2) by (simp add: rwptr_at_def)
  have len: "ber_ptr ber = length (tb @ lb @ content)" using arg_cong [OF ber(4), of length] ber(3) by simp
  obtain k sd' where f: "flush_calls (ber_int_sb_write sb_stream_write) n sd ber
        = Some (if k = ber_ptr ber then 0 else -1, Inr (ber\<lparr>ber_rwptr := Some k\<rparr>), sd')"
      "k \<le> ber_ptr ber" "tcp_out sd' = tcp_out sd @ take k (ber_buf ber)" "sender_live sd (ber_ptr ber) \<longrightarrow> k = ber_ptr ber"
    using stream_out.flush_calls_send [OF ber(1) _ ber(3), of n sd] at by auto
  have out: "tcp_out sd' = tcp_out sd @ take k (tb @ lb @ content)"
    using f(2,3) unfolding ber(4) [symmetric] by (simp add: min_def)
  have "unread p @ tcp_in \<lparr>tcp_in = tb @ lb @ content, tcp_arrivals = as\<rparr> = tb @ lb @ content @ []" for as
    using peer(2) by simp
  note get = calls_reassemble [where ma = ma and fresh = fresh and mx = 0, OF wf peer(1) this mem disjI1 [OF refl]]
  have arrives: "\<forall>res ber' p' as sd''.
      get_next_calls (sb_rdahead_read sb_stream_read) ma fresh 0 m (p, \<lparr>tcp_in = tb @ lb @ content, tcp_arrivals = as\<rparr>) fresh_bersock
        = (res, ber', p', sd'') \<longrightarrow>
      ((\<exists>e. res = GnDefault e \<and> e \<noteq> ERANGE) \<or> res = GnTag (octets_val tb) (of_nat (length content)) \<and> message_read tb content ber')
      \<and> (tcp_live \<lparr>tcp_in = tb @ lb @ content, tcp_arrivals = as\<rparr> \<and> length (tb @ lb @ content) \<le> m \<longrightarrow>
          res = GnTag (octets_val tb) (of_nat (length content)))"
    using get by blast
  have "tcp_out sd' = tb @ lb @ content" if "tcp_out sd = [] \<and> k = length (tb @ lb @ content)" using out that by simp
  then show ?thesis using f(1,4) out arrives unfolding len by metis
qed

theorem flushed_message_arrives_witness:
  "\<exists>sd'. flush_calls (ber_int_sb_write sb_stream_write) 0 \<lparr>tcp_out = [], tcp_room = [Some 2, None] @ replicate 4 (Some 1)\<rparr>
         ((ber_init2 (Some [4, 3, 7, 8, 9]) 0)\<lparr>ber_ptr := 5\<rparr>)
       = Some (0, Inr ((ber_init2 (Some [4, 3, 7, 8, 9]) 0)\<lparr>ber_ptr := 5, ber_rwptr := Some 5\<rparr>), sd') \<and> tcp_out sd' = [4, 3, 7, 8, 9]
     \<and> fst (get_next_calls (sb_rdahead_read sb_stream_read) (\<lambda>n. True) (\<lambda>n. replicate n 0) 0 5
             (\<lparr>buf_base = [0], buf_ptr = 0, buf_end = 0\<rparr>, \<lparr>tcp_in = tcp_out sd', tcp_arrivals = replicate 5 1\<rparr>) fresh_bersock)
         = GnTag (octets_val [4]) 3"
proof -
  let ?sd = "\<lparr>tcp_out = [], tcp_room = [Some 2, None] @ replicate 4 (Some 1)\<rparr> :: tcp_sender"
    and ?ber = "(ber_init2 (Some [4, 3, 7, 8, 9]) 0)\<lparr>ber_ptr := 5\<rparr>" and ?p = "\<lparr>buf_base = [0], buf_ptr = 0, buf_end = 0\<rparr> :: sockbuf_buf"
  have wf: "wf_message [4] [3] [7, 8, 9] []" by (simp add: wf_message_def tag_ok_def tag_form_def len_ok_def)
  have b: "ber_valid ?ber = LBER_VALID_BERELEMENT" "ber_rwptr ?ber = None" "ber_ptr ?ber \<le> length (ber_buf ?ber)"
      "take (ber_ptr ?ber) (ber_buf ?ber) = [4] @ [3] @ [7, 8, 9]" by (simp_all add: ber_init2_def ber_alloc_t_def)
  have p: "buf_ok ?p" "unread ?p = []" by (simp_all add: buf_ok_def buf_size_def unread_def)
  have live: "sender_live ?sd 5" by (simp add: sender_live_def)
  have l: "length ([4] @ [3] @ [7, 8, 9 :: byte]) = 5" by simp
  have m: "(\<lambda>n. True) (length [7, 8, 9 :: byte] + 1)" "\<forall>n. length ((\<lambda>n. replicate n (0 :: byte)) n) = n" by simp_all
  obtain k sd' where c: "flush_calls (ber_int_sb_write sb_stream_write) 0 ?sd ?ber
        = Some (if k = 5 then 0 else -1, Inr (?ber\<lparr>ber_rwptr := Some k\<rparr>), sd')"
      "tcp_out sd' = tcp_out ?sd @ take k ([4] @ [3] @ [7, 8, 9])" "sender_live ?sd 5 \<longrightarrow> k = 5"
      "tcp_out ?sd = [] \<and> k = 5 \<longrightarrow> (\<forall>res ber' p' as sd''.
         get_next_calls (sb_rdahead_read sb_stream_read) (\<lambda>n. True) (\<lambda>n. replicate n 0) 0 5 (?p, \<lparr>tcp_in = tcp_out sd', tcp_arrivals = as\<rparr>) fresh_bersock
           = (res, ber', p', sd'') \<longrightarrow>
         ((\<exists>e. res = GnDefault e \<and> e \<noteq> ERANGE) \<or> res = GnTag (octets_val [4]) (of_nat (length [7, 8, 9 :: byte])) \<and> message_read [4] [7, 8, 9] ber')
         \<and> (tcp_live \<lparr>tcp_in = tcp_out sd', tcp_arrivals = as\<rparr> \<and> 5 \<le> (5 :: nat) \<longrightarrow> res = GnTag (octets_val [4]) (of_nat (length [7, 8, 9 :: byte]))))"
    using flushed_message_arrives [where ma = "\<lambda>n. True" and fresh = "\<lambda>n. replicate n 0" and n = 0 and sd = ?sd and m = 5,
        OF wf m b p, unfolded l] by (elim exE conjE) (rule that)
  have f: "flush_calls (ber_int_sb_write sb_stream_write) 0 ?sd ?ber = Some (0, Inr (?ber\<lparr>ber_rwptr := Some 5\<rparr>), sd')"
      "tcp_out sd' = [4, 3, 7, 8, 9]" using c(1-3) live by simp_all
  have lv: "tcp_live \<lparr>tcp_in = tcp_out sd', tcp_arrivals = replicate 5 1\<rparr>" unfolding f(2) by (simp add: tcp_live_def)
  obtain res b' p' sd'' where g: "get_next_calls (sb_rdahead_read sb_stream_read) (\<lambda>n. True) (\<lambda>n. replicate n 0) 0 5
      (?p, \<lparr>tcp_in = tcp_out sd', tcp_arrivals = replicate 5 1\<rparr>) fresh_bersock = (res, b', p', sd'')"
    by (metis prod_cases4)
  have r: "tcp_out ?sd = [] \<and> k = 5" using c(3) live by simp
  have "res = GnTag (octets_val [4]) (of_nat (length [7, 8, 9 :: byte]))" using mp [OF c(4) r] g lv by blast
  then have "fst (get_next_calls (sb_rdahead_read sb_stream_read) (\<lambda>n. True) (\<lambda>n. replicate n 0) 0 5
      (?p, \<lparr>tcp_in = tcp_out sd', tcp_arrivals = replicate 5 1\<rparr>) fresh_bersock) = GnTag (octets_val [4]) 3"
    unfolding g by simp
  then show ?thesis using f by (intro exI [of _ sd'] conjI) simp_all
qed

end
