(* ===== verification/Utf8.thy ===== *)
theory Utf8
  imports Ldap_Prelude
begin

text \<open>
  The UTF-8 routines of \<^verbatim>\<open>libldap/utf-8.c\<close> with the macros of \<^verbatim>\<open>include/ldap_pvt_uc.h\<close> and
  \<^verbatim>\<open>include/ldap_pvt.h\<close>.  A C pointer to a string is the list of octets from there on: the
  string, its terminating 0 and whatever lies behind it.  A \<^verbatim>\<open>ldap_ucs4_t\<close> is a signed
  32-bit integer; no operation on it leaves that range, so it is an \<open>int\<close>.
\<close>

section \<open>Characters\<close>

definition LDAP_UTF8_ISASCII :: "byte list \<Rightarrow> bool" where
  "LDAP_UTF8_ISASCII p \<longleftrightarrow> octet_at p 0 AND 0x80 = 0"

definition ldap_utf8_lentab :: "nat list" where
  "ldap_utf8_lentab =
    [0, 0, 0, 0, 0, 0, 0, 0, 0, 0, 0, 0, 0, 0, 0, 0,
     0, 0, 0, 0, 0, 0, 0, 0, 0, 0, 0, 0, 0, 0, 0, 0,
     0, 0, 0, 0, 0, 0, 0, 0, 0, 0, 0, 0, 0, 0, 0, 0,
     0, 0, 0, 0, 0, 0, 0, 0, 0, 0, 0, 0, 0, 0, 0, 0,
     0, 0, 2, 2, 2, 2, 2, 2, 2, 2, 2, 2, 2, 2, 2, 2,
     2, 2, 2, 2, 2, 2, 2, 2, 2, 2, 2, 2, 2, 2, 2, 2,
     3, 3, 3, 3, 3, 3, 3, 3, 3, 3, 3, 3, 3, 3, 3, 3,
     4, 4, 4, 4, 4, 4, 4, 4, 5, 5, 5, 5, 6, 6, 0, 0]"

definition LDAP_UTF8_CHARLEN :: "byte list \<Rightarrow> nat" where
  "LDAP_UTF8_CHARLEN p =
     (if LDAP_UTF8_ISASCII p then 1 else ldap_utf8_lentab ! unat (octet_at p 0 XOR 0x80))"

definition ldap_utf8_charlen :: "byte list \<Rightarrow> nat" where
  "ldap_utf8_charlen p =
     (if octet_at p 0 AND 0x80 = 0 then 1 else ldap_utf8_lentab ! unat (octet_at p 0 XOR 0x80))"

definition ldap_utf8_mintab :: "byte list" where
  "ldap_utf8_mintab =
    [0x20, 0x80, 0x80, 0x80, 0x80, 0x80, 0x80, 0x80,
     0x80, 0x80, 0x80, 0x80, 0x80, 0x80, 0x80, 0x80,
     0x30, 0x80, 0x80, 0x80, 0x80, 0x80, 0x80, 0x80,
     0x38, 0x80, 0x80, 0x80, 0x3c, 0x80, 0x00, 0x00]"

definition LDAP_UTF8_CHARLEN2 :: "byte list \<Rightarrow> nat" where
  "LDAP_UTF8_CHARLEN2 p =
     (let l = LDAP_UTF8_CHARLEN p
      in if l < 3 \<or> ldap_utf8_mintab ! unat (octet_at p 0 AND 0x1f) AND octet_at p 1 \<noteq> 0 then l else 0)"

definition ldap_utf8_charlen2 :: "byte list \<Rightarrow> nat" where
  "ldap_utf8_charlen2 p =
     (let i = LDAP_UTF8_CHARLEN p
      in if i > 2
         then if ldap_utf8_mintab ! unat (octet_at p 0 AND 0x1f) AND octet_at p 1 = 0 then 0 else i
         else i)"

section \<open>Conversion to and from UCS-4\<close>

definition LDAP_UCS4_INVALID :: int where
  "LDAP_UCS4_INVALID = - 0x80000000"

definition utf8_mask :: "byte list" where
  "utf8_mask = [0, 0x7f, 0x1f, 0x0f, 0x07, 0x03, 0x01]"

text \<open>The loop over the octets after the first; \<open>None\<close> where one of them is no continuation octet.\<close>

function continuation_loop :: "byte list \<Rightarrow> nat \<Rightarrow> nat \<Rightarrow> int \<Rightarrow> int option" where
  "continuation_loop c len i ch =
     (if i < len then
        if octet_at c i AND 0xc0 \<noteq> 0x80 then None
        else continuation_loop c len (i + 1) (push_bit 6 ch OR uint (octet_at c i AND 0x3f))
      else Some ch)"
  by pat_completeness auto
termination
  by (relation "measure (\<lambda>(c, len, i, ch). len - i)") auto

declare continuation_loop.simps [simp del]

definition ldap_x_utf8_to_ucs4 :: "byte list \<Rightarrow> int" where
  "ldap_x_utf8_to_ucs4 c =
     (let len = LDAP_UTF8_CHARLEN2 c
      in if len = 0 then LDAP_UCS4_INVALID
         else case continuation_loop c len 1 (uint (octet_at c 0 AND utf8_mask ! len)) of
                None \<Rightarrow> LDAP_UCS4_INVALID
              | Some ch \<Rightarrow> ch)"

text \<open>
  The length and the octets stored; \<open>buf\<close> says whether there is a buffer.  An \<^verbatim>\<open>int\<close> stored in an
  \<^verbatim>\<open>unsigned char\<close> keeps its low eight bits.
\<close>

definition ldap_x_ucs4_to_utf8 :: "int \<Rightarrow> bool \<Rightarrow> nat \<times> byte list" where
  "ldap_x_ucs4_to_utf8 c buf =
     (let oct = (\<lambda>x. word_of_int x :: byte)
      in if c < 0 then (0, [])
         else if \<not> buf then
           (if c < 0x80 then (1, []) else if c < 0x800 then (2, []) else if c < 0x10000 then (3, [])
            else if c < 0x200000 then (4, []) else if c < 0x4000000 then (5, []) else (6, []))
         else if c < 0x80 then (1, [oct c])
         else if c < 0x800 then
           (2, [oct (0xc0 OR drop_bit 6 c), oct (0x80 OR (c AND 0x3f))])
         else if c < 0x10000 then
           (3, [oct (0xe0 OR drop_bit 12 c), oct (0x80 OR (drop_bit 6 c AND 0x3f)),
                oct (0x80 OR (c AND 0x3f))])
         else if c < 0x200000 then
           (4, [oct (0xf0 OR drop_bit 18 c), oct (0x80 OR (drop_bit 12 c AND 0x3f)),
                oct (0x80 OR (drop_bit 6 c AND 0x3f)), oct (0x80 OR (c AND 0x3f))])
         else if c < 0x4000000 then
           (5, [oct (0xf8 OR drop_bit 24 c), oct (0x80 OR (drop_bit 18 c AND 0x3f)),
                oct (0x80 OR (drop_bit 12 c AND 0x3f)), oct (0x80 OR (drop_bit 6 c AND 0x3f)),
                oct (0x80 OR (c AND 0x3f))])
         else
           (6, [oct (0xfc OR drop_bit 30 c), oct (0x80 OR (drop_bit 24 c AND 0x3f)),
                oct (0x80 OR (drop_bit 18 c AND 0x3f)), oct (0x80 OR (drop_bit 12 c AND 0x3f)),
                oct (0x80 OR (drop_bit 6 c AND 0x3f)), oct (0x80 OR (c AND 0x3f))]))"

definition LDAP_UCS_UTF8LEN :: "int \<Rightarrow> nat" where
  "LDAP_UCS_UTF8LEN c =
     (if c < 0 then 0 else if c < 0x80 then 1 else if c < 0x800 then 2 else if c < 0x10000 then 3
      else if c < 0x200000 then 4 else if c < 0x4000000 then 5 else 6)"

text \<open>
  \<^verbatim>\<open>ldap_ucs_to_utf8s\<close> reads characters of \<^verbatim>\<open>csize\<close> octets.  A shift that moves a bit into the
  sign makes the 32-bit integer negative, which \<open>to_ucs4\<close> writes out.
\<close>

definition to_ucs4 :: "int \<Rightarrow> int" where
  "to_ucs4 u = signed_take_bit 31 u"

definition ucs_next :: "nat \<Rightarrow> byte list \<Rightarrow> int \<times> byte list" where
  "ucs_next csize inp =
     (let u = uint (octet_at inp 0);
          (u, inp) = (if csize > 1
                      then (to_ucs4 (push_bit 8 u) OR uint (octet_at inp 1), drop 2 inp)
                      else (u, drop 1 inp))
      in if csize > 2
         then let u = to_ucs4 (push_bit 8 u) OR uint (octet_at inp 0);
                  u = to_ucs4 (push_bit 8 u) OR uint (octet_at inp 1)
              in (u, drop 2 inp)
         else (u, inp))"

lemma ucs_next_shorter: "length (snd (ucs_next csize inp)) \<le> length inp - 1"
  by (auto simp: ucs_next_def Let_def)

text \<open>
  The first loop, which adds up the lengths in the \<^verbatim>\<open>int\<close> \<open>l\<close>, which wraps around (\<open>None\<close>: a
  character is invalid).
\<close>

function ucs_len_loop :: "nat \<Rightarrow> byte list \<Rightarrow> int \<Rightarrow> int option" where
  "ucs_len_loop csize inp l =
     (if inp = [] then Some l
      else let u = fst (ucs_next csize inp); i = LDAP_UCS_UTF8LEN u
           in if i = 0 then None else ucs_len_loop csize (snd (ucs_next csize inp)) (c_to_int (l + int i)))"
  by pat_completeness auto
termination
  using ucs_next_shorter
  by (relation "measure (\<lambda>(csize, inp, l). length inp)")
    (auto intro: le_less_trans [OF ucs_next_shorter])

text \<open>The second loop, which stores the converted characters.\<close>

function ucs_put_loop :: "nat \<Rightarrow> byte list \<Rightarrow> byte list" where
  "ucs_put_loop csize inp =
     (if inp = [] then []
      else let u = fst (ucs_next csize inp)
           in snd (ldap_x_ucs4_to_utf8 u True) @ ucs_put_loop csize (snd (ucs_next csize inp)))"
  by pat_completeness auto
termination
  by (relation "measure (\<lambda>(csize, inp). length inp)")
    (auto intro: le_less_trans [OF ucs_next_shorter])

declare ucs_len_loop.simps [simp del] ucs_put_loop.simps [simp del]

datatype ucs_result = LDAP_SUCCESS | LDAP_INVALID_SYNTAX | LDAP_NO_MEMORY

text \<open>
  The result code, \<^verbatim>\<open>bv_val\<close> (\<open>None\<close>: NULL) and \<^verbatim>\<open>bv_len\<close>.  \<^verbatim>\<open>bv_len & ~(csize-1)\<close> rounds down to
  a multiple of \<open>csize\<close>, which is 1, 2 or 4.  The size of the block is the \<^verbatim>\<open>int\<close> \<^verbatim>\<open>l+1\<close> as a
  \<^verbatim>\<open>ber_len_t\<close>; \<open>None\<close> stands for stores behind its end.
\<close>

definition ldap_ucs_to_utf8s ::
  "allocator \<Rightarrow> byte list \<Rightarrow> nat \<Rightarrow> (ucs_result \<times> byte list option \<times> ber_len_t) option" where
  "ldap_ucs_to_utf8s ma ucs csize =
     (let n = nat (int (length ucs) AND NOT (int csize - 1)); inp = take n ucs
      in case ucs_len_loop csize inp 0 of
           None \<Rightarrow> Some (LDAP_INVALID_SYNTAX, None, 0)
         | Some l \<Rightarrow>
             let s = unat (of_int (c_to_int (l + 1)) :: ber_len_t); out = ucs_put_loop csize inp @ [0]
             in if \<not> ber_memalloc_x ma s then Some (LDAP_NO_MEMORY, None, 0)
                else if s < length out then None
                else Some (LDAP_SUCCESS, Some out, of_int l))"

section \<open>Moving through a string\<close>

text \<open>The number of octets to the next character: the loop of \<^verbatim>\<open>ldap_utf8_next\<close>.\<close>

function next_loop :: "byte list \<Rightarrow> nat \<Rightarrow> nat" where
  "next_loop u i =
     (if i < 6 then if octet_at u i AND 0xc0 \<noteq> 0x80 then i else next_loop u (i + 1) else i)"
  by pat_completeness auto
termination
  by (relation "measure (\<lambda>(u, i). 6 - i)") auto

declare next_loop.simps [simp del]

definition ldap_utf8_next :: "byte list \<Rightarrow> byte list" where
  "ldap_utf8_next p = (if LDAP_UTF8_ISASCII p then drop 1 p else drop (next_loop p 1) p)"

definition LDAP_UTF8_NEXT :: "byte list \<Rightarrow> byte list" where
  "LDAP_UTF8_NEXT p = (if LDAP_UTF8_ISASCII p then drop 1 p else ldap_utf8_next p)"

lemma next_loop_ge: "i \<le> next_loop u i"
proof (induction u i rule: next_loop.induct)
  case (1 u i)
  then show ?case by (subst next_loop.simps) (auto dest: Suc_leD)
qed

lemma LDAP_UTF8_NEXT_shorter: "p \<noteq> [] \<Longrightarrow> length (LDAP_UTF8_NEXT p) < length p"
  using next_loop_ge [of 1 p] by (auto simp: LDAP_UTF8_NEXT_def ldap_utf8_next_def)

lemma octet_at_0_nonempty: "octet_at p 0 \<noteq> 0 \<Longrightarrow> p \<noteq> []"
  by (auto simp: octet_at_def)

text \<open>The distance between two pointers into the same string.\<close>

definition ptr_diff :: "byte list \<Rightarrow> byte list \<Rightarrow> nat" where
  "ptr_diff q p = length p - length q"

definition ldap_utf8_offset :: "byte list \<Rightarrow> nat" where
  "ldap_utf8_offset p = ptr_diff (LDAP_UTF8_NEXT p) p"

text \<open>
  \<^verbatim>\<open>ldap_utf8_prev\<close> reads before its argument, so it gets the memory and an offset into it;
  \<open>None\<close> is a pointer in front of the memory.
\<close>

function prev_loop :: "byte list \<Rightarrow> nat \<Rightarrow> nat \<Rightarrow> nat option" where
  "prev_loop m p i =
     (if i < 6 then
        if p < i then None
        else if octet_at m (p - i) AND 0xc0 \<noteq> 0x80 then Some (p - i)
        else prev_loop m p (i + 1)
      else if p < i then None else Some (p - i))"
  by pat_completeness auto
termination
  by (relation "measure (\<lambda>(m, p, i). 6 - i)") auto

declare prev_loop.simps [simp del]

definition ldap_utf8_prev :: "byte list \<Rightarrow> nat \<Rightarrow> nat option" where
  "ldap_utf8_prev m p = prev_loop m p 1"

text \<open>The number of octets copied, which are the first ones of \<open>src\<close>.\<close>

function copy_loop :: "byte list \<Rightarrow> nat \<Rightarrow> byte list \<Rightarrow> nat \<times> byte list" where
  "copy_loop src i dst =
     (if i < 6 then
        if octet_at src i AND 0xc0 \<noteq> 0x80 then (i, dst)
        else copy_loop src (i + 1) (dst @ [octet_at src i])
      else (i, dst))"
  by pat_completeness auto
termination
  by (relation "measure (\<lambda>(src, i, dst). 6 - i)") auto

declare copy_loop.simps [simp del]

definition ldap_utf8_copy :: "byte list \<Rightarrow> nat \<times> byte list" where
  "ldap_utf8_copy src =
     (let dst = [octet_at src 0]
      in if LDAP_UTF8_ISASCII src then (1, dst) else copy_loop src 1 dst)"

function bytes_loop :: "byte list \<Rightarrow> nat \<Rightarrow> nat" where
  "bytes_loop p bytes = (if octet_at p bytes \<noteq> 0 then bytes_loop p (bytes + 1) else bytes)"
  by pat_completeness auto
termination
  by (relation "measure (\<lambda>(p, bytes). length p - bytes)") (auto simp: octet_at_def split: if_splits)

declare bytes_loop.simps [simp del]

definition ldap_utf8_bytes :: "byte list \<Rightarrow> nat" where
  "ldap_utf8_bytes p = bytes_loop p 0"

function chars_loop :: "byte list \<Rightarrow> nat \<Rightarrow> nat" where
  "chars_loop p chars = (if octet_at p 0 \<noteq> 0 then chars_loop (LDAP_UTF8_NEXT p) (chars + 1) else chars)"
  by pat_completeness auto
termination
  by (relation "measure (\<lambda>(p, chars). length p)") (auto simp: LDAP_UTF8_NEXT_shorter octet_at_0_nonempty)

declare chars_loop.simps [simp del]

definition ldap_utf8_chars :: "byte list \<Rightarrow> nat" where
  "ldap_utf8_chars p = chars_loop p 0"

section \<open>Character classes\<close>

definition LDAP_ASCII :: "byte \<Rightarrow> bool" where "LDAP_ASCII c \<longleftrightarrow> c AND 0x80 = 0"
definition LDAP_DIGIT :: "byte \<Rightarrow> bool" where "LDAP_DIGIT c \<longleftrightarrow> 0x30 \<le> c \<and> c \<le> 0x39"
definition LDAP_LOWER :: "byte \<Rightarrow> bool" where "LDAP_LOWER c \<longleftrightarrow> 0x61 \<le> c \<and> c \<le> 0x7a"
definition LDAP_UPPER :: "byte \<Rightarrow> bool" where "LDAP_UPPER c \<longleftrightarrow> 0x41 \<le> c \<and> c \<le> 0x5a"
definition LDAP_ALPHA :: "byte \<Rightarrow> bool" where "LDAP_ALPHA c \<longleftrightarrow> LDAP_LOWER c \<or> LDAP_UPPER c"
definition LDAP_ALNUM :: "byte \<Rightarrow> bool" where "LDAP_ALNUM c \<longleftrightarrow> LDAP_ALPHA c \<or> LDAP_DIGIT c"
definition LDAP_HEXLOWER :: "byte \<Rightarrow> bool" where "LDAP_HEXLOWER c \<longleftrightarrow> 0x61 \<le> c \<and> c \<le> 0x66"
definition LDAP_HEXUPPER :: "byte \<Rightarrow> bool" where "LDAP_HEXUPPER c \<longleftrightarrow> 0x41 \<le> c \<and> c \<le> 0x46"
definition LDAP_HEX :: "byte \<Rightarrow> bool" where
  "LDAP_HEX c \<longleftrightarrow> LDAP_DIGIT c \<or> LDAP_HEXLOWER c \<or> LDAP_HEXUPPER c"

definition ldap_utf8_isascii :: "byte list \<Rightarrow> bool" where
  "ldap_utf8_isascii p = LDAP_ASCII (octet_at p 0)"

definition ldap_utf8_isdigit :: "byte list \<Rightarrow> bool" where
  "ldap_utf8_isdigit p = (let c = octet_at p 0 in if \<not> LDAP_ASCII c then False else LDAP_DIGIT c)"

definition ldap_utf8_isxdigit :: "byte list \<Rightarrow> bool" where
  "ldap_utf8_isxdigit p = (let c = octet_at p 0 in if \<not> LDAP_ASCII c then False else LDAP_HEX c)"

definition ldap_utf8_isspace :: "byte list \<Rightarrow> bool" where
  "ldap_utf8_isspace p =
     (let c = octet_at p 0 in if \<not> LDAP_ASCII c then False else c \<in> {0x20, 0x09, 0x0a, 0x0d, 0x0b, 0x0c})"

definition ldap_utf8_isalpha :: "byte list \<Rightarrow> bool" where
  "ldap_utf8_isalpha p = (let c = octet_at p 0 in if \<not> LDAP_ASCII c then False else LDAP_ALPHA c)"

definition ldap_utf8_isalnum :: "byte list \<Rightarrow> bool" where
  "ldap_utf8_isalnum p = (let c = octet_at p 0 in if \<not> LDAP_ASCII c then False else LDAP_ALNUM c)"

definition ldap_utf8_islower :: "byte list \<Rightarrow> bool" where
  "ldap_utf8_islower p = (let c = octet_at p 0 in if \<not> LDAP_ASCII c then False else LDAP_LOWER c)"

definition ldap_utf8_isupper :: "byte list \<Rightarrow> bool" where
  "ldap_utf8_isupper p = (let c = octet_at p 0 in if \<not> LDAP_ASCII c then False else LDAP_UPPER c)"

section \<open>String routines\<close>

text \<open>The inner loops: does the character at \<open>cstr\<close> occur in \<open>cset\<close>?\<close>

function in_set_loop :: "byte list \<Rightarrow> byte list \<Rightarrow> bool" where
  "in_set_loop cstr cset =
     (if octet_at cset 0 = 0 then False
      else if ldap_x_utf8_to_ucs4 cstr = ldap_x_utf8_to_ucs4 cset then True
      else in_set_loop cstr (LDAP_UTF8_NEXT cset))"
  by pat_completeness auto
termination
  by (relation "measure (\<lambda>(cstr, cset). length cset)") (auto simp: LDAP_UTF8_NEXT_shorter octet_at_0_nonempty)

declare in_set_loop.simps [simp del]

function ldap_utf8_strchr :: "byte list \<Rightarrow> byte list \<Rightarrow> byte list option" where
  "ldap_utf8_strchr str chr =
     (if octet_at str 0 \<noteq> 0 then
        if ldap_x_utf8_to_ucs4 str = ldap_x_utf8_to_ucs4 chr then Some str
        else ldap_utf8_strchr (LDAP_UTF8_NEXT str) chr
      else None)"
  by pat_completeness auto
termination
  by (relation "measure (\<lambda>(str, chr). length str)") (auto simp: LDAP_UTF8_NEXT_shorter octet_at_0_nonempty)

function strcspn_loop :: "byte list \<Rightarrow> byte list \<Rightarrow> byte list" where
  "strcspn_loop cstr set' =
     (if octet_at cstr 0 \<noteq> 0 then
        if in_set_loop cstr set' then cstr else strcspn_loop (LDAP_UTF8_NEXT cstr) set'
      else cstr)"
  by pat_completeness auto
termination
  by (relation "measure (\<lambda>(cstr, set'). length cstr)") (auto simp: LDAP_UTF8_NEXT_shorter octet_at_0_nonempty)

definition ldap_utf8_strcspn :: "byte list \<Rightarrow> byte list \<Rightarrow> nat" where
  "ldap_utf8_strcspn str set' = ptr_diff (strcspn_loop str set') str"

function strspn_loop :: "byte list \<Rightarrow> byte list \<Rightarrow> byte list" where
  "strspn_loop cstr set' =
     (if octet_at cstr 0 \<noteq> 0 then
        if in_set_loop cstr set' then strspn_loop (LDAP_UTF8_NEXT cstr) set' else cstr
      else cstr)"
  by pat_completeness auto
termination
  by (relation "measure (\<lambda>(cstr, set'). length cstr)") (auto simp: LDAP_UTF8_NEXT_shorter octet_at_0_nonempty)

definition ldap_utf8_strspn :: "byte list \<Rightarrow> byte list \<Rightarrow> nat" where
  "ldap_utf8_strspn str set' = ptr_diff (strspn_loop str set') str"

function ldap_utf8_strpbrk :: "byte list \<Rightarrow> byte list \<Rightarrow> byte list option" where
  "ldap_utf8_strpbrk str set' =
     (if octet_at str 0 \<noteq> 0 then
        if in_set_loop str set' then Some str else ldap_utf8_strpbrk (LDAP_UTF8_NEXT str) set'
      else None)"
  by pat_completeness auto
termination
  by (relation "measure (\<lambda>(str, set'). length str)") (auto simp: LDAP_UTF8_NEXT_shorter octet_at_0_nonempty)

declare ldap_utf8_strchr.simps [simp del] strcspn_loop.simps [simp del] strspn_loop.simps [simp del]
  ldap_utf8_strpbrk.simps [simp del]

text \<open>
  \<^verbatim>\<open>ldap_utf8_strtok\<close> on the memory \<open>m\<close> that holds the string, with \<^verbatim>\<open>str\<close>, \<^verbatim>\<open>*last\<close> and the result as
  offsets (\<open>None\<close>: NULL; for \<^verbatim>\<open>last\<close>, the outer option is \<^verbatim>\<open>last\<close> itself): the result, the new
  \<^verbatim>\<open>*last\<close> and the memory.  The outer option of the result is \<open>None\<close> where the code would use a
  NULL pointer as a string.
\<close>

definition ldap_utf8_strtok ::
  "byte list \<Rightarrow> nat option \<Rightarrow> byte list \<Rightarrow> nat option option \<Rightarrow> (nat option \<times> nat option \<times> byte list) option" where
  "ldap_utf8_strtok m str sep lst =
     (case lst of
        None \<Rightarrow> Some (None, None, m)
      | Some l \<Rightarrow>
          (case (case str of Some s \<Rightarrow> Some s | None \<Rightarrow> l) of
             None \<Rightarrow> None
           | Some b \<Rightarrow>
               let b = b + ldap_utf8_strspn (drop b m) sep
               in if octet_at m b = 0 then Some (None, None, m)
                  else let e = b + ldap_utf8_strcspn (drop b m) sep
                       in if octet_at m e \<noteq> 0
                          then let nxt = e + ptr_diff (LDAP_UTF8_NEXT (drop e m)) (drop e m)
                               in Some (Some b, Some nxt, m[e := 0])
                          else Some (Some b, Some e, m)))"

end
