(* ===== verification/Ldap_Filter.thy ===== *)
theory Ldap_Filter
  imports Ber_Format C_Strings Utf8
begin

text \<open>
  The search filters of \<^verbatim>\<open>libldap/filter.c\<close>: parsing the string form of a filter and writing its BER
  encoding, with the values-return filters of the matched values control, and the escaping of values in \<^verbatim>\<open>search.c\<close>.

  A filter string is the list of its octets.  The code cuts its private copy of the string by storing \<^verbatim>\<open>'\0'\<close> and
  puts the old octet back afterwards; here a routine gets the piece as a list, and a pointer into the
  string is the list of the octets from there on.  Results are the C return value with the element, and \<open>None\<close> where C
  leaves the behaviour undefined.
\<close>

section \<open>Tags and characters\<close>

abbreviation (input) LDAP_FILTER_AND :: ber_tag_t where "LDAP_FILTER_AND \<equiv> 0xa0"
abbreviation (input) LDAP_FILTER_OR :: ber_tag_t where "LDAP_FILTER_OR \<equiv> 0xa1"
abbreviation (input) LDAP_FILTER_NOT :: ber_tag_t where "LDAP_FILTER_NOT \<equiv> 0xa2"
abbreviation (input) LDAP_FILTER_EQUALITY :: ber_tag_t where "LDAP_FILTER_EQUALITY \<equiv> 0xa3"
abbreviation (input) LDAP_FILTER_SUBSTRINGS :: ber_tag_t where "LDAP_FILTER_SUBSTRINGS \<equiv> 0xa4"
abbreviation (input) LDAP_FILTER_GE :: ber_tag_t where "LDAP_FILTER_GE \<equiv> 0xa5"
abbreviation (input) LDAP_FILTER_LE :: ber_tag_t where "LDAP_FILTER_LE \<equiv> 0xa6"
abbreviation (input) LDAP_FILTER_PRESENT :: ber_tag_t where "LDAP_FILTER_PRESENT \<equiv> 0x87"
abbreviation (input) LDAP_FILTER_APPROX :: ber_tag_t where "LDAP_FILTER_APPROX \<equiv> 0xa8"
abbreviation (input) LDAP_FILTER_EXT :: ber_tag_t where "LDAP_FILTER_EXT \<equiv> 0xa9"
abbreviation (input) LDAP_FILTER_EXT_OID :: ber_tag_t where "LDAP_FILTER_EXT_OID \<equiv> 0x81"
abbreviation (input) LDAP_FILTER_EXT_TYPE :: ber_tag_t where "LDAP_FILTER_EXT_TYPE \<equiv> 0x82"
abbreviation (input) LDAP_FILTER_EXT_VALUE :: ber_tag_t where "LDAP_FILTER_EXT_VALUE \<equiv> 0x83"
abbreviation (input) LDAP_FILTER_EXT_DNATTRS :: ber_tag_t where "LDAP_FILTER_EXT_DNATTRS \<equiv> 0x84"
abbreviation (input) LDAP_SUBSTRING_INITIAL :: ber_tag_t where "LDAP_SUBSTRING_INITIAL \<equiv> 0x80"
abbreviation (input) LDAP_SUBSTRING_ANY :: ber_tag_t where "LDAP_SUBSTRING_ANY \<equiv> 0x81"
abbreviation (input) LDAP_SUBSTRING_FINAL :: ber_tag_t where "LDAP_SUBSTRING_FINAL \<equiv> 0x82"
abbreviation (input) LDAP_NO_MEMORY :: int where "LDAP_NO_MEMORY \<equiv> -10"

definition LDAP_SPACE :: "byte \<Rightarrow> bool" where "LDAP_SPACE c \<longleftrightarrow> c = 0x20 \<or> c = 0x09 \<or> c = 0x0a"
definition LDAP_LDH :: "byte \<Rightarrow> bool" where "LDAP_LDH c \<longleftrightarrow> LDAP_ALNUM c \<or> c = 0x2d"

section \<open>Attribute descriptions and object identifiers\<close>

text \<open>The loop over a dotted number: \<open>dot\<close> is set behind a dot.\<close>

fun oid_loop :: "bool \<Rightarrow> byte list \<Rightarrow> bool" where
  "oid_loop dot [] = (\<not> dot)"
| "oid_loop dot (c # s) =
     (if LDAP_DIGIT c then oid_loop False s
      else if c = 0x2e then (if dot then False else oid_loop True s)
      else False)"

definition ldap_is_oid :: "byte list \<Rightarrow> bool" where
  "ldap_is_oid str =
     (if LDAP_ALPHA (octet_at str 0) then list_all LDAP_LDH (drop 1 str)
      else if LDAP_DIGIT (octet_at str 0) then oid_loop False (drop 1 str)
      else False)"

text \<open>The label \<^verbatim>\<open>options\<close>: one or more octets per option.\<close>

fun desc_options :: "byte list \<Rightarrow> bool"
  and desc_option_rest :: "byte list \<Rightarrow> bool" where
  "desc_options [] = False"
| "desc_options (c # s) = (if \<not> LDAP_LDH c then False else desc_option_rest s)"
| "desc_option_rest [] = True"
| "desc_option_rest (c # s) =
     (if c = 0x3b then desc_options s else if \<not> LDAP_LDH c then False else desc_option_rest s)"

fun desc_name_loop :: "byte list \<Rightarrow> bool" where
  "desc_name_loop [] = True"
| "desc_name_loop (c # s) =
     (if c = 0x3b then desc_options s else if \<not> LDAP_LDH c then False else desc_name_loop s)"

fun desc_oid_loop :: "bool \<Rightarrow> byte list \<Rightarrow> bool" where
  "desc_oid_loop dot [] = (\<not> dot)"
| "desc_oid_loop dot (c # s) =
     (if c = 0x3b then (if dot then False else desc_options s)
      else if LDAP_DIGIT c then desc_oid_loop False s
      else if c = 0x2e then (if dot then False else desc_oid_loop True s)
      else False)"

definition ldap_is_desc :: "byte list \<Rightarrow> bool" where
  "ldap_is_desc str =
     (if LDAP_ALPHA (octet_at str 0) then desc_name_loop (drop 1 str)
      else if LDAP_DIGIT (octet_at str 0) then desc_oid_loop False (drop 1 str)
      else False)"

section \<open>Parentheses, escapes and wildcards\<close>

text \<open>
  The text up to the closing parenthesis and the text from it on; \<open>None\<close> is NULL.  \<^verbatim>\<open>balance\<close> is an \<^verbatim>\<open>int\<close> and a natural number
  here, which is the same for texts with fewer than \<open>2 ^ 31\<close> parentheses.
\<close>

fun right_paren_loop :: "nat \<Rightarrow> bool \<Rightarrow> byte list \<Rightarrow> (byte list \<times> byte list) option" where
  "right_paren_loop balance escape [] = None"
| "right_paren_loop balance escape (c # s) =
     (let balance' = (if escape then balance
                      else if c = 0x28 then balance + 1
                      else if c = 0x29 then balance - 1
                      else balance);
          escape' = (c = 0x5c \<and> \<not> escape)
      in if balance' = 0 then Some ([], c # s)
         else case right_paren_loop balance' escape' s of
                None \<Rightarrow> None
              | Some (a, b) \<Rightarrow> Some (c # a, b))"

definition find_right_paren :: "byte list \<Rightarrow> (byte list \<times> byte list) option" where
  "find_right_paren s = right_paren_loop 1 False s"

definition hex2value :: "byte \<Rightarrow> int" where
  "hex2value c =
     (if 0x30 \<le> c \<and> c \<le> 0x39 then uint c - 0x30
      else if 0x41 \<le> c \<and> c \<le> 0x46 then uint c + (10 - 0x41)
      else if 0x61 \<le> c \<and> c \<le> 0x66 then uint c + (10 - 0x61)
      else -1)"

text \<open>The text before the first wildcard, or the whole text, and what starts there.\<close>

definition skip_over :: "byte list \<Rightarrow> (byte list \<times> byte list) option \<Rightarrow> (byte list \<times> byte list) option" where
  "skip_over a r = (case r of None \<Rightarrow> None | Some (x, y) \<Rightarrow> Some (a @ x, y))"

fun ldap_pvt_find_wildcard :: "byte list \<Rightarrow> (byte list \<times> byte list) option" where
  "ldap_pvt_find_wildcard [] = Some ([], [])"
| "ldap_pvt_find_wildcard (c # s) =
     (if c = 0x2a then Some ([], c # s)
      else if c = 0x28 \<or> c = 0x29 then None
      else if c = 0x5c then
        (case s of
           [] \<Rightarrow> None
         | d # s' \<Rightarrow>
             if LDAP_HEX d \<and> LDAP_HEX (octet_at s' 0)
             then skip_over [c, d, octet_at s' 0] (ldap_pvt_find_wildcard (drop 1 s'))
             else if d \<in> {0x2a, 0x28, 0x29, 0x5c} then skip_over [c, d] (ldap_pvt_find_wildcard s')
             else None)
      else skip_over [c] (ldap_pvt_find_wildcard s))"

text \<open>The octets of the value, or \<open>None\<close> for the return value -1.\<close>

fun ldap_pvt_filter_value_unescape :: "byte list \<Rightarrow> byte list option" where
  "ldap_pvt_filter_value_unescape [] = Some []"
| "ldap_pvt_filter_value_unescape (c # s) =
     (if c \<in> {0x28, 0x29, 0x2a} then None
      else if c = 0x5c then
        (case s of
           [] \<Rightarrow> None
         | d # s' \<Rightarrow>
             if hex2value d \<ge> 0 then
               (if hex2value (octet_at s' 0) < 0 then None
                else map_option (\<lambda>v. of_int (hex2value d * 16 + hex2value (octet_at s' 0)) # v)
                       (ldap_pvt_filter_value_unescape (drop 1 s')))
             else if d \<in> {0x28, 0x29, 0x2a, 0x5c}
             then map_option (\<lambda>v. d # v) (ldap_pvt_filter_value_unescape s')
             else None)
      else map_option (\<lambda>v. c # v) (ldap_pvt_filter_value_unescape s))"

section \<open>Simple filters\<close>

text \<open>One part of a substring filter: nothing for an empty part that is not in the middle.\<close>

definition put_substring_part ::
  "allocator \<Rightarrow> berelement \<Rightarrow> ber_tag_t \<Rightarrow> byte list \<Rightarrow> (int \<times> berelement) option" where
  "put_substring_part ma ber ftype val =
     (if val \<noteq> [] \<or> ftype = LDAP_SUBSTRING_ANY then
        (case ldap_pvt_filter_value_unescape val of
           None \<Rightarrow> Some (-1, ber)
         | Some v \<Rightarrow> if v = [] then Some (-1, ber) else ber_printf ma ber ''to'' [PaTag ftype, PaOctets v])
      else Some (0, ber))"

lemma skip_over_Some: "skip_over a r = Some (x, y) \<longleftrightarrow> (\<exists>x'. r = Some (x', y) \<and> x = a @ x')"
  by (auto simp: skip_over_def split: option.splits)

lemma find_wildcard_split: "ldap_pvt_find_wildcard s = Some (a, b) \<Longrightarrow> s = a @ b \<and> (b = [] \<or> hd b = 0x2a)"
proof (induction s arbitrary: a b rule: length_induct)
  case (1 s)
  have IH: "s' = x @ b \<and> (b = [] \<or> hd b = 0x2a)"
    if "ldap_pvt_find_wildcard s' = Some (x, b)" "length s' < length s" for s' x
    using 1(1) that by blast
  consider "b = s" "a = []" "s = [] \<or> hd s = 0x2a"
    | u s' where "s = u @ s'" "u \<noteq> []" "skip_over u (ldap_pvt_find_wildcard s') = Some (a, b)"
  proof (cases s rule: ldap_pvt_find_wildcard.cases)
    case 1
    then show ?thesis using that(1) \<open>ldap_pvt_find_wildcard s = Some (a, b)\<close> by simp
  next
    case (2 c r)
    note f = \<open>ldap_pvt_find_wildcard s = Some (a, b)\<close>
    show ?thesis
    proof (cases "c = 0x5c")
      case False
      then show ?thesis using f 2 that(1) that(2) [of "[c]" r] by (auto split: if_splits)
    next
      case True
      then obtain d r' where r: "r = d # r'" using f 2 by (cases r) auto
      have "\<not> LDAP_HEX 0" by (simp add: LDAP_HEX_def LDAP_DIGIT_def LDAP_HEXLOWER_def LDAP_HEXUPPER_def)
      then have "r' = octet_at r' 0 # drop 1 r'" if "LDAP_HEX (octet_at r' 0)"
        using that by (cases r') (auto simp: octet_at_def)
      then show ?thesis using f 2 True r that(2) [of "[c, d, octet_at r' 0]" "drop 1 r'"] that(2) [of "[c, d]" r']
        by (simp split: if_splits)
    qed
  qed
  then show ?case
  proof cases
    case (2 u s')
    then obtain x where "ldap_pvt_find_wildcard s' = Some (x, b)" "a = u @ x" by (auto simp: skip_over_Some)
    then show ?thesis using IH [of s' x] 2(1,2) by simp
  qed auto
qed

text \<open>The loop from the second part on, where \<^verbatim>\<open>gotstar\<close> is set.\<close>

function put_substring_loop :: "allocator \<Rightarrow> berelement \<Rightarrow> byte list \<Rightarrow> (int \<times> berelement) option" where
  "put_substring_loop ma ber val =
     (if val = [] then Some (0, ber)
      else case ldap_pvt_find_wildcard val of
             None \<Rightarrow> Some (-1, ber)
           | Some (v, nextstar) \<Rightarrow>
               if nextstar = [] then put_substring_part ma ber LDAP_SUBSTRING_FINAL v
               else on_ok (put_substring_part ma ber LDAP_SUBSTRING_ANY v)
                      (\<lambda>ber. put_substring_loop ma ber (drop 1 nextstar)))"
  by pat_completeness auto
termination
  by (relation "measure (\<lambda>(ma, ber, val). length val)") (auto dest!: find_wildcard_split simp: neq_Nil_conv)

declare put_substring_loop.simps [simp del]

text \<open>\<open>nextstar\<close> is the first part of \<open>val\<close> and what starts at its wildcard.\<close>

definition put_substring_filter ::
  "allocator \<Rightarrow> berelement \<Rightarrow> byte list \<Rightarrow> byte list \<Rightarrow> byte list \<times> byte list \<Rightarrow> (int \<times> berelement) option" where
  "put_substring_filter ma ber type val nextstar =
     on_ok (ber_printf ma ber ''t{s{'' [PaTag LDAP_FILTER_SUBSTRINGS, PaString type]) (\<lambda>ber.
     on_ok (if val = [] then Some (0, ber)
            else if snd nextstar = [] then put_substring_part ma ber LDAP_SUBSTRING_FINAL (fst nextstar)
            else on_ok (put_substring_part ma ber LDAP_SUBSTRING_INITIAL (fst nextstar)) (\<lambda>ber.
                 put_substring_loop ma ber (drop 1 (snd nextstar)))) (\<lambda>ber.
     on_ok (ber_printf ma ber ''N}N}'' []) (\<lambda>ber.
     Some (0, ber))))"

text \<open>An assertion about a value, as for equality, order and approximate match.\<close>

definition put_assertion ::
  "allocator \<Rightarrow> berelement \<Rightarrow> ber_tag_t \<Rightarrow> byte list \<Rightarrow> byte list \<Rightarrow> (int \<times> berelement) option" where
  "put_assertion ma ber ftype str val =
     (if \<not> ldap_is_desc str then Some (-1, ber)
      else case ldap_pvt_filter_value_unescape val of
             None \<Rightarrow> Some (-1, ber)
           | Some v \<Rightarrow>
               on_ok (ber_printf ma ber ''t{soN}'' [PaTag ftype, PaString str, PaOctets v]) (\<lambda>ber. Some (0, ber)))"

text \<open>The case \<^verbatim>\<open>default\<close>: equality, presence or substrings.\<close>

definition put_default ::
  "allocator \<Rightarrow> berelement \<Rightarrow> byte list \<Rightarrow> byte list \<Rightarrow> (int \<times> berelement) option" where
  "put_default ma ber str val =
     (if \<not> ldap_is_desc str then Some (-1, ber)
      else case ldap_pvt_find_wildcard val of
             None \<Rightarrow> Some (-1, ber)
           | Some (v, nextstar) \<Rightarrow>
               if nextstar = [] then put_assertion ma ber LDAP_FILTER_EQUALITY str val
               else if val = [0x2a] then
                 on_ok (ber_printf ma ber ''ts'' [PaTag LDAP_FILTER_PRESENT, PaString str]) (\<lambda>ber. Some (0, ber))
               else put_substring_filter ma ber str val (v, nextstar))"

text \<open>
  Extensible match.  Attribute, \<^verbatim>\<open>:dn\<close> flag and rule of the text before \<^verbatim>\<open>:=\<close>; a NULL and an empty rule are treated
  alike.  \<open>None\<close> is \<^verbatim>\<open>goto done\<close>.
\<close>

definition ext_parts :: "byte list \<Rightarrow> (byte list \<times> bool \<times> byte list) option" where
  "ext_parts str =
     (case c_strchr 0x3a str of
        None \<Rightarrow> Some (str, False, [])
      | Some (str, dn) \<Rightarrow>
          (case c_strchr 0x3a dn of
             None \<Rightarrow> if strcasecmp dn [0x64, 0x6e] = 0
                     then (if \<not> ldap_is_desc str then None else Some (str, True, []))
                     else Some (str, False, dn)
           | Some (dn, rule) \<Rightarrow> if strcasecmp dn [0x64, 0x6e] \<noteq> 0 then None else Some (str, True, rule)))"

text \<open>\<^verbatim>\<open>if( rc != -1 && cond ) rc = call;\<close>\<close>

definition if_call ::
  "bool \<Rightarrow> berelement \<Rightarrow> (int \<times> berelement) option \<Rightarrow> (int \<times> berelement) option" where
  "if_call cond ber call = (if cond then call else Some (0, ber))"

definition put_ext ::
  "allocator \<Rightarrow> berelement \<Rightarrow> byte list \<times> bool \<times> byte list \<Rightarrow> byte list \<Rightarrow> (int \<times> berelement) option" where
  "put_ext ma ber parts val =
     (case parts of (str, dn, rule) \<Rightarrow>
        if str = [] \<and> rule = [] then Some (-1, ber)
        else if str \<noteq> [] \<and> \<not> ldap_is_desc str then Some (-1, ber)
        else if rule \<noteq> [] \<and> \<not> ldap_is_oid rule then Some (-1, ber)
        else
          on_ok (ber_printf ma ber ''t{'' [PaTag LDAP_FILTER_EXT]) (\<lambda>ber.
          on_ok (if_call (rule \<noteq> []) ber (ber_printf ma ber ''ts'' [PaTag LDAP_FILTER_EXT_OID, PaString rule])) (\<lambda>ber.
          on_ok (if_call (str \<noteq> []) ber (ber_printf ma ber ''ts'' [PaTag LDAP_FILTER_EXT_TYPE, PaString str])) (\<lambda>ber.
          on_ok (case ldap_pvt_filter_value_unescape val of
                   None \<Rightarrow> Some (-1, ber)
                 | Some v \<Rightarrow> ber_printf ma ber ''to'' [PaTag LDAP_FILTER_EXT_VALUE, PaOctets v]) (\<lambda>ber.
          on_ok (if_call dn ber (ber_printf ma ber ''tb'' [PaTag LDAP_FILTER_EXT_DNATTRS, PaInt 1])) (\<lambda>ber.
          on_ok (ber_printf ma ber ''N}'' []) (\<lambda>ber. Some (0, ber))))))))"

text \<open>
  The text before the first \<^verbatim>\<open>=\<close> decides by its last octet.  When the \<^verbatim>\<open>=\<close> comes first the code reads the octet before
  its allocated copy: \<open>None\<close>.
\<close>

definition put_simple_filter :: "allocator \<Rightarrow> berelement \<Rightarrow> byte list \<Rightarrow> (int \<times> berelement) option" where
  "put_simple_filter ma ber str =
     (if \<not> ma (length str + 1) then Some (-1, ber)
      else case c_strchr 0x3d str of
             None \<Rightarrow> Some (-1, ber)
           | Some (str, val) \<Rightarrow>
               if str = [] then None
               else if last str = 0x3c then put_assertion ma ber LDAP_FILTER_LE (butlast str) val
               else if last str = 0x3e then put_assertion ma ber LDAP_FILTER_GE (butlast str) val
               else if last str = 0x7e then put_assertion ma ber LDAP_FILTER_APPROX (butlast str) val
               else if last str = 0x3a then
                 (case ext_parts (butlast str) of
                    None \<Rightarrow> Some (-1, ber)
                  | Some parts \<Rightarrow> put_ext ma ber parts val)
               else put_default ma ber str val)"

section \<open>Filters\<close>

text \<open>
  What the \<^verbatim>\<open>switch\<close> of \<^verbatim>\<open>ldap_pvt_put_filter\<close> selects: the text to handle, the text where it continues, and the change
  of \<^verbatim>\<open>parens\<close>.  The balanced text of a simple filter is found by the same loop as in \<^verbatim>\<open>find_right_paren\<close>.
\<close>

datatype filter_item = FComplex ber_tag_t "byte list" | FSimple "byte list" | FEnd | FBlank | FBad

definition complex_next :: "byte list \<Rightarrow> byte list" where
  "complex_next str = (case find_right_paren (drop 1 str) of None \<Rightarrow> [] | Some (_, next) \<Rightarrow> drop 1 next)"

definition filter_open :: "byte list \<Rightarrow> filter_item \<times> byte list" where
  "filter_open str =
     (let c = octet_at str 0
      in if c = 0x26 then (FComplex LDAP_FILTER_AND str, complex_next str)
         else if c = 0x7c then (FComplex LDAP_FILTER_OR str, complex_next str)
         else if c = 0x21 then (FComplex LDAP_FILTER_NOT str, complex_next str)
         else if c = 0x28 then (FBad, [])
         else case right_paren_loop 1 False str of
                None \<Rightarrow> (FBad, [])
              | Some (s, next) \<Rightarrow> (FSimple s, drop 1 next))"

definition filter_switch :: "byte list \<Rightarrow> filter_item \<times> byte list \<times> int" where
  "filter_switch str =
     (let c = octet_at str 0
      in if c = 0x28 then
           (case filter_open (dropWhile LDAP_SPACE (drop 1 str)) of (it, next) \<Rightarrow> (it, next, 1 - 1))
         else if c = 0x29 then (FEnd, drop 1 str, -1)
         else if c = 0x20 then (FBlank, drop 1 str, 0)
         else (FSimple str, [], 0))"

lemma right_paren_split:
  "right_paren_loop n e s = Some (a, b) \<Longrightarrow> 0 < n \<Longrightarrow> s = a @ b \<and> b \<noteq> [] \<and> hd b = 0x29"
proof (induction s arbitrary: n e a)
  case (Cons c s)
  let ?n = "if e then n else if c = 0x28 then n + 1 else if c = 0x29 then n - 1 else n"
  show ?case
  proof (cases "?n = 0")
    case True
    then show ?thesis using Cons.prems by (auto split: if_splits)
  next
    case False
    then obtain a' where "right_paren_loop ?n (c = 0x5c \<and> \<not> e) s = Some (a', b)" "a = c # a'"
      using Cons.prems(1) by (simp only: right_paren_loop.simps Let_def if_False) (auto split: option.splits)
    then show ?thesis using Cons.IH False by fastforce
  qed
qed simp

lemma find_right_paren_length:
  assumes "find_right_paren (drop 1 s) = Some (a, b)"
  shows "s \<noteq> [] \<and> length s = Suc (length a + length b) \<and> b \<noteq> []"
  using assms right_paren_split [of 1 False "drop 1 s" a b] by (cases s) (auto simp: find_right_paren_def)

lemma dropWhile_shorter: "length (dropWhile P xs) \<le> length xs"
  by (rule length_dropWhile_le)

lemma complex_next_shorter: "length (complex_next s) \<le> length s"
proof (cases "find_right_paren (drop 1 s)")
  case (Some p)
  then have "length s = Suc (length (fst p) + length (snd p))"
    using find_right_paren_length [of s "fst p" "snd p"] by simp
  then show ?thesis using Some by (cases p) (simp add: complex_next_def)
qed (simp add: complex_next_def)

lemma filter_open_shorter:
  assumes "filter_open s = (it, rest)"
  shows "length rest \<le> length s \<and> (\<forall>t u. it = FComplex t u \<longrightarrow> length u \<le> length s)"
  using assms
proof (cases "right_paren_loop 1 False s")
  case (Some p)
  then have "length s = length (fst p) + length (snd p)"
    using right_paren_split [of 1 False s "fst p" "snd p"] by (metis length_append prod.collapse zero_less_one)
  then show ?thesis using assms Some complex_next_shorter [of s]
    by (auto simp: filter_open_def Let_def split: if_splits prod.splits)
qed (use complex_next_shorter [of s] in \<open>auto simp: filter_open_def Let_def split: if_splits\<close>)

lemma filter_switch_shorter:
  assumes "filter_switch s = (it, rest, d)" and "s \<noteq> []"
  shows "length rest < length s" and "it = FComplex t u \<Longrightarrow> length u < length s"
proof -
  have "length (dropWhile LDAP_SPACE (drop 1 s)) < length s"
    using dropWhile_shorter [of LDAP_SPACE "drop 1 s"] assms(2) by (cases s) auto
  then show "length rest < length s" "it = FComplex t u \<Longrightarrow> length u < length s"
    using assms filter_open_shorter [of "dropWhile LDAP_SPACE (drop 1 s)"]
    by (fastforce simp: filter_switch_def Let_def split: if_splits prod.splits)+
qed

text \<open>The end of \<^verbatim>\<open>put_filter_list\<close>: \<open>nonnull\<close> says that a filter has been found.\<close>

definition filter_list_done :: "ber_tag_t \<Rightarrow> bool \<Rightarrow> byte list \<Rightarrow> berelement \<Rightarrow> (int \<times> berelement) option" where
  "filter_list_done tag nonnull str ber =
     (if tag = LDAP_FILTER_NOT \<and> (\<not> nonnull \<or> str \<noteq> []) then Some (-1, ber) else Some (0, ber))"

function (sequential) put_complex_filter ::
    "allocator \<Rightarrow> berelement \<Rightarrow> byte list \<Rightarrow> ber_tag_t \<Rightarrow> (int \<times> berelement) option"
  and put_filter_loop :: "allocator \<Rightarrow> berelement \<Rightarrow> byte list \<Rightarrow> int \<Rightarrow> (int \<times> berelement) option"
  and ldap_pvt_put_filter :: "allocator \<Rightarrow> berelement \<Rightarrow> byte list \<Rightarrow> (int \<times> berelement) option"
  and put_filter_list :: "allocator \<Rightarrow> berelement \<Rightarrow> byte list \<Rightarrow> ber_tag_t \<Rightarrow> bool \<Rightarrow> (int \<times> berelement) option" where
  "put_complex_filter ma ber str tag =
     on_ok (ber_printf ma ber ''t{'' [PaTag tag]) (\<lambda>ber.
       case find_right_paren (drop 1 str) of
         None \<Rightarrow> Some (-1, ber)
       | Some (str, next) \<Rightarrow>
           on_ok (put_filter_list ma ber str tag False) (\<lambda>ber. ber_printf ma ber ''N}'' []))"
| "put_filter_loop ma ber str parens =
     (if str = [] then Some (if parens \<noteq> 0 then -1 else 0, ber)
      else case filter_switch str of
             (it, next, d) \<Rightarrow>
               on_ok (case it of
                        FComplex tag s \<Rightarrow> put_complex_filter ma ber s tag
                      | FSimple s \<Rightarrow> put_simple_filter ma ber s
                      | FEnd \<Rightarrow> ber_printf ma ber '']'' []
                      | FBlank \<Rightarrow> Some (0, ber)
                      | FBad \<Rightarrow> Some (-1, ber))
                 (\<lambda>ber. if parens + d = 0 then Some (if next \<noteq> [] then -1 else 0, ber)
                        else put_filter_loop ma ber next (parens + d)))"
| "ldap_pvt_put_filter ma ber str_in =
     (if \<not> ma (length str_in + 1) then Some (LDAP_NO_MEMORY, ber) else put_filter_loop ma ber str_in 0)"
| "put_filter_list ma ber str tag nonnull =
     (let str = dropWhile LDAP_SPACE str
      in if str = [] then filter_list_done tag nonnull str ber
         else case find_right_paren (drop 1 str) of
                None \<Rightarrow> Some (-1, ber)
              | Some (s, next) \<Rightarrow>
                  on_ok (ldap_pvt_put_filter ma ber (octet_at str 0 # s @ [octet_at next 0])) (\<lambda>ber.
                    if tag = LDAP_FILTER_NOT then filter_list_done tag True (drop 1 next) ber
                    else put_filter_list ma ber (drop 1 next) tag True))"
  by pat_completeness auto
termination
proof (relation "measure (\<lambda>x. case x of
    Inl (Inl (ma, ber, str, tag)) \<Rightarrow> 4 * length str
  | Inl (Inr (ma, ber, str, parens)) \<Rightarrow> 4 * length str + 1
  | Inr (Inl (ma, ber, str)) \<Rightarrow> 4 * length str + 2
  | Inr (Inr (ma, ber, str, tag, nonnull)) \<Rightarrow> 4 * length str + 3)", goal_cases)
  case (2 ma ber str tag ber' x s nx)
  then show ?case using find_right_paren_length [of str s nx] by simp
next
  case (3 ma ber str parens it y nx d tag s)
  then show ?case using filter_switch_shorter(2) [of str it nx d tag s] by simp
next
  case (4 ma ber str parens it y nx d ber')
  then show ?case using filter_switch_shorter(1) [of str it nx d] by simp
next
  case (6 ma ber str tag nonnull str' x s nx)
  then show ?case using find_right_paren_length [of str' s nx] dropWhile_shorter [of LDAP_SPACE str]
    by (cases nx) auto
next
  case (7 ma ber str tag nonnull str' x s nx ber')
  then show ?case using find_right_paren_length [of str' s nx] dropWhile_shorter [of LDAP_SPACE str]
    by (cases nx) auto
qed simp_all

declare put_complex_filter.simps [simp del] put_filter_loop.simps [simp del]
  ldap_pvt_put_filter.simps [simp del] put_filter_list.simps [simp del]

section \<open>Values-return filters\<close>

text \<open>Extensible match without \<^verbatim>\<open>:dn\<close>.\<close>

definition vr_ext_parts :: "byte list \<Rightarrow> (byte list \<times> bool \<times> byte list) option" where
  "vr_ext_parts str =
     (case c_strchr 0x3a str of
        None \<Rightarrow> if \<not> ldap_is_desc str then None else Some (str, False, [])
      | Some (str, rule) \<Rightarrow> Some (str, False, rule))"

definition put_simple_vrFilter :: "allocator \<Rightarrow> berelement \<Rightarrow> byte list \<Rightarrow> (int \<times> berelement) option" where
  "put_simple_vrFilter ma ber str =
     (if \<not> ma (length str + 1) then Some (-1, ber)
      else case c_strchr 0x3d str of
             None \<Rightarrow> Some (-1, ber)
           | Some (str, val) \<Rightarrow>
               if str = [] then None
               else if last str = 0x3c then put_assertion ma ber LDAP_FILTER_LE (butlast str) val
               else if last str = 0x3e then put_assertion ma ber LDAP_FILTER_GE (butlast str) val
               else if last str = 0x7e then put_assertion ma ber LDAP_FILTER_APPROX (butlast str) val
               else if last str = 0x3a then
                 (case vr_ext_parts (butlast str) of
                    None \<Rightarrow> Some (-1, ber)
                  | Some parts \<Rightarrow> put_ext ma ber parts val)
               else put_default ma ber str val)"

datatype vr_item = VList "byte list" | VSimple "byte list" | VEnd | VBlank | VBad

definition vr_open :: "byte list \<Rightarrow> vr_item \<times> byte list" where
  "vr_open str =
     (case right_paren_loop 1 False str of
        None \<Rightarrow> (VBad, [])
      | Some (s, next) \<Rightarrow> (if octet_at str 0 = 0x28 then VList s else VSimple s, drop 1 next))"

definition vr_switch :: "byte list \<Rightarrow> vr_item \<times> byte list \<times> int" where
  "vr_switch str =
     (let c = octet_at str 0
      in if c = 0x28 then (case vr_open (dropWhile LDAP_SPACE (drop 1 str)) of (it, next) \<Rightarrow> (it, next, 1 - 1))
         else if c = 0x29 then (VEnd, drop 1 str, -1)
         else if c = 0x20 then (VBlank, drop 1 str, 0)
         else (VSimple str, [], 0))"

lemma vr_open_shorter:
  assumes "vr_open s = (it, rest)"
  shows "length rest \<le> length s \<and> (\<forall>u. it = VList u \<longrightarrow> length u \<le> length s)"
proof (cases "right_paren_loop 1 False s")
  case (Some p)
  then have "length s = length (fst p) + length (snd p)"
    using right_paren_split [of 1 False s "fst p" "snd p"] by (metis length_append prod.collapse zero_less_one)
  then show ?thesis using assms Some by (auto simp: vr_open_def split: if_splits prod.splits)
qed (use assms in \<open>auto simp: vr_open_def\<close>)

lemma vr_switch_shorter:
  assumes "vr_switch s = (it, rest, d)" and "s \<noteq> []"
  shows "length rest < length s" and "it = VList u \<Longrightarrow> length u < length s"
proof -
  have "length (dropWhile LDAP_SPACE (drop 1 s)) < length s"
    using dropWhile_shorter [of LDAP_SPACE "drop 1 s"] assms(2) by (cases s) auto
  then show "length rest < length s" "it = VList u \<Longrightarrow> length u < length s"
    using assms vr_open_shorter [of "dropWhile LDAP_SPACE (drop 1 s)"]
    by (fastforce simp: vr_switch_def Let_def split: if_splits prod.splits)+
qed

function (sequential) put_vrFilter_loop :: "allocator \<Rightarrow> berelement \<Rightarrow> byte list \<Rightarrow> int \<Rightarrow> (int \<times> berelement) option"
  and put_vrFilter :: "allocator \<Rightarrow> berelement \<Rightarrow> byte list \<Rightarrow> (int \<times> berelement) option"
  and put_vrFilter_list :: "allocator \<Rightarrow> berelement \<Rightarrow> byte list \<Rightarrow> (int \<times> berelement) option" where
  "put_vrFilter_loop ma ber str parens =
     (if str = [] then Some (if parens \<noteq> 0 then -1 else 0, ber)
      else case vr_switch str of
             (it, next, d) \<Rightarrow>
               on_ok (case it of
                        VList s \<Rightarrow> put_vrFilter_list ma ber s
                      | VSimple s \<Rightarrow> put_simple_vrFilter ma ber s
                      | VEnd \<Rightarrow> ber_printf ma ber '']'' []
                      | VBlank \<Rightarrow> Some (0, ber)
                      | VBad \<Rightarrow> Some (-1, ber))
                 (\<lambda>ber. put_vrFilter_loop ma ber next (parens + d)))"
| "put_vrFilter ma ber str_in =
     (if \<not> ma (length str_in + 1) then Some (LDAP_NO_MEMORY, ber) else put_vrFilter_loop ma ber str_in 0)"
| "put_vrFilter_list ma ber str =
     (let str = dropWhile LDAP_SPACE str
      in if str = [] then Some (0, ber)
         else case find_right_paren (drop 1 str) of
                None \<Rightarrow> Some (-1, ber)
              | Some (s, next) \<Rightarrow>
                  on_ok (put_vrFilter ma ber (octet_at str 0 # s @ [octet_at next 0])) (\<lambda>ber.
                    put_vrFilter_list ma ber (drop 1 next)))"
  by pat_completeness auto
termination
proof (relation "measure (\<lambda>x. case x of
    Inl (ma, ber, str, parens) \<Rightarrow> 4 * length str + 1
  | Inr (Inl (ma, ber, str)) \<Rightarrow> 4 * length str + 2
  | Inr (Inr (ma, ber, str)) \<Rightarrow> 4 * length str + 3)", goal_cases)
  case (2 ma ber str parens it y nx d s)
  then show ?case using vr_switch_shorter(2) [of str it nx d s] by simp
next
  case (3 ma ber str parens it y nx d ber')
  then show ?case using vr_switch_shorter(1) [of str it nx d] by simp
next
  case (5 ma ber str str' x s nx)
  then show ?case using find_right_paren_length [of str' s nx] dropWhile_shorter [of LDAP_SPACE str]
    by (cases nx) auto
next
  case (6 ma ber str str' x s nx ber')
  then show ?case using find_right_paren_length [of str' s nx] dropWhile_shorter [of LDAP_SPACE str]
    by (cases nx) auto
qed simp_all

declare put_vrFilter_loop.simps [simp del] put_vrFilter.simps [simp del] put_vrFilter_list.simps [simp del]

text \<open>The return code of the first \<^verbatim>\<open>ber_printf\<close> is overwritten by the code.\<close>

definition ldap_put_vrFilter :: "allocator \<Rightarrow> berelement \<Rightarrow> byte list \<Rightarrow> (int \<times> berelement) option" where
  "ldap_put_vrFilter ma ber str_in =
     (case ber_printf ma ber ''{'' [] of
        None \<Rightarrow> None
      | Some (_, ber) \<Rightarrow>
          (case put_vrFilter ma ber str_in of
             None \<Rightarrow> None
           | Some (rc, ber) \<Rightarrow>
               (case ber_printf ma ber ''N}'' [] of
                  None \<Rightarrow> None
                | Some (rc2, ber) \<Rightarrow> Some (if rc2 = -1 then -1 else rc, ber))))"

section \<open>Escaping values\<close>

text \<open>\<^verbatim>\<open>NEEDFLTESCAPE\<close> with the table \<^verbatim>\<open>escape\<close> of \<^verbatim>\<open>search.c\<close>.\<close>

definition flt_escape :: "nat list" where
  "flt_escape =
    [1, 1, 1, 1, 1, 1, 1, 1,  1, 1, 1, 1, 1, 1, 1, 1,  1, 1, 1, 1, 1, 1, 1, 1,  1, 1, 1, 1, 1, 1, 1, 1,
     0, 0, 0, 0, 0, 0, 0, 0,  1, 1, 1, 0, 0, 0, 0, 0,  0, 0, 0, 0, 0, 0, 0, 0,  0, 0, 0, 0, 0, 0, 0, 0,
     0, 0, 0, 0, 0, 0, 0, 0,  0, 0, 0, 0, 0, 0, 0, 0,  0, 0, 0, 0, 0, 0, 0, 0,  0, 0, 0, 0, 1, 0, 0, 0,
     0, 0, 0, 0, 0, 0, 0, 0,  0, 0, 0, 0, 0, 0, 0, 0,  0, 0, 0, 0, 0, 0, 0, 0,  0, 0, 0, 0, 0, 0, 0, 1]"

definition NEEDFLTESCAPE :: "byte \<Rightarrow> bool" where
  "NEEDFLTESCAPE c \<longleftrightarrow> c AND 0x80 \<noteq> 0 \<or> flt_escape ! unat c \<noteq> 0"

definition ldap_bv2escaped_filter_value_len :: "byte list \<Rightarrow> nat" where
  "ldap_bv2escaped_filter_value_len inp =
     foldl (\<lambda>l c. if NEEDFLTESCAPE c then l + 3 else l + 1) 0 inp"

definition hex_upper :: "nat \<Rightarrow> byte" where
  "hex_upper n = [0x30, 0x31, 0x32, 0x33, 0x34, 0x35, 0x36, 0x37, 0x38, 0x39, 0x41, 0x42, 0x43, 0x44, 0x45, 0x46] ! n"

text \<open>The loop with its assertions on the room left: \<open>None\<close> where one fails.\<close>

fun escape_loop :: "nat \<Rightarrow> byte list \<Rightarrow> byte list \<Rightarrow> byte list option" where
  "escape_loop l out [] = Some out"
| "escape_loop l out (c # inp) =
     (if NEEDFLTESCAPE c then
        (if length out < l - 2
         then escape_loop l (out @ [0x5c, hex_upper (unat (drop_bit 4 c)), hex_upper (unat (c AND 0x0f))]) inp
         else None)
      else if length out < l then escape_loop l (out @ [c]) inp else None)"

text \<open>
  The return value and the value: \<open>None\<close> inside for a NULL \<^verbatim>\<open>bv_val\<close>, outside for a failed assertion.  When nothing needs
  escaping the value is the input itself or, where it is not \<open>inplace\<close>, a copy of it.
\<close>

definition ldap_bv2escaped_filter_value_x ::
  "allocator \<Rightarrow> byte list \<Rightarrow> bool \<Rightarrow> (int \<times> byte list option) option" where
  "ldap_bv2escaped_filter_value_x ma inp inplace =
     (if inp = [] then Some (0, None)
      else let l = ldap_bv2escaped_filter_value_len inp
           in if l = length inp then Some (0, if inplace \<or> ma (length inp + 1) then Some inp else None)
              else if \<not> ma (l + 1) then Some (-1, None)
              else case escape_loop l [] inp of None \<Rightarrow> None | Some out \<Rightarrow> Some (0, Some out))"

definition ldap_bv2escaped_filter_value :: "allocator \<Rightarrow> byte list \<Rightarrow> (int \<times> byte list option) option" where
  "ldap_bv2escaped_filter_value ma inp = ldap_bv2escaped_filter_value_x ma inp False"

end
