(* ===== verification/Filter_Text.thy ===== *)
theory Filter_Text
  imports Ldap_Filter
begin

text \<open>
  The texts of filters: escaped values, attribute descriptions, and how the scanners of \<^verbatim>\<open>filter.c\<close> run over
  them.  A text is neutral when the search for a closing parenthesis passes over it.
\<close>

section \<open>Escaped octets\<close>

definition esc1 :: "byte \<Rightarrow> byte list" where
  "esc1 c = (if NEEDFLTESCAPE c then [0x5c, hex_upper (unat (drop_bit 4 c)), hex_upper (unat (c AND 0x0f))] else [c])"

definition esc :: "byte list \<Rightarrow> byte list" where
  "esc v = concat (map esc1 v)"

lemma esc_Nil [simp]: "esc [] = []" and esc_Cons: "esc (c # v) = esc1 c @ esc v"
  by (simp_all add: esc_def)

lemma escaped_specials: "NEEDFLTESCAPE 0" "NEEDFLTESCAPE 0x28" "NEEDFLTESCAPE 0x29" "NEEDFLTESCAPE 0x2a" "NEEDFLTESCAPE 0x5c"
  by (simp_all add: NEEDFLTESCAPE_def flt_escape_def)

lemma not_escaped: "\<not> NEEDFLTESCAPE c \<Longrightarrow> c \<noteq> 0 \<and> c \<noteq> 0x28 \<and> c \<noteq> 0x29 \<and> c \<noteq> 0x2a \<and> c \<noteq> 0x5c"
  using escaped_specials by metis

lemma hex_upper_digit:
  assumes "n < 16"
  shows "hex2value (hex_upper n) = int n" and "LDAP_HEX (hex_upper n)"
    and "hex_upper n \<notin> {0, 0x28, 0x29, 0x2a, 0x5c}"
proof -
  have "\<forall>n\<in>set [0..<16]. hex2value (hex_upper n) = int n \<and> LDAP_HEX (hex_upper n)
      \<and> hex_upper n \<notin> {0, 0x28, 0x29, 0x2a, 0x5c}"
    by code_simp
  then have "hex2value (hex_upper n) = int n \<and> LDAP_HEX (hex_upper n) \<and> hex_upper n \<notin> {0, 0x28, 0x29, 0x2a, 0x5c}"
    using assms by simp
  then show "hex2value (hex_upper n) = int n" "LDAP_HEX (hex_upper n)" "hex_upper n \<notin> {0, 0x28, 0x29, 0x2a, 0x5c}"
    by blast+
qed

lemma nibbles: "unat (drop_bit 4 (c :: byte)) = unat c div 16" "unat (c AND 0x0f) = unat c mod 16"
proof -
  have "unat (drop_bit 4 c) = drop_bit 4 (take_bit LENGTH(8) (unat c))" by (rule unsigned_drop_bit_eq)
  also have "\<dots> = drop_bit 4 (unat c)" by (simp only: take_bit_nat_eq_self [OF unsigned_less])
  finally show "unat (drop_bit 4 c) = unat c div 16" by (simp add: drop_bit_eq_div)
  have "c AND 0x0f = take_bit 4 c" by (simp add: take_bit_eq_mask mask_eq_exp_minus_1)
  then have "unat (c AND 0x0f) = take_bit 4 (unat c)" by (simp only: unsigned_take_bit_eq)
  then show "unat (c AND 0x0f) = unat c mod 16" by (simp add: take_bit_eq_mod)
qed

lemma nibbles_less: "unat (drop_bit 4 (c :: byte)) < 16" "unat ((c :: byte) AND 0x0f) < 16"
  unfolding nibbles using unat_byte_less [of c] by (auto intro: less_mult_imp_div_less)

lemma nibbles_join: "of_int (int (unat (drop_bit 4 c)) * 16 + int (unat (c AND 0x0f))) = (c :: byte)"
proof -
  have "int (unat (drop_bit 4 c)) * 16 + int (unat (c AND 0x0f)) = int (unat c)"
    unfolding nibbles by (simp add: zdiv_int zmod_int)
  then show ?thesis by simp
qed

lemma unescape_esc1:
  "ldap_pvt_filter_value_unescape (esc1 c @ s) = map_option (\<lambda>v. c # v) (ldap_pvt_filter_value_unescape s)"
proof (cases "NEEDFLTESCAPE c")
  case True
  show ?thesis using hex_upper_digit [OF nibbles_less(1) [of c]] hex_upper_digit [OF nibbles_less(2) [of c]] nibbles_join [of c]
    by (simp add: esc1_def True octet_at_def)
next
  case False
  then show ?thesis using not_escaped [OF False] by (simp add: esc1_def)
qed

lemma unescape_esc: "ldap_pvt_filter_value_unescape (esc v) = Some v"
  by (induction v) (simp_all add: esc_Cons unescape_esc1)

lemma find_wildcard_esc1: "ldap_pvt_find_wildcard (esc1 c @ s) = skip_over (esc1 c) (ldap_pvt_find_wildcard s)"
proof (cases "NEEDFLTESCAPE c")
  case True
  show ?thesis using hex_upper_digit [OF nibbles_less(1) [of c]] hex_upper_digit [OF nibbles_less(2) [of c]]
    by (simp add: esc1_def True octet_at_def)
next
  case False
  then show ?thesis using not_escaped [OF False] by (simp add: esc1_def)
qed

lemma skip_over_skip_over: "skip_over a (skip_over b r) = skip_over (a @ b) r"
  by (simp add: skip_over_def split: option.split)

lemma find_wildcard_esc: "ldap_pvt_find_wildcard (esc v @ s) = skip_over (esc v) (ldap_pvt_find_wildcard s)"
proof (induction v)
  case Nil
  show ?case by (simp add: skip_over_def split: option.split)
next
  case (Cons c v)
  then show ?case by (simp add: esc_Cons find_wildcard_esc1 skip_over_skip_over)
qed

lemma esc_no_wildcard: "ldap_pvt_find_wildcard (esc v) = Some (esc v, [])"
  using find_wildcard_esc [of v "[]"] by (simp add: skip_over_def)

lemma esc_to_wildcard: "ldap_pvt_find_wildcard (esc v @ 0x2a # s) = Some (esc v, 0x2a # s)"
  using find_wildcard_esc [of v "0x2a # s"] by (simp add: skip_over_def)

lemma esc_empty [simp]: "esc v = [] \<longleftrightarrow> v = []"
  by (cases v) (auto simp: esc_Cons esc1_def)

text \<open>The routine of \<^verbatim>\<open>search.c\<close> computes this text.\<close>

lemma escaped_len: "ldap_bv2escaped_filter_value_len v = length (esc v)"
proof -
  have "foldl (\<lambda>l c. if NEEDFLTESCAPE c then l + 3 else l + 1) n v = n + length (esc v)" for n
    by (induction v arbitrary: n) (auto simp: esc_Cons esc1_def)
  then show ?thesis by (simp add: ldap_bv2escaped_filter_value_len_def)
qed

lemma escape_loop_esc: "escape_loop (length (out @ esc v)) out v = Some (out @ esc v)"
proof (induction v arbitrary: out)
  case (Cons c v)
  then show ?case using Cons [of "out @ esc1 c"] by (auto simp: esc_Cons esc1_def)
qed simp

lemma esc_same_length: "length (esc v) = length v \<Longrightarrow> esc v = v"
proof (induction v)
  case (Cons c v)
  have "length v \<le> length (esc v)" for v by (induction v) (auto simp: esc_Cons esc1_def)
  then show ?case using Cons by (auto simp: esc_Cons esc1_def not_less_eq_eq [symmetric] split: if_splits)
      (metis Suc_n_not_le_n le_SucI le_trans)+
qed simp

lemma escaped_value:
  assumes "\<forall>n. ma n" and "v \<noteq> []"
  shows "ldap_bv2escaped_filter_value ma v = Some (0, Some (esc v))"
  using assms escape_loop_esc [of "[]" v] esc_same_length [of v]
  by (auto simp: ldap_bv2escaped_filter_value_def ldap_bv2escaped_filter_value_x_def escaped_len Let_def)

section \<open>Neutral texts\<close>

definition neutral :: "byte list \<Rightarrow> bool" where
  "neutral s \<longleftrightarrow> (\<forall>n r. right_paren_loop (Suc n) False (s @ r) = skip_over s (right_paren_loop (Suc n) False r))"

lemma skip_over_Nil [simp]: "skip_over [] r = r"
  by (simp add: skip_over_def split: option.split)

lemma neutral_Nil [simp]: "neutral []"
  by (simp add: neutral_def)

lemma neutral_append: "neutral a \<Longrightarrow> neutral b \<Longrightarrow> neutral (a @ b)"
  by (simp add: neutral_def skip_over_skip_over)

lemma neutral_octet: "c \<notin> {0x28, 0x29, 0x5c} \<Longrightarrow> neutral [c]"
  by (simp add: neutral_def skip_over_def split: option.split)

lemma neutral_plain: "\<forall>c\<in>set s. c \<notin> {0x28, 0x29, 0x5c} \<Longrightarrow> neutral s"
proof (induction s)
  case (Cons c s)
  then show ?case using neutral_append [OF neutral_octet [of c], of s] by simp
qed simp

lemma neutral_concat: "\<forall>s\<in>set ss. neutral s \<Longrightarrow> neutral (concat ss)"
  by (induction ss) (auto intro: neutral_append)

lemma neutral_esc: "neutral (esc v)"
proof -
  have "neutral (esc1 c)" for c
  proof (cases "NEEDFLTESCAPE c")
    case True
    then show ?thesis using hex_upper_digit(3) [OF nibbles_less(1) [of c]] hex_upper_digit(3) [OF nibbles_less(2) [of c]]
      by (simp add: esc1_def neutral_def skip_over_def split: option.split)
  next
    case False
    then show ?thesis using not_escaped [OF False] by (simp add: esc1_def neutral_octet)
  qed
  then show ?thesis unfolding esc_def by (intro neutral_concat) auto
qed

lemma neutral_parens: "neutral s \<Longrightarrow> neutral (0x28 # s @ [0x29])"
  unfolding neutral_def
proof (intro allI)
  fix n r assume s: "\<forall>n r. right_paren_loop (Suc n) False (s @ r) = skip_over s (right_paren_loop (Suc n) False r)"
  show "right_paren_loop (Suc n) False ((0x28 # s @ [0x29]) @ r)
      = skip_over (0x28 # s @ [0x29]) (right_paren_loop (Suc n) False r)"
    using s by (simp add: skip_over_def split: option.split)
qed

lemma find_right_paren_neutral: "neutral s \<Longrightarrow> find_right_paren (s @ 0x29 # r) = Some (s, 0x29 # r)"
  and right_paren_loop_neutral: "neutral s \<Longrightarrow> right_paren_loop 1 False (s @ 0x29 # r) = Some (s, 0x29 # r)"
  by (simp_all add: find_right_paren_def neutral_def skip_over_def)

end
