(* ===== verification/Filter_Encode.thy ===== *)
theory Filter_Encode
  imports Filter_Text
begin

text \<open>
  Filters as trees, their text and their encoding: what \<^verbatim>\<open>ldap_pvt_put_filter\<close> writes for the text of a filter.
\<close>

section \<open>Filter trees\<close>

datatype filter_cmp = CmpEq | CmpGe | CmpLe | CmpApprox

datatype ldap_filter =
    FilterAnd "ldap_filter list"
  | FilterOr "ldap_filter list"
  | FilterNot ldap_filter
  | FilterCmp filter_cmp "byte list" "byte list"
  | FilterPresent "byte list"
  | FilterSub "byte list" "byte list" "byte list list" "byte list"
  | FilterExt "byte list" bool "byte list" "byte list"

fun cmp_text :: "filter_cmp \<Rightarrow> byte list" where
  "cmp_text CmpEq = [0x3d]" | "cmp_text CmpGe = [0x3e, 0x3d]" | "cmp_text CmpLe = [0x3c, 0x3d]"
| "cmp_text CmpApprox = [0x7e, 0x3d]"

fun cmp_tag :: "filter_cmp \<Rightarrow> ber_tag_t" where
  "cmp_tag CmpEq = LDAP_FILTER_EQUALITY" | "cmp_tag CmpGe = LDAP_FILTER_GE"
| "cmp_tag CmpLe = LDAP_FILTER_LE" | "cmp_tag CmpApprox = LDAP_FILTER_APPROX"

text \<open>The text between the parentheses (RFC 4515), with values escaped as \<^verbatim>\<open>search.c\<close> does.\<close>

fun filter_body :: "ldap_filter \<Rightarrow> byte list" where
  "filter_body (FilterAnd fs) = 0x26 # concat (map (\<lambda>f. 0x28 # filter_body f @ [0x29]) fs)"
| "filter_body (FilterOr fs) = 0x7c # concat (map (\<lambda>f. 0x28 # filter_body f @ [0x29]) fs)"
| "filter_body (FilterNot f) = 0x21 # 0x28 # filter_body f @ [0x29]"
| "filter_body (FilterCmp c a v) = a @ cmp_text c @ esc v"
| "filter_body (FilterPresent a) = a @ [0x3d, 0x2a]"
| "filter_body (FilterSub a i ms f) = a @ 0x3d # esc i @ 0x2a # concat (map (\<lambda>m. esc m @ [0x2a]) ms) @ esc f"
| "filter_body (FilterExt a dn rule v) =
     a @ (if dn then [0x3a, 0x64, 0x6e] else []) @ (if rule \<noteq> [] then 0x3a # rule else []) @ 0x3a # 0x3d # esc v"

definition filter_text :: "ldap_filter \<Rightarrow> byte list" where
  "filter_text f = 0x28 # filter_body f @ [0x29]"

text \<open>The BER element of a filter (RFC 4511).\<close>

definition sub_items :: "byte list \<Rightarrow> byte list list \<Rightarrow> byte list \<Rightarrow> ber_item list" where
  "sub_items i ms f =
     (if i \<noteq> [] then [BOctets LDAP_SUBSTRING_INITIAL i] else []) @ map (BOctets LDAP_SUBSTRING_ANY) ms
       @ (if f \<noteq> [] then [BOctets LDAP_SUBSTRING_FINAL f] else [])"

definition ext_items :: "byte list \<Rightarrow> bool \<Rightarrow> byte list \<Rightarrow> byte list \<Rightarrow> ber_item list" where
  "ext_items a dn rule v =
     (if rule \<noteq> [] then [BOctets LDAP_FILTER_EXT_OID rule] else [])
       @ (if a \<noteq> [] then [BOctets LDAP_FILTER_EXT_TYPE a] else []) @ [BOctets LDAP_FILTER_EXT_VALUE v]
       @ (if dn then [BBool LDAP_FILTER_EXT_DNATTRS 1] else [])"

fun filter_ber :: "ldap_filter \<Rightarrow> ber_item" where
  "filter_ber (FilterAnd fs) = BSeq LDAP_FILTER_AND (map filter_ber fs)"
| "filter_ber (FilterOr fs) = BSeq LDAP_FILTER_OR (map filter_ber fs)"
| "filter_ber (FilterNot f) = BSeq LDAP_FILTER_NOT [filter_ber f]"
| "filter_ber (FilterCmp c a v) = BSeq (cmp_tag c) [BOctets LBER_DEFAULT a, BOctets LBER_DEFAULT v]"
| "filter_ber (FilterPresent a) = BOctets LDAP_FILTER_PRESENT a"
| "filter_ber (FilterSub a i ms f) =
     BSeq LDAP_FILTER_SUBSTRINGS [BOctets LBER_DEFAULT a, BSeq LBER_DEFAULT (sub_items i ms f)]"
| "filter_ber (FilterExt a dn rule v) = BSeq LDAP_FILTER_EXT (ext_items a dn rule v)"

text \<open>Filters that have a text: descriptions and rules are legal, and the parts of a substring filter are there.\<close>

fun filter_ok :: "ldap_filter \<Rightarrow> bool" where
  "filter_ok (FilterAnd fs) = list_all filter_ok fs"
| "filter_ok (FilterOr fs) = list_all filter_ok fs"
| "filter_ok (FilterNot f) = filter_ok f"
| "filter_ok (FilterCmp c a v) = ldap_is_desc a"
| "filter_ok (FilterPresent a) = ldap_is_desc a"
| "filter_ok (FilterSub a i ms f) =
     (ldap_is_desc a \<and> [] \<notin> set ms \<and> (i \<noteq> [] \<or> ms \<noteq> [] \<or> f \<noteq> []))"
| "filter_ok (FilterExt a dn rule v) =
     ((a = [] \<or> ldap_is_desc a) \<and> (rule = [] \<or> ldap_is_oid rule) \<and> (a \<noteq> [] \<or> rule \<noteq> [])
       \<and> (dn \<or> strcasecmp rule [0x64, 0x6e] \<noteq> 0))"

section \<open>Descriptions and rules\<close>

definition desc_char :: "byte \<Rightarrow> bool" where
  "desc_char c \<longleftrightarrow> LDAP_LDH c \<or> c = 0x2e \<or> c = 0x3b"

lemma desc_char_plain:
  assumes "desc_char c"
  shows "c \<notin> {0, 0x09, 0x0a, 0x20, 0x21, 0x26, 0x28, 0x29, 0x2a, 0x3a, 0x3c, 0x3d, 0x3e, 0x5c, 0x7c, 0x7e}"
proof -
  have "\<forall>n\<in>set [0..<256]. desc_char (of_nat n) \<longrightarrow>
      of_nat n \<notin> {0, 0x09, 0x0a, 0x20, 0x21, 0x26, 0x28, 0x29, 0x2a, 0x3a, 0x3c, 0x3d, 0x3e, 0x5c, 0x7c, 0x7e :: byte}"
    by code_simp
  moreover have "of_nat (unat c) = c" "unat c \<in> set [0..<256]" by simp_all
  ultimately show ?thesis using assms by metis
qed

lemma digit_ldh: "LDAP_DIGIT c \<Longrightarrow> LDAP_LDH c" and alpha_ldh: "LDAP_ALPHA c \<Longrightarrow> LDAP_LDH c"
  by (simp_all add: LDAP_LDH_def LDAP_ALNUM_def)

lemma desc_options_chars:
  "(desc_options s \<longrightarrow> (\<forall>c\<in>set s. desc_char c)) \<and> (desc_option_rest s \<longrightarrow> (\<forall>c\<in>set s. desc_char c))"
  by (induction s) (auto simp: desc_char_def split: if_splits)

lemma desc_loops_chars:
  "(desc_name_loop s \<longrightarrow> (\<forall>c\<in>set s. desc_char c)) \<and> (\<forall>d. desc_oid_loop d s \<longrightarrow> (\<forall>c\<in>set s. desc_char c))
     \<and> (\<forall>d. oid_loop d s \<longrightarrow> (\<forall>c\<in>set s. desc_char c))"
proof (induction s)
  case (Cons c s)
  have "desc_options s \<Longrightarrow> \<forall>c\<in>set s. desc_char c" using desc_options_chars by blast
  then show ?case using Cons digit_ldh [of c] by (auto simp: desc_char_def split: if_splits)
qed simp

lemma first_octet: "P (octet_at s 0) \<Longrightarrow> \<not> P 0 \<Longrightarrow> s \<noteq> [] \<and> P (hd s)"
  by (cases s) (auto simp: octet_at_def)

lemma no_nul_class: "\<not> LDAP_ALPHA 0" "\<not> LDAP_DIGIT 0"
  by (simp_all add: LDAP_ALPHA_def LDAP_LOWER_def LDAP_UPPER_def LDAP_DIGIT_def)

lemma head_chars:
  assumes "LDAP_ALPHA (octet_at s 0) \<or> LDAP_DIGIT (octet_at s 0)" and "\<forall>c\<in>set (drop 1 s). desc_char c"
  shows "s \<noteq> [] \<and> (\<forall>c\<in>set s. desc_char c)"
proof (cases s)
  case Nil
  then show ?thesis using assms(1) no_nul_class by (simp add: octet_at_def)
next
  case (Cons c r)
  then show ?thesis using assms alpha_ldh [of c] digit_ldh [of c] by (auto simp: octet_at_def desc_char_def)
qed

lemma desc_chars: "ldap_is_desc a \<Longrightarrow> a \<noteq> [] \<and> (\<forall>c\<in>set a. desc_char c)"
  using desc_loops_chars by (intro head_chars) (auto simp: ldap_is_desc_def split: if_splits)

lemma oid_chars: "ldap_is_oid a \<Longrightarrow> a \<noteq> [] \<and> (\<forall>c\<in>set a. desc_char c)"
proof (intro head_chars)
  assume a: "ldap_is_oid a"
  then show "LDAP_ALPHA (octet_at a 0) \<or> LDAP_DIGIT (octet_at a 0)" by (simp add: ldap_is_oid_def split: if_splits)
  show "\<forall>c\<in>set (drop 1 a). desc_char c"
    using a desc_loops_chars by (auto simp: ldap_is_oid_def list_all_iff desc_char_def split: if_splits)
qed

lemma chars_c_string: "\<forall>c\<in>set a. desc_char c \<Longrightarrow> c_string a = a"
  using desc_char_plain by (fastforce simp: c_string_def takeWhile_eq_all_conv)

lemma chars_neutral: "\<forall>c\<in>set a. desc_char c \<Longrightarrow> neutral a"
  using desc_char_plain by (intro neutral_plain) fastforce

lemma chars_avoid: "\<forall>c\<in>set a. desc_char c \<Longrightarrow> x \<in> {0x3a, 0x3c, 0x3d, 0x3e, 0x7e} \<Longrightarrow> x \<notin> set a"
  using desc_char_plain by fastforce

lemma desc_facts:
  assumes "ldap_is_desc a"
  shows "a \<noteq> []" "0x3d \<notin> set a" "c_string a = a" "neutral a"
proof -
  have c: "\<forall>c\<in>set a. desc_char c" using desc_chars [OF assms] by blast
  show "a \<noteq> []" using desc_chars [OF assms] by blast
  show "0x3d \<notin> set a" by (rule chars_avoid [OF c]) simp
  show "c_string a = a" by (rule chars_c_string [OF c])
  show "neutral a" by (rule chars_neutral [OF c])
qed

section \<open>Writing simple filters\<close>

lemma put_assertion_item:
  assumes w: "at_writer ber w" and a: "ldap_is_desc a" and l: "length a < 2 ^ 64" "length v < 2 ^ 64" and t: "t \<noteq> LBER_DEFAULT"
  shows "writes_item ma ber w (BSeq t [BOctets LBER_DEFAULT a, BOctets LBER_DEFAULT v]) (put_assertion ma ber t a (esc v))"
proof -
  have "c_string a = a" by (rule desc_facts(3) [OF a])
  then have "leaves ma (item_cost (BSeq t [BOctets LBER_DEFAULT a, BOctets LBER_DEFAULT v])) ber
      (w_put (item_enc (ber_der ber) (BSeq t [BOctets LBER_DEFAULT a, BOctets LBER_DEFAULT v])) w)
      (ber_printf ma ber ''t{soN}'' [PaTag t, PaString a, PaOctets v])"
    using l t by (intro ber_printf_leaves [OF _ w]) (simp add: format_run)
  then show ?thesis using a
    by (auto simp: put_assertion_def unescape_esc writes_item_def intro: leaves_then_done)
qed

lemma put_substring_part_item:
  assumes "at_writer ber w" and "length v < 2 ^ 64"
  shows "v \<noteq> [] \<Longrightarrow> writes_items ma ber w [BOctets t v] (put_substring_part ma ber t (esc v))"
    and "t \<noteq> LDAP_SUBSTRING_ANY \<Longrightarrow>
      writes_items ma ber w (if v \<noteq> [] then [BOctets t v] else []) (put_substring_part ma ber t (esc v))"
  using put_octets_item [OF assms, of ma t] writes_items_Nil [OF assms(1)]
  by (simp_all add: put_substring_part_def unescape_esc writes_items_one)

lemma put_substring_loop_items:
  assumes "at_writer ber w" and "[] \<notin> set ms" and "\<forall>m\<in>set ms. length m < 2 ^ 64" and "length f < 2 ^ 64"
  shows "writes_items ma ber w (map (BOctets LDAP_SUBSTRING_ANY) ms @ (if f \<noteq> [] then [BOctets LDAP_SUBSTRING_FINAL f] else []))
           (put_substring_loop ma ber (concat (map (\<lambda>m. esc m @ [0x2a]) ms) @ esc f))"
  using assms
proof (induction ms arbitrary: ber w)
  case Nil
  then show ?case
    using put_substring_part_item(1) [of ber w f] writes_items_Nil [of ber w]
    by (subst put_substring_loop.simps) (simp add: esc_no_wildcard)
next
  case (Cons m ms)
  let ?rest = "concat (map (\<lambda>m. esc m @ [0x2a]) ms) @ esc f"
  have "put_substring_loop ma ber (concat (map (\<lambda>m. esc m @ [0x2a]) (m # ms)) @ esc f)
      = on_ok (put_substring_part ma ber LDAP_SUBSTRING_ANY (esc m)) (\<lambda>ber. put_substring_loop ma ber ?rest)"
    by (subst put_substring_loop.simps) (simp add: esc_to_wildcard)
  moreover have "writes_items ma ber w ([BOctets LDAP_SUBSTRING_ANY m] @ map (BOctets LDAP_SUBSTRING_ANY) ms
      @ (if f \<noteq> [] then [BOctets LDAP_SUBSTRING_FINAL f] else []))
      (on_ok (put_substring_part ma ber LDAP_SUBSTRING_ANY (esc m)) (\<lambda>ber. put_substring_loop ma ber ?rest))"
  proof (rule writes_items_append)
    show "writes_items ma ber w [BOctets LDAP_SUBSTRING_ANY m] (put_substring_part ma ber LDAP_SUBSTRING_ANY (esc m))"
      using Cons.prems by (intro put_substring_part_item(1)) auto
  qed (use Cons in auto)
  ultimately show ?case by simp
qed

lemma put_substring_item:
  assumes w: "at_writer ber w" and a: "ldap_is_desc a" and ms: "[] \<notin> set ms"
    and l: "length a < 2 ^ 64" "length i < 2 ^ 64" "\<forall>m\<in>set ms. length m < 2 ^ 64" "length f < 2 ^ 64"
  defines "rest \<equiv> concat (map (\<lambda>m. esc m @ [0x2a]) ms) @ esc f"
  shows "writes_item ma ber w (filter_ber (FilterSub a i ms f))
           (put_substring_filter ma ber a (esc i @ 0x2a # rest) (esc i, 0x2a # rest))"
proof -
  let ?T = "LDAP_FILTER_SUBSTRINGS" and ?its = "sub_items i ms f"
  let ?w1 = "w_open LBER_SEQUENCE (w_put (tlv LBER_OCTETSTRING a) (w_open ?T w))"
  let ?x = "concat (map (item_enc (ber_der ber)) ?its)"
  let ?r1 = "ber_printf ma ber ''t{s{'' [PaTag ?T, PaString a]"
  let ?r2 = "\<lambda>ber. on_ok (put_substring_part ma ber LDAP_SUBSTRING_INITIAL (esc i)) (\<lambda>ber. put_substring_loop ma ber rest)"
  note a0 = desc_facts(3) [OF a]
  have 1: "leaves ma (4074 + (length a + 8135) + 4074) ber ?w1 ?r1"
    using l a0 by (intro ber_printf_leaves [OF _ w]) (simp add: format_run)
  have 2: "writes_items ma b ?w1 ?its (?r2 b)" if "at_writer b ?w1" for b
    unfolding sub_items_def rest_def
    by (rule writes_items_append [OF put_substring_part_item(2) [OF that l(2)]])
      (use l ms put_substring_loop_items in auto)
  have 3: "leaves ma (4061 + 4061) c (w_put (item_enc (ber_der ber) (filter_ber (FilterSub a i ms f))) w)
      (ber_printf ma c ''N}N}'' [])" if "at_writer c (w_put ?x ?w1)" "ber_options c = ber_options ber" for c
    using that(1) by (intro ber_printf_leaves [OF _ that(1)]) (simp add: format_run ber_der_cong [OF that(2)])
  have "leaves ma ((4074 + (length a + 8135) + 4074) + (sum_list (map item_cost ?its) + (4061 + 4061))) ber
      (w_put (item_enc (ber_der ber) (filter_ber (FilterSub a i ms f))) w)
      (on_ok ?r1 (\<lambda>ber. on_ok (?r2 ber) (\<lambda>ber. on_ok (ber_printf ma ber ''N}N}'' []) (\<lambda>ber. Some (0, ber)))))"
  proof (rule leaves_on_ok [OF 1], rule leaves_on_ok)
    fix b assume b: "at_writer b ?w1" "ber_options b = ber_options ber"
    show "leaves ma (sum_list (map item_cost ?its)) b (w_put ?x ?w1) (?r2 b)"
      using 2 [OF b(1)] by (simp add: writes_items_def ber_der_cong [OF b(2)])
    fix c assume "at_writer c (w_put ?x ?w1)" "ber_options c = ber_options b"
    then show "leaves ma (4061 + 4061) c (w_put (item_enc (ber_der ber) (filter_ber (FilterSub a i ms f))) w)
        (on_ok (ber_printf ma c ''N}N}'' []) (\<lambda>ber. Some (0, ber)))"
      using b(2) by (intro leaves_then_done 3) simp_all
  qed
  then show ?thesis unfolding writes_item_def put_substring_filter_def
    by (auto elim!: leaves_mono)
qed

section \<open>Extensible match\<close>

definition ext_head :: "byte list \<Rightarrow> bool \<Rightarrow> byte list \<Rightarrow> byte list" where
  "ext_head a dn rule = a @ (if dn then [0x3a, 0x64, 0x6e] else []) @ (if rule \<noteq> [] then 0x3a # rule else [])"

lemma ext_parts_head:
  assumes "filter_ok (FilterExt a dn rule v)"
  shows "ext_parts (ext_head a dn rule) = Some (a, dn, rule)" and "0x3d \<notin> set (ext_head a dn rule)"
    and "neutral (ext_head a dn rule)"
proof -
  have a: "\<forall>c\<in>set a. desc_char c" and r: "\<forall>c\<in>set rule. desc_char c"
    using assms desc_chars [of a] oid_chars [of rule] by auto
  note na = chars_avoid [OF a] and nr = chars_avoid [OF r]
  have dn: "strcasecmp [0x64, 0x6e] [0x64, 0x6e] = 0" by code_simp
  show "ext_parts (ext_head a dn rule) = Some (a, dn, rule)"
  proof (cases "dn \<or> rule \<noteq> []")
    case False
    then show ?thesis using na by (simp add: ext_parts_def ext_head_def c_strchr_none)
  next
    case True
    show ?thesis
    proof (cases dn)
      case True
      have s: "c_strchr 0x3a (a @ 0x3a # s) = Some (a, s)" for s using na by (intro c_strchr_found) simp
      have "c_strchr 0x3a ([0x64, 0x6e] @ 0x3a # rule) = Some ([0x64, 0x6e], rule)" by (rule c_strchr_found) simp
      then show ?thesis using True assms dn s [of "[0x64, 0x6e] @ (if rule \<noteq> [] then 0x3a # rule else [])"]
        by (auto simp: ext_parts_def ext_head_def)
    next
      case False
      then have "rule \<noteq> []" "strcasecmp rule [0x64, 0x6e] \<noteq> 0" using \<open>dn \<or> rule \<noteq> []\<close> assms by auto
      then show ?thesis using False na nr by (simp add: ext_parts_def ext_head_def c_strchr_found c_strchr_none)
    qed
  qed
  show "0x3d \<notin> set (ext_head a dn rule)" using na nr by (simp add: ext_head_def)
  show "neutral (ext_head a dn rule)" unfolding ext_head_def
    using chars_neutral [OF a] chars_neutral [OF r] neutral_append [OF neutral_octet [of "0x3a"], of rule]
    by (intro neutral_append) (auto intro: neutral_plain)
qed

lemma if_call_items:
  assumes "at_writer ber w" and "cond \<Longrightarrow> writes_item ma ber w it r"
  shows "writes_items ma ber w (if cond then [it] else []) (if_call cond ber r)"
  using assms writes_items_Nil [OF assms(1)] by (simp add: if_call_def writes_items_one)

lemma on_ok_assoc: "on_ok (on_ok r f) g = on_ok r (\<lambda>b. on_ok (f b) g)"
  by (simp add: on_ok_def split: option.split)

lemma on_ok_done: "on_ok r (\<lambda>b. on_ok (Some (0, b)) f) = on_ok r f"
  by (simp add: on_ok_def split: option.split)

lemma put_ext_item:
  assumes w: "at_writer ber w" and ok: "filter_ok (FilterExt a dn rule v)"
    and l: "length a < 2 ^ 64" "length rule < 2 ^ 64" "length v < 2 ^ 64"
  shows "writes_item ma ber w (filter_ber (FilterExt a dn rule v)) (put_ext ma ber (a, dn, rule) (esc v))"
proof -
  have cs: "c_string a = a" "c_string rule = rule"
    using ok desc_chars [of a] oid_chars [of rule] chars_c_string by (auto simp: c_string_def)
  let ?o = "\<lambda>ber. if_call (rule \<noteq> []) ber (ber_printf ma ber ''ts'' [PaTag LDAP_FILTER_EXT_OID, PaString rule])"
  let ?t = "\<lambda>ber. if_call (a \<noteq> []) ber (ber_printf ma ber ''ts'' [PaTag LDAP_FILTER_EXT_TYPE, PaString a])"
  let ?v = "\<lambda>ber. ber_printf ma ber ''to'' [PaTag LDAP_FILTER_EXT_VALUE, PaOctets v]"
  let ?d = "\<lambda>ber. if_call dn ber (ber_printf ma ber ''tb'' [PaTag LDAP_FILTER_EXT_DNATTRS, PaInt 1])"
  have body: "writes_items ma b w' (ext_items a dn rule v)
      (on_ok (?o b) (\<lambda>b. on_ok (?t b) (\<lambda>b. on_ok (?v b) ?d)))" if "at_writer b w'" for b w'
    unfolding ext_items_def
  proof (intro writes_items_append)
    show "writes_items ma b w' (if rule \<noteq> [] then [BOctets LDAP_FILTER_EXT_OID rule] else []) (?o b)"
      using that l cs by (intro if_call_items put_string_item) simp_all
  next
    fix b1 w1 assume "at_writer b1 w1"
    then show "writes_items ma b1 w1 (if a \<noteq> [] then [BOctets LDAP_FILTER_EXT_TYPE a] else []) (?t b1)"
      using l cs by (intro if_call_items put_string_item) simp_all
  next
    fix b1 w1 assume "at_writer b1 w1"
    then show "writes_items ma b1 w1 [BOctets LDAP_FILTER_EXT_VALUE v] (?v b1)"
      using l by (simp add: writes_items_one put_octets_item)
  next
    fix b1 w1 assume "at_writer b1 w1"
    then show "writes_items ma b1 w1 (if dn then [BBool LDAP_FILTER_EXT_DNATTRS 1] else []) (?d b1)"
      by (intro if_call_items put_bool_item)
  qed
  have "writes_item ma ber w (BSeq LDAP_FILTER_EXT (ext_items a dn rule v))
      (on_ok (on_ok (ber_printf ma ber ''t{'' [PaTag LDAP_FILTER_EXT]) (\<lambda>b.
         on_ok (on_ok (?o b) (\<lambda>b. on_ok (?t b) (\<lambda>b. on_ok (?v b) ?d))) (\<lambda>b. ber_printf ma b ''N}'' []))) (\<lambda>b. Some (0, b)))"
    by (intro writes_item_done writes_tagged w body) simp_all
  then show ?thesis using ok
    by (auto simp: put_ext_def unescape_esc on_ok_assoc)
qed

section \<open>Whole filters\<close>

fun is_simple :: "ldap_filter \<Rightarrow> bool" where
  "is_simple (FilterAnd fs) = False" | "is_simple (FilterOr fs) = False" | "is_simple (FilterNot f) = False"
| "is_simple _ = True"

lemma last_desc: "ldap_is_desc a \<Longrightarrow> last a \<notin> {0x3a, 0x3c, 0x3e, 0x7e}"
  using desc_chars [of a] desc_char_plain [of "last a"] by auto

lemma simple_split:
  assumes "\<forall>n. ma n" and "0x3d \<notin> set a" and "a \<noteq> []"
  shows "put_simple_filter ma ber (a @ 0x3d # v)
      = (if last a = 0x3c then put_assertion ma ber LDAP_FILTER_LE (butlast a) v
         else if last a = 0x3e then put_assertion ma ber LDAP_FILTER_GE (butlast a) v
         else if last a = 0x7e then put_assertion ma ber LDAP_FILTER_APPROX (butlast a) v
         else if last a = 0x3a then
           (case ext_parts (butlast a) of None \<Rightarrow> Some (-1, ber) | Some parts \<Rightarrow> put_ext ma ber parts v)
         else put_default ma ber a v)"
  using assms by (simp add: put_simple_filter_def c_strchr_found)

lemma sub_items_ok:
  "list_all item_ok (sub_items i ms f) \<longleftrightarrow> length i < 2 ^ 64 \<and> (\<forall>m\<in>set ms. length m < 2 ^ 64) \<and> length f < 2 ^ 64"
proof -
  have "list_all item_ok (map (BOctets t) ms) \<longleftrightarrow> (\<forall>m\<in>set ms. length m < 2 ^ 64)" for t
    by (induction ms) simp_all
  then show ?thesis by (cases "i = []"; cases "f = []") (simp_all add: sub_items_def)
qed

lemma put_simple_item:
  assumes w: "at_writer ber w" and ok: "filter_ok f" and sz: "item_ok (filter_ber f)" and mem: "\<forall>n. ma n"
    and simple: "is_simple f"
  shows "writes_item ma ber w (filter_ber f) (put_simple_filter ma ber (filter_body f))"
proof (cases f)
  case (FilterCmp c a v)
  then have a: "ldap_is_desc a" and l: "length a < 2 ^ 64" "length v < 2 ^ 64" using ok sz by simp_all
  note na = desc_facts(2,1) [OF a]
  note item = put_assertion_item [OF w a l]
  have "put_simple_filter ma ber (filter_body f) = put_assertion ma ber (cmp_tag c) a (esc v)"
  proof (cases c)
    case CmpEq
    then show ?thesis using FilterCmp simple_split [OF mem na, of ber "esc v"] last_desc [OF a] a
      by (simp add: put_default_def esc_no_wildcard)
  qed (use FilterCmp na simple_split [OF mem, of "a @ [0x3e]" ber "esc v"] simple_split [OF mem, of "a @ [0x3c]" ber "esc v"]
      simple_split [OF mem, of "a @ [0x7e]" ber "esc v"] in simp_all)
  then show ?thesis using FilterCmp item [of "cmp_tag c" ma] by (cases c) simp_all
next
  case (FilterPresent a)
  then have a: "ldap_is_desc a" and l: "length a < 2 ^ 64" using ok sz by simp_all
  note na = desc_facts(2,1) [OF a] and cs = desc_facts(3) [OF a]
  have "put_simple_filter ma ber (filter_body f)
      = on_ok (ber_printf ma ber ''ts'' [PaTag LDAP_FILTER_PRESENT, PaString a]) (\<lambda>ber. Some (0, ber))"
    using FilterPresent simple_split [OF mem na, of ber "[0x2a]"] last_desc [OF a] a
    by (simp add: put_default_def)
  then show ?thesis using FilterPresent put_string_item [OF w cs l, of LDAP_FILTER_PRESENT ma]
    by (simp add: writes_item_done)
next
  case (FilterSub a i ms e)
  then have a: "ldap_is_desc a" and ms: "[] \<notin> set ms" "i \<noteq> [] \<or> ms \<noteq> [] \<or> e \<noteq> []"
    and l: "length a < 2 ^ 64" "length i < 2 ^ 64" "\<forall>m\<in>set ms. length m < 2 ^ 64" "length e < 2 ^ 64"
    using ok sz by (simp_all add: sub_items_ok)
  note na = desc_facts(2,1) [OF a]
  let ?rest = "concat (map (\<lambda>m. esc m @ [0x2a]) ms) @ esc e"
  have "esc i @ 0x2a # ?rest \<noteq> [0x2a]" using ms by (cases "esc i") auto
  then have "put_simple_filter ma ber (filter_body f)
      = put_substring_filter ma ber a (esc i @ 0x2a # ?rest) (esc i, 0x2a # ?rest)"
    using FilterSub simple_split [OF mem na, of ber "esc i @ 0x2a # ?rest"] last_desc [OF a] a
    by (simp add: put_default_def esc_to_wildcard)
  then show ?thesis using FilterSub put_substring_item [OF w a ms(1) l, of ma] by simp
next
  case (FilterExt a dn rule v)
  have l: "length a < 2 ^ 64" "length rule < 2 ^ 64" "length v < 2 ^ 64"
    using FilterExt sz by (auto simp: ext_items_def split: if_splits)
  have b: "filter_body f = (ext_head a dn rule @ [0x3a]) @ 0x3d # esc v" using FilterExt by (simp add: ext_head_def)
  have "put_simple_filter ma ber (filter_body f) = put_ext ma ber (a, dn, rule) (esc v)"
    using ext_parts_head [of a dn rule v] ok FilterExt unfolding b
    by (subst simple_split [OF mem]) simp_all
  then show ?thesis using put_ext_item [OF w _ l, of dn ma] ok FilterExt by simp
qed (use simple in auto)

lemma neutral_body: "filter_ok f \<Longrightarrow> neutral (filter_body f)"
proof (induction f)
  case (FilterAnd fs)
  then have "neutral (concat (map (\<lambda>f. 0x28 # filter_body f @ [0x29]) fs))"
    by (intro neutral_concat) (auto simp: list_all_iff intro: neutral_parens)
  then show ?case using neutral_append [OF neutral_octet [of "0x26"]] by simp
next
  case (FilterOr fs)
  then have "neutral (concat (map (\<lambda>f. 0x28 # filter_body f @ [0x29]) fs))"
    by (intro neutral_concat) (auto simp: list_all_iff intro: neutral_parens)
  then show ?case using neutral_append [OF neutral_octet [of "0x7c"]] by simp
next
  case (FilterNot f)
  then show ?case using neutral_append [OF neutral_octet [of "0x21"] neutral_parens [of "filter_body f"]] by simp
next
  case (FilterCmp c a v)
  have "neutral (cmp_text c)" by (cases c) (simp_all add: neutral_plain)
  then show ?case using FilterCmp desc_facts(4) [of a] by (simp add: neutral_append neutral_esc)
next
  case (FilterPresent a)
  then show ?case using desc_facts(4) [of a] by (simp add: neutral_append neutral_plain)
next
  case (FilterSub a i ms f)
  have "neutral (concat (map (\<lambda>m. esc m @ [0x2a]) ms))"
    using neutral_append [OF neutral_esc neutral_octet [of "0x2a"]] by (intro neutral_concat) auto
  then have "neutral ([0x3d] @ esc i @ [0x2a] @ concat (map (\<lambda>m. esc m @ [0x2a]) ms) @ esc f)"
    by (intro neutral_append neutral_esc) (simp_all add: neutral_plain)
  then show ?case using FilterSub desc_facts(4) [of a] neutral_append [of a] by simp
next
  case (FilterExt a dn rule v)
  have "neutral (ext_head a dn rule @ [0x3a, 0x3d] @ esc v)"
    using ext_parts_head(3) [OF FilterExt] by (intro neutral_append neutral_esc) (simp_all add: neutral_plain)
  then show ?case by (simp add: ext_head_def)
qed

lemma neutral_filters: "list_all filter_ok fs \<Longrightarrow> neutral (concat (map (\<lambda>f. 0x28 # filter_body f @ [0x29]) fs))"
  using neutral_parens [OF neutral_body] by (intro neutral_concat) (auto simp: list_all_iff)

text \<open>A filter in a list: the text up to its closing parenthesis is handed on.\<close>

lemma put_filter_list_text:
  assumes "filter_ok f"
  shows "put_filter_list ma ber (filter_text f @ rest) tag nonnull
      = on_ok (ldap_pvt_put_filter ma ber (filter_text f)) (\<lambda>ber.
          if tag = LDAP_FILTER_NOT then filter_list_done tag True rest ber
          else put_filter_list ma ber rest tag True)"
  using find_right_paren_neutral [OF neutral_body [OF assms], of rest]
  by (subst put_filter_list.simps) (simp add: filter_text_def LDAP_SPACE_def octet_at_def cong: if_cong)

lemma put_filter_list_nil: "tag \<noteq> LDAP_FILTER_NOT \<Longrightarrow> put_filter_list ma ber [] tag nonnull = Some (0, ber)"
  by (subst put_filter_list.simps) (simp add: filter_list_done_def)

lemma put_filter_list_items:
  assumes IH: "\<And>f ber w. f \<in> set fs \<Longrightarrow> at_writer ber w \<Longrightarrow>
      writes_item ma ber w (filter_ber f) (ldap_pvt_put_filter ma ber (filter_text f))"
    and "list_all filter_ok fs" and "at_writer ber w" and tag: "tag \<noteq> LDAP_FILTER_NOT"
  shows "writes_items ma ber w (map filter_ber fs) (put_filter_list ma ber (concat (map filter_text fs)) tag nonnull)"
  using assms(1-3)
proof (induction fs arbitrary: ber w nonnull)
  case Nil
  then show ?case using tag by (simp add: put_filter_list_nil writes_items_Nil)
next
  case (Cons f fs)
  have "writes_items ma ber w ([filter_ber f] @ map filter_ber fs)
      (on_ok (ldap_pvt_put_filter ma ber (filter_text f)) (\<lambda>ber. put_filter_list ma ber (concat (map filter_text fs)) tag True))"
    using Cons.prems by (intro writes_items_append Cons.IH) (simp_all add: writes_items_one)
  then show ?case using Cons.prems tag by (simp add: put_filter_list_text)
qed

lemma complex_run:
  assumes c: "(c, tag) \<in> {(0x26, LDAP_FILTER_AND), (0x7c, LDAP_FILTER_OR), (0x21, LDAP_FILTER_NOT)}"
    and n: "neutral L" and mem: "\<forall>n. ma n"
  shows "ldap_pvt_put_filter ma ber (0x28 # (c # L) @ [0x29])
      = on_ok (on_ok (ber_printf ma ber ''t{'' [PaTag tag]) (\<lambda>ber.
           on_ok (put_filter_list ma ber L tag False) (\<lambda>ber. ber_printf ma ber ''N}'' []))) (\<lambda>ber. Some (0, ber))"
proof -
  have r: "find_right_paren (L @ [0x29]) = Some (L, [0x29])" by (rule find_right_paren_neutral [OF n])
  have "filter_open (c # L @ [0x29]) = (FComplex tag (c # L @ [0x29]), [])"
    using c r by (auto simp: filter_open_def complex_next_def octet_at_def)
  moreover have "\<not> LDAP_SPACE c" using c by (auto simp: LDAP_SPACE_def)
  ultimately have "filter_switch (0x28 # (c # L) @ [0x29]) = (FComplex tag (c # L @ [0x29]), [], 0)"
    by (simp add: filter_switch_def octet_at_def)
  then show ?thesis using mem r
    by (subst ldap_pvt_put_filter.simps, subst put_filter_loop.simps, subst put_complex_filter.simps) simp
qed

lemma complex_item:
  assumes c: "(c, tag) \<in> {(0x26, LDAP_FILTER_AND), (0x7c, LDAP_FILTER_OR), (0x21, LDAP_FILTER_NOT)}"
    and n: "neutral L" and mem: "\<forall>n. ma n" and w: "at_writer ber w"
    and body: "\<And>b. at_writer b (w_open tag w) \<Longrightarrow> writes_items ma b (w_open tag w) its (put_filter_list ma b L tag False)"
  shows "writes_item ma ber w (BSeq tag its) (ldap_pvt_put_filter ma ber (0x28 # (c # L) @ [0x29]))"
  unfolding complex_run [OF c n mem] using c
  by (intro writes_item_done writes_tagged w body) auto

lemma simple_head:
  assumes "filter_ok f" and "is_simple f"
  shows "octet_at (filter_body f @ r) 0 \<notin> {0x09, 0x0a, 0x20, 0x21, 0x26, 0x28, 0x7c}" and "filter_body f \<noteq> []"
proof -
  have "\<exists>a s. filter_body f = a @ s \<and> (ldap_is_desc a \<or> (a = [] \<and> s \<noteq> [] \<and> hd s = 0x3a))"
  proof (cases f)
    case (FilterExt a dn rule v)
    let ?s = "(if dn then [0x3a, 0x64, 0x6e] else []) @ (if rule \<noteq> [] then 0x3a # rule else []) @ 0x3a # 0x3d # esc v"
    show ?thesis using FilterExt assms(1) by (intro exI [of _ a] exI [of _ ?s]) auto
  qed (use assms in auto)
  then obtain a s where b: "filter_body f = a @ s" and d: "ldap_is_desc a \<or> (a = [] \<and> s \<noteq> [] \<and> hd s = 0x3a)" by blast
  have "\<exists>c u. a @ s = c # u \<and> (desc_char c \<or> c = 0x3a)"
  proof (cases "ldap_is_desc a")
    case True
    then show ?thesis using desc_chars [OF True] by (cases a) auto
  next
    case False
    then show ?thesis using d by (cases s) auto
  qed
  then obtain c u where c: "a @ s = c # u" and p: "desc_char c \<or> c = 0x3a" by blast
  show "octet_at (filter_body f @ r) 0 \<notin> {0x09, 0x0a, 0x20, 0x21, 0x26, 0x28, 0x7c}"
    using p desc_char_plain [of c] unfolding b c by (auto simp: octet_at_def)
  show "filter_body f \<noteq> []" unfolding b c by simp
qed

lemma simple_run:
  assumes "filter_ok f" and "is_simple f" and mem: "\<forall>n. ma n"
  shows "ldap_pvt_put_filter ma ber (filter_text f)
      = on_ok (put_simple_filter ma ber (filter_body f)) (\<lambda>ber. Some (0, ber))"
proof -
  note h = simple_head(1) [OF assms(1,2), of "[0x29]"] and ne = simple_head(2) [OF assms(1,2)]
  have d: "dropWhile LDAP_SPACE (filter_body f @ [0x29]) = filter_body f @ [0x29]"
    using h ne by (cases "filter_body f") (auto simp: octet_at_def LDAP_SPACE_def)
  have "filter_open (filter_body f @ [0x29]) = (FSimple (filter_body f), [])"
    using h right_paren_loop_neutral [OF neutral_body [OF assms(1)], of "[]"] by (simp add: filter_open_def)
  then have "filter_switch (filter_text f) = (FSimple (filter_body f), [], 0)"
    by (simp add: filter_switch_def filter_text_def octet_at_def d)
  then show ?thesis using mem
    by (subst ldap_pvt_put_filter.simps, subst put_filter_loop.simps) (simp add: filter_text_def)
qed

lemma simple_filter_item:
  assumes "filter_ok f" and "item_ok (filter_ber f)" and mem: "\<forall>n. ma n" and "at_writer ber w" and "is_simple f"
  shows "writes_item ma ber w (filter_ber f) (ldap_pvt_put_filter ma ber (filter_text f))"
  unfolding simple_run [OF assms(1,5) mem] by (intro writes_item_done put_simple_item assms)

lemma put_filter_item:
  assumes "filter_ok f" and "item_ok (filter_ber f)" and mem: "\<forall>n. ma n" and "at_writer ber w"
  shows "writes_item ma ber w (filter_ber f) (ldap_pvt_put_filter ma ber (filter_text f))"
  using assms(1,2,4)
proof (induction f arbitrary: ber w)
  case (FilterAnd fs)
  let ?L = "concat (map filter_text fs)"
  have L: "?L = concat (map (\<lambda>f. 0x28 # filter_body f @ [0x29]) fs)" by (simp add: filter_text_def [abs_def])
  have n: "neutral ?L" unfolding L using FilterAnd.prems(1) by (simp add: neutral_filters)
  have "writes_item ma ber w (BSeq LDAP_FILTER_AND (map filter_ber fs)) (ldap_pvt_put_filter ma ber (0x28 # (0x26 # ?L) @ [0x29]))"
    using FilterAnd by (intro complex_item n mem put_filter_list_items) (auto simp: list_all_iff)
  then show ?case by (simp add: filter_text_def L)
next
  case (FilterOr fs)
  let ?L = "concat (map filter_text fs)"
  have L: "?L = concat (map (\<lambda>f. 0x28 # filter_body f @ [0x29]) fs)" by (simp add: filter_text_def [abs_def])
  have n: "neutral ?L" unfolding L using FilterOr.prems(1) by (simp add: neutral_filters)
  have "writes_item ma ber w (BSeq LDAP_FILTER_OR (map filter_ber fs)) (ldap_pvt_put_filter ma ber (0x28 # (0x7c # ?L) @ [0x29]))"
    using FilterOr by (intro complex_item n mem put_filter_list_items) (auto simp: list_all_iff)
  then show ?case by (simp add: filter_text_def L)
next
  case (FilterNot f)
  have n: "neutral (filter_text f)" unfolding filter_text_def using FilterNot.prems(1) by (simp add: neutral_parens neutral_body)
  have l: "put_filter_list ma b (filter_text f) LDAP_FILTER_NOT False
      = on_ok (ldap_pvt_put_filter ma b (filter_text f)) (\<lambda>ber. Some (0, ber))" for b
    using put_filter_list_text [of f ma b "[]"] FilterNot.prems(1) by (simp add: filter_list_done_def)
  have "writes_item ma ber w (BSeq LDAP_FILTER_NOT [filter_ber f])
      (ldap_pvt_put_filter ma ber (0x28 # (0x21 # filter_text f) @ [0x29]))"
    using FilterNot by (intro complex_item n mem) (simp_all add: writes_items_one l writes_item_done)
  then show ?case by (simp add: filter_text_def)
qed (rule simple_filter_item [OF _ _ mem], assumption, assumption, assumption, simp)+

lemma put_filter_zero:
  assumes "filter_ok f" and mem: "\<forall>n. ma n"
  shows "\<exists>r. ldap_pvt_put_filter ma ber (filter_text f) = on_ok r (\<lambda>ber. Some (0, ber))"
proof (cases "is_simple f")
  case True
  then show ?thesis using simple_run [OF assms(1) True mem] by blast
next
  case False
  then obtain c tag L where c: "filter_body f = c # L"
      "(c, tag) \<in> {(0x26, LDAP_FILTER_AND), (0x7c, LDAP_FILTER_OR), (0x21, LDAP_FILTER_NOT)}"
    and n: "neutral L"
  proof (cases f)
    case (FilterAnd fs)
    show ?thesis using assms(1) FilterAnd neutral_filters [of fs] by (intro that [of "0x26" _ LDAP_FILTER_AND]) simp_all
  next
    case (FilterOr fs)
    show ?thesis using assms(1) FilterOr neutral_filters [of fs] by (intro that [of "0x7c" _ LDAP_FILTER_OR]) simp_all
  next
    case (FilterNot g)
    have "neutral (0x28 # filter_body g @ [0x29])" using assms(1) FilterNot by (simp add: neutral_parens neutral_body)
    then show ?thesis using FilterNot by (intro that [of "0x21" _ LDAP_FILTER_NOT]) simp_all
  qed auto
  show ?thesis using complex_run [OF c(2) n mem, of ber] unfolding filter_text_def c(1) by blast
qed

section \<open>Properties\<close>

text \<open>
  C37: the search filter reaches the wire as the client wrote it.  For every filter tree with legal attribute descriptions
  and matching rules, \<^verbatim>\<open>ldap_pvt_put_filter\<close> accepts the filter's text, in which values of arbitrary octets are
  escaped by \<^verbatim>\<open>ldap_bv2escaped_filter_value\<close>, and writes exactly the BER encoding of the tree: conjunctions,
  disjunctions and negations nested to any depth, the four comparisons, presence, substrings and extensible match.
\<close>

theorem put_filter_encodes:
  assumes ok: "filter_ok f" and size: "item_ok (filter_ber f)" and mem: "\<forall>n. ma n"
    and small: "item_cost (filter_ber f) < 2 ^ 31"
  shows "(\<exists>ber. ldap_pvt_put_filter ma (ber_alloc_t opt) (filter_text f) = Some (0, ber)
            \<and> ber_flatten2 ma (Some ber) True
                = Inr (0, item_enc (opt AND LBER_USE_DER \<noteq> 0) (filter_ber f), Some ber))
       \<and> (\<forall>v. v \<noteq> [] \<longrightarrow> ldap_bv2escaped_filter_value ma v = Some (0, Some (esc v)))"
proof -
  let ?b = "ber_alloc_t opt"
  have D: "ber_der ?b = (opt AND LBER_USE_DER \<noteq> 0)" by (simp add: ber_der_def ber_alloc_t_def)
  have at: "at_writer ?b ([], [])" by (simp add: at_writer_def) (simp add: ber_alloc_t_def)
  have aff: "affordable ma ?b (item_cost (filter_ber f))" using mem small by (simp add: affordable_def ber_alloc_t_def)
  obtain rc ber where r: "ldap_pvt_put_filter ma ?b (filter_text f) = Some (rc, ber)" "0 \<le> rc"
      "at_writer ber (w_put (item_enc (ber_der ?b) (filter_ber f)) ([], []))"
    using put_filter_item [OF ok size mem at] aff unfolding writes_item_def by (blast elim: leaves_affordable)
  have "rc = 0"
    using put_filter_zero [OF ok mem, of ?b] r(1,2) by (auto simp: on_ok_def split: option.splits if_splits)
  moreover have "ber_flatten2 ma (Some ber) True = Inr (0, item_enc (opt AND LBER_USE_DER \<noteq> 0) (filter_ber f), Some ber)"
    using r(3) mem by (auto simp: at_writer_def ber_writes_def ber_written_def ber_wcur_def D ber_flatten2_def ber_pvt_ber_write_def)
  ultimately show ?thesis using r(1) escaped_value [OF mem] by blast
qed

theorem put_filter_encodes_witness:
  "\<exists>ber. ldap_pvt_put_filter (\<lambda>_. True) (ber_alloc_t LBER_USE_DER)
           (filter_text (FilterAnd [FilterSub [0x63, 0x6e] [0x61] [] [0x28], FilterNot (FilterCmp CmpGe [0x75, 0x69] [])]))
         = Some (0, ber)
     \<and> ber_flatten2 (\<lambda>_. True) (Some ber) True
         = Inr (0, item_enc True (BSeq LDAP_FILTER_AND
             [BSeq LDAP_FILTER_SUBSTRINGS [BOctets LBER_DEFAULT [0x63, 0x6e],
                BSeq LBER_DEFAULT [BOctets LDAP_SUBSTRING_INITIAL [0x61], BOctets LDAP_SUBSTRING_FINAL [0x28]]],
              BSeq LDAP_FILTER_NOT [BSeq LDAP_FILTER_GE [BOctets LBER_DEFAULT [0x75, 0x69], BOctets LBER_DEFAULT []]]]), Some ber)"
proof -
  have "ldap_is_desc [0x63, 0x6e]" "ldap_is_desc [0x75, 0x69]" by code_simp+
  then show ?thesis
    using put_filter_encodes [of "FilterAnd [FilterSub [0x63, 0x6e] [0x61] [] [0x28], FilterNot (FilterCmp CmpGe [0x75, 0x69] [])]"
        "\<lambda>_. True" LBER_USE_DER]
    by (simp add: sub_items_def)
qed

end
