(* ===== verification/Filter_Errors.thy ===== *)
theory Filter_Errors
  imports Filter_Encode
begin

text \<open>
  Filters that are refused, and filters that should be: what \<^verbatim>\<open>ldap_pvt_put_filter\<close> does with an unclosed
  parenthesis, when memory runs out inside a filter, and with an empty filter or attribute.
\<close>

lemma printf_open_returns: "\<exists>rc b. ber_printf ma ber ''t{'' [PaTag t] = Some (rc, b)"
  by (cases "ber_start_seq ma (ber\<lparr>ber_tag := t\<rparr>) t") (auto simp: ber_printf_def printf_conv.simps)

lemma unclosed_tail:
  assumes "right_paren_loop 1 False (p @ s) = None" and "neutral p"
  shows "right_paren_loop 1 False s = None"
proof -
  have "skip_over p (right_paren_loop (Suc 0) False s) = None" using assms unfolding neutral_def by (metis One_nat_def)
  then show ?thesis by (cases "right_paren_loop (Suc 0) False s") (auto simp: skip_over_def)
qed

lemma unclosed_refused:
  assumes "right_paren_loop 1 False s = None" and "ma (length s + 2)"
  shows "\<exists>b. ldap_pvt_put_filter ma ber (0x28 # s) = Some (-1, b)"
proof -
  let ?t = "dropWhile LDAP_SPACE s"
  have "neutral (takeWhile LDAP_SPACE s)"
    by (rule neutral_plain) (auto dest!: set_takeWhileD simp: LDAP_SPACE_def)
  then have t: "right_paren_loop 1 False ?t = None"
    using unclosed_tail [of "takeWhile LDAP_SPACE s" ?t] assms(1) by simp
  have complex: "put_complex_filter ma ber ?t tag = on_ok (ber_printf ma ber ''t{'' [PaTag tag]) (\<lambda>ber. Some (-1, ber))"
    if "octet_at ?t 0 = c" "c \<in> {0x21, 0x26, 0x7c}" for c tag
  proof -
    have "?t = [c] @ drop 1 ?t" using that by (cases ?t) (auto simp: octet_at_def)
    moreover have "neutral [c]" using that(2) by (intro neutral_octet) auto
    ultimately have "find_right_paren (drop 1 ?t) = None"
      unfolding find_right_paren_def using unclosed_tail [of "[c]" "drop 1 ?t"] t by metis
    then show ?thesis by (simp add: put_complex_filter.simps)
  qed
  have refused: "\<exists>b. on_ok (on_ok (ber_printf ma ber ''t{'' [PaTag tag]) (\<lambda>ber. Some (-1, ber))) k = Some (-1, b)" for tag k
    using printf_open_returns [of ma ber tag] by (auto simp: on_ok_def)
  have bad: "on_ok (Some (-1, ber)) k = Some (-1, ber)" for k by (simp add: on_ok_def)
  have loop: "put_filter_loop ma ber (0x28 # s) 0 = (case filter_open ?t of
      (it, nx) \<Rightarrow> on_ok (case it of FComplex tag s \<Rightarrow> put_complex_filter ma ber s tag | FSimple s \<Rightarrow> put_simple_filter ma ber s
          | FEnd \<Rightarrow> ber_printf ma ber '']'' [] | FBlank \<Rightarrow> Some (0, ber) | FBad \<Rightarrow> Some (-1, ber))
        (\<lambda>ber. Some (if nx \<noteq> [] then -1 else 0, ber)))"
    by (subst put_filter_loop.simps) (simp add: filter_switch_def octet_at_def split_def cong: if_cong)
  have "\<exists>b. put_filter_loop ma ber (0x28 # s) 0 = Some (-1, b)"
    unfolding loop using t complex refused
    by (auto simp: filter_open_def Let_def bad)
  then show ?thesis using assms(2) by (simp add: ldap_pvt_put_filter.simps)
qed

text \<open>
  C39: where a filter goes wrong.  A parenthesis that is never closed is refused, whatever the text is.  But only the return
  value -1 counts as a failure inside a filter: when there is no memory for a copy of a nested filter,
  that filter is left out of its conjunction or disjunction and the call goes on as if it had been
  written.  An empty filter is accepted and writes nothing, and the text of a filter with an empty attribute makes the code read
  the octet in front of its copy.
\<close>

theorem filter_errors:
  "(right_paren_loop 1 False s = None \<longrightarrow> ma (length s + 2) \<longrightarrow> (\<exists>b. ldap_pvt_put_filter ma ber (0x28 # s) = Some (-1, b)))
   \<and> (filter_ok f \<longrightarrow> \<not> ma (length (filter_text f) + 1) \<longrightarrow> tag \<noteq> LDAP_FILTER_NOT \<longrightarrow>
        put_filter_list ma ber (filter_text f @ rest) tag nonnull = put_filter_list ma ber rest tag True)
   \<and> (ma 1 \<longrightarrow> ldap_pvt_put_filter ma ber [] = Some (0, ber))
   \<and> (ma (length v + 2) \<longrightarrow> ldap_pvt_put_filter ma ber (0x3d # v) = None)"
proof (intro conjI impI)
  show "\<exists>b. ldap_pvt_put_filter ma ber (0x28 # s) = Some (-1, b)" if "right_paren_loop 1 False s = None" "ma (length s + 2)"
    using unclosed_refused that .
  show "put_filter_list ma ber (filter_text f @ rest) tag nonnull = put_filter_list ma ber rest tag True"
    if "filter_ok f" "\<not> ma (length (filter_text f) + 1)" "tag \<noteq> LDAP_FILTER_NOT"
    using that by (simp add: put_filter_list_text ldap_pvt_put_filter.simps on_ok_def)
  show "ldap_pvt_put_filter ma ber [] = Some (0, ber)" if "ma 1"
    using that by (simp add: ldap_pvt_put_filter.simps put_filter_loop.simps)
  show "ldap_pvt_put_filter ma ber (0x3d # v) = None" if "ma (length v + 2)"
    using that by (simp add: ldap_pvt_put_filter.simps put_filter_loop.simps filter_switch_def octet_at_def put_simple_filter_def on_ok_def)
qed

text \<open>\<^verbatim>\<open>(&(a=1)(b=22))\<close> without memory for the second copy is the filter \<^verbatim>\<open>(&(a=1))\<close>.\<close>

theorem filter_errors_witness:
  "(\<exists>b. ldap_pvt_put_filter (\<lambda>n. n \<noteq> 7) (ber_alloc_t 0) [0x28, 0x26, 0x28, 0x61] = Some (-1, b))
   \<and> put_filter_list (\<lambda>n. n \<noteq> 7) (ber_alloc_t 0) (filter_text (FilterCmp CmpEq [0x62] [0x32, 0x32])) LDAP_FILTER_AND True
       = put_filter_list (\<lambda>n. n \<noteq> 7) (ber_alloc_t 0) [] LDAP_FILTER_AND True
   \<and> ldap_pvt_put_filter (\<lambda>n. n \<noteq> 7) (ber_alloc_t 0) [] = Some (0, ber_alloc_t 0)
   \<and> ldap_pvt_put_filter (\<lambda>n. n \<noteq> 7) (ber_alloc_t 0) [0x3d, 0x61] = None"
proof -
  let ?f = "FilterCmp CmpEq [0x62] [0x32, 0x32]"
  have "ldap_is_desc [0x62]" and n: "length (filter_text ?f) + 1 = 7" by code_simp+
  then have "filter_ok ?f" by simp
  then show ?thesis
    using filter_errors [of "[0x26, 0x28, 0x61]" "\<lambda>n. n \<noteq> 7" "ber_alloc_t 0" ?f LDAP_FILTER_AND "[]" True "[0x61]"] n
    by (simp del: One_nat_def filter_ok.simps)
qed

end
