(* ===== verification/Ldap_Request.thy ===== *)
theory Ldap_Request
  imports Ldap_Filter
begin

text \<open>
  The requests of \<^verbatim>\<open>libldap\<close>: bind, search, compare, add, modify, delete, rename, extended, unbind and abandon, with
  the controls that \<^verbatim>\<open>controls.c\<close> puts behind them.  The record keeps the fields of the session handle
  that these operations use.  Each operation ends by handing its message to \<^verbatim>\<open>ldap_send_initial_request\<close>
  (\<^verbatim>\<open>ber_flush2\<close> for unbind and abandon), which is an argument here; it returns a message id, negative on failure, and
  the handle.  A result is the return code, the value of \<^verbatim>\<open>*msgidp\<close> where it is set, and the handle; \<open>None\<close> where C leaves
  the behaviour undefined.
\<close>

section \<open>The session handle\<close>

record ldapcontrol =
  ldctl_oid :: "byte list"
  ldctl_value :: "byte list option"
  ldctl_iscritical :: bool

record ldap_handle =
  ld_errno :: int
  ld_msgid :: "64 word"
  ld_version :: ber_int_t
  ld_lberoptions :: "16 word"
  ld_deref :: ber_int_t
  ld_sizelimit :: ber_int_t
  ld_timelimit :: ber_int_t
  ldo_defbase :: "byte list option"
  ld_defbinddn :: "byte list option"
  ld_sctrls :: "ldapcontrol list option"
  ld_cctrls :: "ldapcontrol list option"

type_synonym request_result = "(int \<times> ber_int_t option \<times> ldap_handle) option"
type_synonym sender =
  "ldap_handle \<Rightarrow> ber_tag_t \<Rightarrow> byte list option \<Rightarrow> berelement \<Rightarrow> ber_int_t \<Rightarrow> ber_int_t \<times> ldap_handle"

abbreviation (input) LDAP_SUCCESS :: int where "LDAP_SUCCESS \<equiv> 0"
abbreviation (input) LDAP_ENCODING_ERROR :: int where "LDAP_ENCODING_ERROR \<equiv> -3"
abbreviation (input) LDAP_FILTER_ERROR :: int where "LDAP_FILTER_ERROR \<equiv> -7"
abbreviation (input) LDAP_PARAM_ERROR :: int where "LDAP_PARAM_ERROR \<equiv> -9"
abbreviation (input) LDAP_NOT_SUPPORTED :: int where "LDAP_NOT_SUPPORTED \<equiv> -12"
abbreviation (input) LDAP_SERVER_DOWN :: int where "LDAP_SERVER_DOWN \<equiv> -1"
abbreviation (input) LDAP_VERSION3 :: ber_int_t where "LDAP_VERSION3 \<equiv> 3"
abbreviation (input) LDAP_TAG_CONTROLS :: ber_tag_t where "LDAP_TAG_CONTROLS \<equiv> 0xa0"
abbreviation (input) LDAP_TAG_NEWSUPERIOR :: ber_tag_t where "LDAP_TAG_NEWSUPERIOR \<equiv> 0x80"
abbreviation (input) LDAP_TAG_EXOP_REQ_OID :: ber_tag_t where "LDAP_TAG_EXOP_REQ_OID \<equiv> 0x80"
abbreviation (input) LDAP_TAG_EXOP_REQ_VALUE :: ber_tag_t where "LDAP_TAG_EXOP_REQ_VALUE \<equiv> 0x81"
abbreviation (input) LDAP_AUTH_SIMPLE :: ber_tag_t where "LDAP_AUTH_SIMPLE \<equiv> 0x80"
abbreviation (input) LDAP_AUTH_SASL :: ber_tag_t where "LDAP_AUTH_SASL \<equiv> 0xa3"
abbreviation (input) LDAP_REQ_BIND :: ber_tag_t where "LDAP_REQ_BIND \<equiv> 0x60"
abbreviation (input) LDAP_REQ_UNBIND :: ber_tag_t where "LDAP_REQ_UNBIND \<equiv> 0x42"
abbreviation (input) LDAP_REQ_SEARCH :: ber_tag_t where "LDAP_REQ_SEARCH \<equiv> 0x63"
abbreviation (input) LDAP_REQ_MODIFY :: ber_tag_t where "LDAP_REQ_MODIFY \<equiv> 0x66"
abbreviation (input) LDAP_REQ_ADD :: ber_tag_t where "LDAP_REQ_ADD \<equiv> 0x68"
abbreviation (input) LDAP_REQ_DELETE :: ber_tag_t where "LDAP_REQ_DELETE \<equiv> 0x4a"
abbreviation (input) LDAP_REQ_MODDN :: ber_tag_t where "LDAP_REQ_MODDN \<equiv> 0x6c"
abbreviation (input) LDAP_REQ_COMPARE :: ber_tag_t where "LDAP_REQ_COMPARE \<equiv> 0x6e"
abbreviation (input) LDAP_REQ_ABANDON :: ber_tag_t where "LDAP_REQ_ABANDON \<equiv> 0x50"
abbreviation (input) LDAP_REQ_EXTENDED :: ber_tag_t where "LDAP_REQ_EXTENDED \<equiv> 0x77"

text \<open>\<^verbatim>\<open>sizeof(BerElement)\<close> is 80.\<close>

definition ldap_alloc_ber_with_options :: "allocator \<Rightarrow> ldap_handle \<Rightarrow> berelement option \<times> ldap_handle" where
  "ldap_alloc_ber_with_options ma ld =
     (if ma 80 then (Some (ber_alloc_t (ld_lberoptions ld)), ld) else (None, ld\<lparr>ld_errno := LDAP_NO_MEMORY\<rparr>))"

text \<open>\<^verbatim>\<open>LDAP_NEXT_MSGID\<close>: the counter is a \<^verbatim>\<open>ber_len_t\<close>, the id its low 32 bits.\<close>

definition LDAP_NEXT_MSGID :: "ldap_handle \<Rightarrow> ber_int_t \<times> ldap_handle" where
  "LDAP_NEXT_MSGID ld = (ucast (ld_msgid ld + 1), ld\<lparr>ld_msgid := ld_msgid ld + 1\<rparr>)"

section \<open>Controls\<close>

text \<open>\<^verbatim>\<open>if( ber_printf(...) == -1 ) return LDAP_ENCODING_ERROR;\<close>\<close>

definition ctl_call ::
  "(int \<times> berelement) option \<Rightarrow> (berelement \<Rightarrow> (int \<times> berelement) option) \<Rightarrow> (int \<times> berelement) option" where
  "ctl_call r k =
     (case r of None \<Rightarrow> None | Some (rc, ber) \<Rightarrow> if rc = -1 then Some (LDAP_ENCODING_ERROR, ber) else k ber)"

definition ldap_pvt_put_control :: "allocator \<Rightarrow> ldapcontrol \<Rightarrow> berelement \<Rightarrow> (int \<times> berelement) option" where
  "ldap_pvt_put_control ma c ber =
     ctl_call (ber_printf ma ber ''{s'' [PaString (ldctl_oid c)]) (\<lambda>ber.
     ctl_call (if_call (ldctl_iscritical c) ber (ber_printf ma ber ''b'' [PaInt 1])) (\<lambda>ber.
     ctl_call (if_call (ldctl_value c \<noteq> None) ber (ber_printf ma ber ''O'' [PaBerval (ldctl_value c)])) (\<lambda>ber.
     ctl_call (ber_printf ma ber ''N}'' []) (\<lambda>ber.
     Some (LDAP_SUCCESS, ber)))))"

fun put_controls_loop ::
  "allocator \<Rightarrow> ldap_handle \<Rightarrow> ldapcontrol list \<Rightarrow> berelement \<Rightarrow> (int \<times> ldap_handle \<times> berelement) option" where
  "put_controls_loop ma ld [] ber = Some (LDAP_SUCCESS, ld, ber)"
| "put_controls_loop ma ld (c # cs) ber =
     (case ldap_pvt_put_control ma c ber of
        None \<Rightarrow> None
      | Some (rc, ber) \<Rightarrow>
          let ld = ld\<lparr>ld_errno := rc\<rparr>
          in if rc \<noteq> LDAP_SUCCESS then Some (rc, ld, ber) else put_controls_loop ma ld cs ber)"

definition ldap_int_put_controls ::
  "allocator \<Rightarrow> ldap_handle \<Rightarrow> ldapcontrol list option \<Rightarrow> berelement \<Rightarrow> (int \<times> ldap_handle \<times> berelement) option" where
  "ldap_int_put_controls ma ld ctrls ber =
     (case (if ctrls = None then ld_sctrls ld else ctrls) of
        None \<Rightarrow> Some (LDAP_SUCCESS, ld, ber)
      | Some [] \<Rightarrow> Some (LDAP_SUCCESS, ld, ber)
      | Some cs \<Rightarrow>
          if ld_version ld <s LDAP_VERSION3 then
            (if list_ex ldctl_iscritical cs
             then Some (LDAP_NOT_SUPPORTED, ld\<lparr>ld_errno := LDAP_NOT_SUPPORTED\<rparr>, ber)
             else Some (LDAP_SUCCESS, ld, ber))
          else
            (case ber_printf ma ber ''t{'' [PaTag LDAP_TAG_CONTROLS] of
               None \<Rightarrow> None
             | Some (rc, ber) \<Rightarrow>
                 if rc = -1 then Some (LDAP_ENCODING_ERROR, ld\<lparr>ld_errno := LDAP_ENCODING_ERROR\<rparr>, ber)
                 else
                   (case put_controls_loop ma ld cs ber of
                      None \<Rightarrow> None
                    | Some (rc, ld, ber) \<Rightarrow>
                        if rc \<noteq> LDAP_SUCCESS then Some (rc, ld, ber)
                        else
                          (case ber_printf ma ber ''}'' [] of
                             None \<Rightarrow> None
                           | Some (rc, ber) \<Rightarrow>
                               if rc = -1 then Some (LDAP_ENCODING_ERROR, ld\<lparr>ld_errno := LDAP_ENCODING_ERROR\<rparr>, ber)
                               else Some (LDAP_SUCCESS, ld, ber)))))"

definition ldap_int_client_controls :: "ldap_handle \<Rightarrow> ldapcontrol list option \<Rightarrow> int \<times> ldap_handle" where
  "ldap_int_client_controls ld ctrls =
     (case (if ctrls = None then ld_cctrls ld else ctrls) of
        None \<Rightarrow> (LDAP_SUCCESS, ld)
      | Some cs \<Rightarrow>
          if list_ex ldctl_iscritical cs then (LDAP_NOT_SUPPORTED, ld\<lparr>ld_errno := LDAP_NOT_SUPPORTED\<rparr>)
          else (LDAP_SUCCESS, ld))"

section \<open>Steps shared by the requests\<close>

text \<open>The return value where the encoding fails: \<^verbatim>\<open>ld_errno\<close>, except in \<^verbatim>\<open>ldap_sasl_bind\<close>.\<close>

definition on_enc ::
  "int \<Rightarrow> ldap_handle \<Rightarrow> (int \<times> berelement) option \<Rightarrow> (berelement \<Rightarrow> request_result) \<Rightarrow> request_result" where
  "on_enc code ld r k =
     (case r of
        None \<Rightarrow> None
      | Some (rc, ber) \<Rightarrow>
          if rc = -1 then Some (code, None, ld\<lparr>ld_errno := LDAP_ENCODING_ERROR\<rparr>) else k ber)"

definition check_client_controls ::
  "ldap_handle \<Rightarrow> ldapcontrol list option \<Rightarrow> (ldap_handle \<Rightarrow> request_result) \<Rightarrow> request_result" where
  "check_client_controls ld cctrls k =
     (case ldap_int_client_controls ld cctrls of
        (rc, ld) \<Rightarrow> if rc \<noteq> LDAP_SUCCESS then Some (rc, None, ld) else k ld)"

text \<open>The message and its id.\<close>

definition new_message ::
  "allocator \<Rightarrow> ldap_handle \<Rightarrow> (ldap_handle \<Rightarrow> berelement \<Rightarrow> ber_int_t \<Rightarrow> request_result) \<Rightarrow> request_result" where
  "new_message ma ld k =
     (case ldap_alloc_ber_with_options ma ld of
        (None, ld) \<Rightarrow> Some (LDAP_NO_MEMORY, None, ld)
      | (Some ber, ld) \<Rightarrow> (case LDAP_NEXT_MSGID ld of (i, ld) \<Rightarrow> k ld ber i))"

text \<open>Server controls, the end of the message, and sending it.\<close>

definition finish_request ::
  "allocator \<Rightarrow> sender \<Rightarrow> ldap_handle \<Rightarrow> ldapcontrol list option \<Rightarrow> ber_tag_t \<Rightarrow> byte list option \<Rightarrow> ber_int_t
     \<Rightarrow> berelement \<Rightarrow> request_result" where
  "finish_request ma send ld sctrls tag dn i ber =
     (case ldap_int_put_controls ma ld sctrls ber of
        None \<Rightarrow> None
      | Some (rc, ld, ber) \<Rightarrow>
          if rc \<noteq> LDAP_SUCCESS then Some (ld_errno ld, None, ld)
          else on_enc LDAP_ENCODING_ERROR ld (ber_printf ma ber ''N}'' []) (\<lambda>ber.
            case send ld tag dn ber i of
              (msgid, ld) \<Rightarrow> Some (if msgid <s 0 then ld_errno ld else LDAP_SUCCESS, Some msgid, ld)))"

text \<open>
  \<^verbatim>\<open>ldap_rename\<close> tests for a negative value instead of -1.  (So does its test behind \<^verbatim>\<open>"N}"\<close>, where \<^verbatim>\<open>ber_printf\<close> has no
  negative value but -1.)
\<close>

definition negative_rc :: "(int \<times> berelement) option \<Rightarrow> (int \<times> berelement) option" where
  "negative_rc r = map_option (\<lambda>(rc, ber). (if rc < 0 then -1 else rc, ber)) r"

section \<open>Requests\<close>

text \<open>The octets of a berval, which may have a NULL \<^verbatim>\<open>bv_val\<close> (and length 0).\<close>

definition bv_octets :: "byte list option \<Rightarrow> byte list" where
  "bv_octets bv = (case bv of None \<Rightarrow> [] | Some v \<Rightarrow> v)"

text \<open>Bind: \<open>mechanism\<close> is \<open>None\<close> for \<^verbatim>\<open>LDAP_SASL_SIMPLE\<close>; \<open>cred\<close> may be NULL or have a NULL \<^verbatim>\<open>bv_val\<close>.\<close>

definition bind_dn :: "ldap_handle \<Rightarrow> byte list option \<Rightarrow> byte list option \<Rightarrow> byte list option option \<Rightarrow> byte list" where
  "bind_dn ld dn mechanism cred =
     (case (if mechanism = None \<and> dn = None \<and> cred \<noteq> None \<and> bv_octets (the cred) \<noteq> [] then ld_defbinddn ld else dn) of
        None \<Rightarrow> [] | Some d \<Rightarrow> d)"

definition ldap_sasl_bind ::
  "allocator \<Rightarrow> sender \<Rightarrow> ldap_handle \<Rightarrow> byte list option \<Rightarrow> byte list option \<Rightarrow> byte list option option
     \<Rightarrow> ldapcontrol list option \<Rightarrow> ldapcontrol list option \<Rightarrow> request_result" where
  "ldap_sasl_bind ma send ld dn mechanism cred sctrls cctrls =
     check_client_controls ld cctrls (\<lambda>ld.
       if mechanism \<noteq> None \<and> ld_version ld <s LDAP_VERSION3
       then Some (LDAP_NOT_SUPPORTED, None, ld\<lparr>ld_errno := LDAP_NOT_SUPPORTED\<rparr>)
       else
         let dn = bind_dn ld dn mechanism cred
         in new_message ma ld (\<lambda>ld ber i.
              on_enc (-1) ld
                (case mechanism of
                   None \<Rightarrow> ber_printf ma ber ''{it{istON}''
                     [PaInt i, PaTag LDAP_REQ_BIND, PaInt (ld_version ld), PaString dn, PaTag LDAP_AUTH_SIMPLE,
                      PaBerval (map_option bv_octets cred)]
                 | Some m \<Rightarrow>
                     (case cred of
                        Some (Some c) \<Rightarrow> ber_printf ma ber ''{it{ist{sON}N}''
                          [PaInt i, PaTag LDAP_REQ_BIND, PaInt (ld_version ld), PaString dn, PaTag LDAP_AUTH_SASL,
                           PaString m, PaBerval (Some c)]
                      | _ \<Rightarrow> ber_printf ma ber ''{it{ist{sN}N}''
                          [PaInt i, PaTag LDAP_REQ_BIND, PaInt (ld_version ld), PaString dn, PaTag LDAP_AUTH_SASL, PaString m]))
                (finish_request ma send ld sctrls LDAP_REQ_BIND (Some dn) i)))"

definition ldap_compare_ext ::
  "allocator \<Rightarrow> sender \<Rightarrow> ldap_handle \<Rightarrow> byte list \<Rightarrow> byte list \<Rightarrow> byte list option
     \<Rightarrow> ldapcontrol list option \<Rightarrow> ldapcontrol list option \<Rightarrow> request_result" where
  "ldap_compare_ext ma send ld dn attr bvalue sctrls cctrls =
     check_client_controls ld cctrls (\<lambda>ld. new_message ma ld (\<lambda>ld ber i.
       on_enc LDAP_ENCODING_ERROR ld
         (ber_printf ma ber ''{it{s{sON}N}''
            [PaInt i, PaTag LDAP_REQ_COMPARE, PaString dn, PaString attr, PaBerval bvalue])
         (finish_request ma send ld sctrls LDAP_REQ_COMPARE (Some dn) i)))"

definition ldap_delete_ext ::
  "allocator \<Rightarrow> sender \<Rightarrow> ldap_handle \<Rightarrow> byte list \<Rightarrow> ldapcontrol list option \<Rightarrow> ldapcontrol list option \<Rightarrow> request_result" where
  "ldap_delete_ext ma send ld dn sctrls cctrls =
     check_client_controls ld cctrls (\<lambda>ld. new_message ma ld (\<lambda>ld ber i.
       on_enc LDAP_ENCODING_ERROR ld (ber_printf ma ber ''{its'' [PaInt i, PaTag LDAP_REQ_DELETE, PaString dn])
         (finish_request ma send ld sctrls LDAP_REQ_DELETE (Some dn) i)))"

text \<open>The version is checked after a message id has been taken.\<close>

definition ldap_rename ::
  "allocator \<Rightarrow> sender \<Rightarrow> ldap_handle \<Rightarrow> byte list \<Rightarrow> byte list \<Rightarrow> byte list option \<Rightarrow> ber_int_t
     \<Rightarrow> ldapcontrol list option \<Rightarrow> ldapcontrol list option \<Rightarrow> request_result" where
  "ldap_rename ma send ld dn newrdn newSuperior deleteoldrdn sctrls cctrls =
     check_client_controls ld cctrls (\<lambda>ld. new_message ma ld (\<lambda>ld ber i.
       if newSuperior \<noteq> None \<and> ld_version ld <s LDAP_VERSION3
       then Some (LDAP_NOT_SUPPORTED, None, ld\<lparr>ld_errno := LDAP_NOT_SUPPORTED\<rparr>)
       else on_enc LDAP_ENCODING_ERROR ld
              (negative_rc (case newSuperior of
                 Some superior \<Rightarrow> ber_printf ma ber ''{it{ssbtsN}''
                   [PaInt i, PaTag LDAP_REQ_MODDN, PaString dn, PaString newrdn, PaInt deleteoldrdn,
                    PaTag LDAP_TAG_NEWSUPERIOR, PaString superior]
               | None \<Rightarrow> ber_printf ma ber ''{it{ssbN}''
                   [PaInt i, PaTag LDAP_REQ_MODDN, PaString dn, PaString newrdn, PaInt deleteoldrdn]))
              (finish_request ma send ld sctrls LDAP_REQ_MODDN (Some dn) i)))"

text \<open>No check of client controls here.  An empty \<open>reqoid\<close> fails an assertion (\<open>None\<close>).\<close>

definition ldap_extended_operation ::
  "allocator \<Rightarrow> sender \<Rightarrow> ldap_handle \<Rightarrow> byte list \<Rightarrow> byte list option \<Rightarrow> ldapcontrol list option \<Rightarrow> request_result" where
  "ldap_extended_operation ma send ld reqoid reqdata sctrls =
     (if octet_at reqoid 0 = 0 then None
      else if ld_version ld <s LDAP_VERSION3 then Some (LDAP_NOT_SUPPORTED, None, ld\<lparr>ld_errno := LDAP_NOT_SUPPORTED\<rparr>)
      else new_message ma ld (\<lambda>ld ber i.
        on_enc LDAP_ENCODING_ERROR ld
          (case reqdata of
             Some v \<Rightarrow> ber_printf ma ber ''{it{tstON}''
               [PaInt i, PaTag LDAP_REQ_EXTENDED, PaTag LDAP_TAG_EXOP_REQ_OID, PaString reqoid,
                PaTag LDAP_TAG_EXOP_REQ_VALUE, PaBerval (Some v)]
           | None \<Rightarrow> ber_printf ma ber ''{it{tsN}''
               [PaInt i, PaTag LDAP_REQ_EXTENDED, PaTag LDAP_TAG_EXOP_REQ_OID, PaString reqoid])
          (finish_request ma send ld sctrls LDAP_REQ_EXTENDED None i)))"

text \<open>
  The values of a modification are a union of strings and bervals, told apart by \<^verbatim>\<open>LDAP_MOD_BVALUES\<close> in \<^verbatim>\<open>mod_op\<close>.
\<close>

record ldapmod =
  mod_op :: "32 word"
  mod_type :: "byte list"
  mod_values :: "byte list list option"
  mod_bvalues :: "byte list option list option"

abbreviation (input) LDAP_MOD_BVALUES :: "32 word" where "LDAP_MOD_BVALUES \<equiv> 0x80"

fun put_add_attrs ::
  "allocator \<Rightarrow> ldap_handle \<Rightarrow> ldapmod list \<Rightarrow> (berelement \<Rightarrow> request_result) \<Rightarrow> berelement \<Rightarrow> request_result" where
  "put_add_attrs ma ld [] k ber = k ber"
| "put_add_attrs ma ld (a # as) k ber =
     (if mod_op a AND LDAP_MOD_BVALUES \<noteq> 0 then
        (case mod_bvalues a of
           None \<Rightarrow> Some (LDAP_PARAM_ERROR, None, ld\<lparr>ld_errno := LDAP_PARAM_ERROR\<rparr>)
         | Some bvs \<Rightarrow>
             if None \<in> set bvs then Some (LDAP_PARAM_ERROR, None, ld\<lparr>ld_errno := LDAP_PARAM_ERROR\<rparr>)
             else on_enc LDAP_ENCODING_ERROR ld
                    (ber_printf ma ber ''{s[V]N}'' [PaString (mod_type a), PaBervals (Some (map bv_octets bvs))])
                    (put_add_attrs ma ld as k))
      else
        (case mod_values a of
           None \<Rightarrow> Some (LDAP_PARAM_ERROR, None, ld\<lparr>ld_errno := LDAP_PARAM_ERROR\<rparr>)
         | Some vs \<Rightarrow>
             on_enc LDAP_ENCODING_ERROR ld
               (ber_printf ma ber ''{s[v]N}'' [PaString (mod_type a), PaStrings (Some vs)])
               (put_add_attrs ma ld as k)))"

definition ldap_add_ext ::
  "allocator \<Rightarrow> sender \<Rightarrow> ldap_handle \<Rightarrow> byte list \<Rightarrow> ldapmod list option
     \<Rightarrow> ldapcontrol list option \<Rightarrow> ldapcontrol list option \<Rightarrow> request_result" where
  "ldap_add_ext ma send ld dn attrs sctrls cctrls =
     check_client_controls ld cctrls (\<lambda>ld. new_message ma ld (\<lambda>ld ber i.
       on_enc LDAP_ENCODING_ERROR ld (ber_printf ma ber ''{it{s{'' [PaInt i, PaTag LDAP_REQ_ADD, PaString dn])
         (put_add_attrs ma ld (case attrs of None \<Rightarrow> [] | Some as \<Rightarrow> as) (\<lambda>ber.
            on_enc LDAP_ENCODING_ERROR ld (ber_printf ma ber ''N}N}'' [])
              (finish_request ma send ld sctrls LDAP_REQ_ADD (Some dn) i)))))"

fun put_mods ::
  "allocator \<Rightarrow> ldap_handle \<Rightarrow> ldapmod list \<Rightarrow> (berelement \<Rightarrow> request_result) \<Rightarrow> berelement \<Rightarrow> request_result" where
  "put_mods ma ld [] k ber = k ber"
| "put_mods ma ld (m # ms) k ber =
     on_enc LDAP_ENCODING_ERROR ld
       (if mod_op m AND LDAP_MOD_BVALUES \<noteq> 0
        then ber_printf ma ber ''{e{s[V]N}N}''
               [PaInt (mod_op m AND NOT LDAP_MOD_BVALUES), PaString (mod_type m),
                PaBervals (map_option (map bv_octets) (mod_bvalues m))]
        else ber_printf ma ber ''{e{s[v]N}N}'' [PaInt (mod_op m), PaString (mod_type m), PaStrings (mod_values m)])
       (put_mods ma ld ms k)"

definition ldap_modify_ext ::
  "allocator \<Rightarrow> sender \<Rightarrow> ldap_handle \<Rightarrow> byte list \<Rightarrow> ldapmod list option
     \<Rightarrow> ldapcontrol list option \<Rightarrow> ldapcontrol list option \<Rightarrow> request_result" where
  "ldap_modify_ext ma send ld dn mods sctrls cctrls =
     check_client_controls ld cctrls (\<lambda>ld. new_message ma ld (\<lambda>ld ber i.
       on_enc LDAP_ENCODING_ERROR ld (ber_printf ma ber ''{it{s{'' [PaInt i, PaTag LDAP_REQ_MODIFY, PaString dn])
         (put_mods ma ld (case mods of None \<Rightarrow> [] | Some ms \<Rightarrow> ms) (\<lambda>ber.
            on_enc LDAP_ENCODING_ERROR ld (ber_printf ma ber ''N}N}'' [])
              (finish_request ma send ld sctrls LDAP_REQ_MODIFY (Some dn) i)))))"

section \<open>Search\<close>

text \<open>\<^verbatim>\<open>"(objectclass=*)"\<close>\<close>

definition default_filter :: "byte list" where
  "default_filter = [0x28, 0x6f, 0x62, 0x6a, 0x65, 0x63, 0x74, 0x63, 0x6c, 0x61, 0x73, 0x73, 0x3d, 0x2a, 0x29]"

definition or_default :: "ber_int_t \<Rightarrow> ber_int_t \<Rightarrow> ber_int_t" where
  "or_default n d = (if n <s 0 then d else n)"

text \<open>
  The message and its id, or \<open>None\<close> for the return value NULL.  \<^verbatim>\<open>LDAP_CONNECTIONLESS\<close> is not configured.  Only the
  return value -1 of \<^verbatim>\<open>ldap_pvt_put_filter\<close> counts as a failure.
\<close>

definition ldap_build_search_req ::
  "allocator \<Rightarrow> ldap_handle \<Rightarrow> byte list option \<Rightarrow> ber_int_t \<Rightarrow> byte list option \<Rightarrow> byte list list option \<Rightarrow> ber_int_t
     \<Rightarrow> ldapcontrol list option \<Rightarrow> ber_int_t \<Rightarrow> ber_int_t \<Rightarrow> ber_int_t
     \<Rightarrow> ((berelement \<times> ber_int_t) option \<times> ldap_handle) option" where
  "ldap_build_search_req ma ld base scope fltr attrs attrsonly sctrls timelimit sizelimit deref =
     (case ldap_alloc_ber_with_options ma ld of
        (None, ld) \<Rightarrow> Some (None, ld)
      | (Some ber, ld) \<Rightarrow>
          (case LDAP_NEXT_MSGID ld of
             (i, ld) \<Rightarrow>
               let base = bv_octets (if base = None then ldo_defbase ld else base);
                   ld_enc = ld\<lparr>ld_errno := LDAP_ENCODING_ERROR\<rparr>
               in case ber_printf ma ber ''{it{seeiib''
                         [PaInt i, PaTag LDAP_REQ_SEARCH, PaString base, PaInt scope, PaInt (or_default deref (ld_deref ld)),
                          PaInt (or_default sizelimit (ld_sizelimit ld)), PaInt (or_default timelimit (ld_timelimit ld)),
                          PaInt attrsonly] of
                    None \<Rightarrow> None
                  | Some (rc, ber) \<Rightarrow>
                      if rc = -1 then Some (None, ld_enc)
                      else case ldap_pvt_put_filter ma ber (case fltr of None \<Rightarrow> default_filter | Some f \<Rightarrow> f) of
                             None \<Rightarrow> None
                           | Some (rc, ber) \<Rightarrow>
                               if rc = -1 then Some (None, ld\<lparr>ld_errno := LDAP_FILTER_ERROR\<rparr>)
                               else case ber_printf ma ber ''{v}N}'' [PaStrings attrs] of
                                      None \<Rightarrow> None
                                    | Some (rc, ber) \<Rightarrow>
                                        if rc = -1 then Some (None, ld_enc)
                                        else case ldap_int_put_controls ma ld sctrls ber of
                                               None \<Rightarrow> None
                                             | Some (rc, ld, ber) \<Rightarrow>
                                                 if rc \<noteq> LDAP_SUCCESS then Some (None, ld)
                                                 else case ber_printf ma ber ''N}'' [] of
                                                        None \<Rightarrow> None
                                                      | Some (rc, ber) \<Rightarrow>
                                                          if rc = -1 then Some (None, ld\<lparr>ld_errno := LDAP_ENCODING_ERROR\<rparr>)
                                                          else Some (Some (ber, i), ld)))"

text \<open>\<open>timeout\<close> has seconds and microseconds; the time limit is an \<^verbatim>\<open>int\<close>.\<close>

definition ldap_pvt_search ::
  "allocator \<Rightarrow> sender \<Rightarrow> ldap_handle \<Rightarrow> byte list option \<Rightarrow> ber_int_t \<Rightarrow> byte list option \<Rightarrow> byte list list option \<Rightarrow> ber_int_t
     \<Rightarrow> ldapcontrol list option \<Rightarrow> ldapcontrol list option \<Rightarrow> (int \<times> int) option \<Rightarrow> ber_int_t \<Rightarrow> ber_int_t \<Rightarrow> request_result" where
  "ldap_pvt_search ma send ld base scope fltr attrs attrsonly sctrls cctrls timeout sizelimit deref =
     check_client_controls ld cctrls (\<lambda>ld.
       if timeout = Some (0, 0) then Some (LDAP_PARAM_ERROR, None, ld)
       else
         let timelimit = (case timeout of None \<Rightarrow> -1 | Some (sec, usec) \<Rightarrow> if sec \<noteq> 0 then of_int sec else 1)
         in case ldap_build_search_req ma ld base scope fltr attrs attrsonly sctrls timelimit sizelimit deref of
              None \<Rightarrow> None
            | Some (None, ld) \<Rightarrow> Some (ld_errno ld, None, ld)
            | Some (Some (ber, i), ld) \<Rightarrow>
                (case send ld LDAP_REQ_SEARCH base ber i of
                   (msgid, ld) \<Rightarrow> Some (if msgid <s 0 then ld_errno ld else LDAP_SUCCESS, Some msgid, ld)))"

definition ldap_search_ext ::
  "allocator \<Rightarrow> sender \<Rightarrow> ldap_handle \<Rightarrow> byte list option \<Rightarrow> ber_int_t \<Rightarrow> byte list option \<Rightarrow> byte list list option \<Rightarrow> ber_int_t
     \<Rightarrow> ldapcontrol list option \<Rightarrow> ldapcontrol list option \<Rightarrow> (int \<times> int) option \<Rightarrow> ber_int_t \<Rightarrow> request_result" where
  "ldap_search_ext ma send ld base scope fltr attrs attrsonly sctrls cctrls timeout sizelimit =
     ldap_pvt_search ma send ld base scope fltr attrs attrsonly sctrls cctrls timeout sizelimit (-1)"

section \<open>Unbind and abandon\<close>

text \<open>\<open>flush\<close> is the return value of \<^verbatim>\<open>ber_flush2\<close> on the message.\<close>

definition ldap_send_unbind ::
  "allocator \<Rightarrow> (berelement \<Rightarrow> int) \<Rightarrow> ldap_handle \<Rightarrow> ldapcontrol list option \<Rightarrow> (int \<times> ldap_handle) option" where
  "ldap_send_unbind ma flush ld sctrls =
     map_option (\<lambda>(rc, _, ld). (rc, ld))
       (new_message ma ld (\<lambda>ld ber i.
          on_enc LDAP_ENCODING_ERROR ld (ber_printf ma ber ''{itn'' [PaInt i, PaTag LDAP_REQ_UNBIND])
            (finish_request ma
               (\<lambda>ld tag dn ber i. let ld = ld\<lparr>ld_errno := LDAP_SUCCESS\<rparr>
                  in if flush ber = -1 then (-1, ld\<lparr>ld_errno := LDAP_SERVER_DOWN\<rparr>) else (0, ld))
               ld sctrls LDAP_REQ_UNBIND None i)))"

text \<open>The message that \<^verbatim>\<open>do_abandon\<close> sends for a request in progress: its \<^verbatim>\<open>err\<close> and the handle.\<close>

definition abandon_message ::
  "allocator \<Rightarrow> (berelement \<Rightarrow> int) \<Rightarrow> ldap_handle \<Rightarrow> ber_int_t \<Rightarrow> ldapcontrol list option \<Rightarrow> (int \<times> ldap_handle) option" where
  "abandon_message ma flush ld msgid sctrls =
     map_option (\<lambda>(rc, _, ld). (if rc = LDAP_SUCCESS then 0 else -1, ld))
       (new_message ma ld (\<lambda>ld ber i.
          on_enc LDAP_ENCODING_ERROR ld (ber_printf ma ber ''{iti'' [PaInt i, PaTag LDAP_REQ_ABANDON, PaInt msgid])
            (finish_request ma
               (\<lambda>ld tag dn ber i. if flush ber \<noteq> 0 then (-1, ld\<lparr>ld_errno := LDAP_SERVER_DOWN\<rparr>) else (0, ld))
               ld sctrls LDAP_REQ_ABANDON None i)))"

end
