(* ===== verification/Request_Encode.thy ===== *)
theory Request_Encode
  imports Ldap_Request Filter_Encode
begin

text \<open>
  What the requests put on the wire: every request as an LDAP message (RFC 4511), and the proof that the code builds
  exactly its encoding and hands it to the sender.
\<close>

section \<open>Requests as messages\<close>

datatype ldap_request =
    RBind "byte list option" "byte list option" "byte list option option"
  | RSearch "byte list option" ber_int_t "ldap_filter option" "byte list list option" ber_int_t "(int \<times> int) option" ber_int_t
  | RCompare "byte list" "byte list" "byte list option"
  | RAdd "byte list" "ldapmod list option"
  | RModify "byte list" "ldapmod list option"
  | RDelete "byte list"
  | RRename "byte list" "byte list" "byte list option" ber_int_t
  | RExtended "byte list" "byte list option"
  | RUnbind
  | RAbandon ber_int_t

definition unbind_sender :: "(berelement \<Rightarrow> int) \<Rightarrow> sender" where
  "unbind_sender flush = (\<lambda>ld tag dn ber i. let ld = ld\<lparr>ld_errno := LDAP_SUCCESS\<rparr>
     in if flush ber = -1 then (-1, ld\<lparr>ld_errno := LDAP_SERVER_DOWN\<rparr>) else (0, ld))"

definition abandon_sender :: "(berelement \<Rightarrow> int) \<Rightarrow> sender" where
  "abandon_sender flush =
     (\<lambda>ld tag dn ber i. if flush ber \<noteq> 0 then (-1, ld\<lparr>ld_errno := LDAP_SERVER_DOWN\<rparr>) else (0, ld))"

text \<open>The call of the library for a request, without further client controls.\<close>

fun issue ::
  "allocator \<Rightarrow> sender \<Rightarrow> (berelement \<Rightarrow> int) \<Rightarrow> ldap_handle \<Rightarrow> ldap_request \<Rightarrow> ldapcontrol list option \<Rightarrow> request_result" where
  "issue ma send flush ld (RBind dn m cred) sctrls = ldap_sasl_bind ma send ld dn m cred sctrls None"
| "issue ma send flush ld (RSearch base scope f attrs ao timeout sz) sctrls =
     ldap_search_ext ma send ld base scope (map_option filter_text f) attrs ao sctrls None timeout sz"
| "issue ma send flush ld (RCompare dn a v) sctrls = ldap_compare_ext ma send ld dn a v sctrls None"
| "issue ma send flush ld (RAdd dn atts) sctrls = ldap_add_ext ma send ld dn atts sctrls None"
| "issue ma send flush ld (RModify dn ms) sctrls = ldap_modify_ext ma send ld dn ms sctrls None"
| "issue ma send flush ld (RDelete dn) sctrls = ldap_delete_ext ma send ld dn sctrls None"
| "issue ma send flush ld (RRename dn rdn s d) sctrls = ldap_rename ma send ld dn rdn s d sctrls None"
| "issue ma send flush ld (RExtended oid v) sctrls = ldap_extended_operation ma send ld oid v sctrls"
| "issue ma send flush ld RUnbind sctrls = map_option (\<lambda>(rc, ld). (rc, None, ld)) (ldap_send_unbind ma flush ld sctrls)"
| "issue ma send flush ld (RAbandon m) sctrls =
     map_option (\<lambda>(err, ld). (err, None, ld)) (abandon_message ma flush ld m sctrls)"

text \<open>Where the message goes, and the value returned for it.\<close>

fun sender_of :: "sender \<Rightarrow> (berelement \<Rightarrow> int) \<Rightarrow> ldap_request \<Rightarrow> sender" where
  "sender_of send flush RUnbind = unbind_sender flush"
| "sender_of send flush (RAbandon m) = abandon_sender flush"
| "sender_of send flush _ = send"

fun outcome :: "ldap_request \<Rightarrow> request_result \<Rightarrow> request_result" where
  "outcome RUnbind r = map_option (\<lambda>(rc, _, ld). (rc, None, ld)) r"
| "outcome (RAbandon m) r = map_option (\<lambda>(rc, _, ld). (if rc = LDAP_SUCCESS then 0 else -1, None, ld)) r"
| "outcome _ r = r"

fun request_dn :: "ldap_handle \<Rightarrow> ldap_request \<Rightarrow> byte list option" where
  "request_dn ld (RBind dn m cred) = Some (bind_dn ld dn m cred)"
| "request_dn ld (RSearch base scope f attrs ao timeout sz) = base"
| "request_dn ld (RCompare dn a v) = Some dn"
| "request_dn ld (RAdd dn atts) = Some dn"
| "request_dn ld (RModify dn ms) = Some dn"
| "request_dn ld (RDelete dn) = Some dn"
| "request_dn ld (RRename dn rdn s d) = Some dn"
| "request_dn ld _ = None"

text \<open>The protocol operation.\<close>

abbreviation (input) BStr :: "byte list \<Rightarrow> ber_item" where "BStr s \<equiv> BOctets LBER_DEFAULT (c_string s)"

abbreviation (input) or_nil :: "'a list option \<Rightarrow> 'a list" where "or_nil x \<equiv> (case x of None \<Rightarrow> [] | Some l \<Rightarrow> l)"

definition opt_item :: "ber_tag_t \<Rightarrow> byte list option \<Rightarrow> ber_item list" where
  "opt_item t v = (case v of None \<Rightarrow> [] | Some s \<Rightarrow> [BOctets t s])"

definition mod_octets :: "ldapmod \<Rightarrow> byte list list" where
  "mod_octets m =
     (if mod_op m AND LDAP_MOD_BVALUES \<noteq> 0 then (case mod_bvalues m of None \<Rightarrow> [] | Some bvs \<Rightarrow> map bv_octets bvs)
      else (case mod_values m of None \<Rightarrow> [] | Some vs \<Rightarrow> map c_string vs))"

definition attr_item :: "ldapmod \<Rightarrow> ber_item" where
  "attr_item m = BSeq LBER_DEFAULT [BStr (mod_type m), BSet LBER_DEFAULT (map (BOctets LBER_DEFAULT) (mod_octets m))]"

definition mod_item :: "ldapmod \<Rightarrow> ber_item" where
  "mod_item m = BSeq LBER_DEFAULT
     [BEnum LBER_DEFAULT (if mod_op m AND LDAP_MOD_BVALUES \<noteq> 0 then mod_op m AND NOT LDAP_MOD_BVALUES else mod_op m), attr_item m]"

definition auth_items :: "byte list option \<Rightarrow> byte list option option \<Rightarrow> ber_item list" where
  "auth_items m cred =
     (case m of
        None \<Rightarrow> [BOctets LDAP_AUTH_SIMPLE (case cred of None \<Rightarrow> [] | Some c \<Rightarrow> bv_octets c)]
      | Some mech \<Rightarrow> [BSeq LDAP_AUTH_SASL (BStr mech # (case cred of Some (Some c) \<Rightarrow> [BOctets LBER_DEFAULT c] | _ \<Rightarrow> []))])"

definition time_limit :: "(int \<times> int) option \<Rightarrow> ber_int_t" where
  "time_limit timeout = (case timeout of None \<Rightarrow> -1 | Some (sec, usec) \<Rightarrow> if sec \<noteq> 0 then of_int sec else 1)"

text \<open>\<^verbatim>\<open>objectclass\<close>, the attribute of the default filter.\<close>

definition objectclass :: "byte list" where
  "objectclass = [0x6f, 0x62, 0x6a, 0x65, 0x63, 0x74, 0x63, 0x6c, 0x61, 0x73, 0x73]"

definition search_filter :: "ldap_filter option \<Rightarrow> ldap_filter" where
  "search_filter f = (case f of None \<Rightarrow> FilterPresent objectclass | Some f \<Rightarrow> f)"

fun request_op :: "ldap_handle \<Rightarrow> ldap_request \<Rightarrow> ber_item" where
  "request_op ld (RBind dn m cred) =
     BSeq LDAP_REQ_BIND ([BInt LBER_DEFAULT (ld_version ld), BStr (bind_dn ld dn m cred)] @ auth_items m cred)"
| "request_op ld (RSearch base scope f attrs ao timeout sz) =
     BSeq LDAP_REQ_SEARCH
       [BStr (bv_octets (if base = None then ldo_defbase ld else base)), BEnum LBER_DEFAULT scope,
        BEnum LBER_DEFAULT (ld_deref ld), BInt LBER_DEFAULT (or_default sz (ld_sizelimit ld)),
        BInt LBER_DEFAULT (or_default (time_limit timeout) (ld_timelimit ld)), BBool LBER_DEFAULT ao,
        filter_ber (search_filter f),
        BSeq LBER_DEFAULT (map BStr (or_nil attrs))]"
| "request_op ld (RCompare dn a v) =
     BSeq LDAP_REQ_COMPARE [BStr dn, BSeq LBER_DEFAULT [BStr a, BOctets LBER_DEFAULT (bv_octets v)]]"
| "request_op ld (RAdd dn atts) =
     BSeq LDAP_REQ_ADD [BStr dn, BSeq LBER_DEFAULT (map attr_item (or_nil atts))]"
| "request_op ld (RModify dn ms) =
     BSeq LDAP_REQ_MODIFY [BStr dn, BSeq LBER_DEFAULT (map mod_item (or_nil ms))]"
| "request_op ld (RDelete dn) = BOctets LDAP_REQ_DELETE (c_string dn)"
| "request_op ld (RRename dn rdn s d) =
     BSeq LDAP_REQ_MODDN ([BStr dn, BStr rdn, BBool LBER_DEFAULT d] @ opt_item LDAP_TAG_NEWSUPERIOR (map_option c_string s))"
| "request_op ld (RExtended oid v) =
     BSeq LDAP_REQ_EXTENDED (BOctets LDAP_TAG_EXOP_REQ_OID (c_string oid) # opt_item LDAP_TAG_EXOP_REQ_VALUE v)"
| "request_op ld RUnbind = BNull LDAP_REQ_UNBIND"
| "request_op ld (RAbandon m) = BInt LDAP_REQ_ABANDON m"

fun request_tag :: "ldap_request \<Rightarrow> ber_tag_t" where
  "request_tag (RBind dn m cred) = LDAP_REQ_BIND"
| "request_tag (RSearch base scope f attrs ao timeout sz) = LDAP_REQ_SEARCH"
| "request_tag (RCompare dn a v) = LDAP_REQ_COMPARE"
| "request_tag (RAdd dn atts) = LDAP_REQ_ADD"
| "request_tag (RModify dn ms) = LDAP_REQ_MODIFY"
| "request_tag (RDelete dn) = LDAP_REQ_DELETE"
| "request_tag (RRename dn rdn s d) = LDAP_REQ_MODDN"
| "request_tag (RExtended oid v) = LDAP_REQ_EXTENDED"
| "request_tag RUnbind = LDAP_REQ_UNBIND"
| "request_tag (RAbandon m) = LDAP_REQ_ABANDON"

text \<open>Controls.\<close>

definition control_item :: "ldapcontrol \<Rightarrow> ber_item" where
  "control_item c = BSeq LBER_DEFAULT
     (BStr (ldctl_oid c) # (if ldctl_iscritical c then [BBool LBER_DEFAULT 1] else []) @ opt_item LBER_DEFAULT (ldctl_value c))"

definition server_controls :: "ldap_handle \<Rightarrow> ldapcontrol list option \<Rightarrow> ldapcontrol list" where
  "server_controls ld ctrls = (case (if ctrls = None then ld_sctrls ld else ctrls) of None \<Rightarrow> [] | Some cs \<Rightarrow> cs)"

definition control_items :: "ldap_handle \<Rightarrow> ldapcontrol list option \<Rightarrow> ber_item list" where
  "control_items ld ctrls =
     (if server_controls ld ctrls = [] \<or> ld_version ld <s LDAP_VERSION3 then []
      else [BSeq LDAP_TAG_CONTROLS (map control_item (server_controls ld ctrls))])"

text \<open>The message, and the handle when it is sent.\<close>

definition request_message :: "ldap_handle \<Rightarrow> ldap_request \<Rightarrow> ldapcontrol list option \<Rightarrow> ber_item" where
  "request_message ld r ctrls =
     BSeq LBER_DEFAULT ([BInt LBER_DEFAULT (ucast (ld_msgid ld + 1)), request_op ld r] @ control_items ld ctrls)"

definition request_handle :: "ldap_handle \<Rightarrow> ldapcontrol list option \<Rightarrow> ldap_handle" where
  "request_handle ld ctrls =
     (let ld = ld\<lparr>ld_msgid := ld_msgid ld + 1\<rparr>
      in if control_items ld ctrls = [] then ld else ld\<lparr>ld_errno := LDAP_SUCCESS\<rparr>)"

definition sent :: "sender \<Rightarrow> ldap_handle \<Rightarrow> ber_tag_t \<Rightarrow> byte list option \<Rightarrow> berelement \<Rightarrow> ber_int_t \<Rightarrow> request_result" where
  "sent send ld tag dn ber i =
     (case send ld tag dn ber i of
        (msgid, ld) \<Rightarrow> Some (if msgid <s 0 then ld_errno ld else LDAP_SUCCESS, Some msgid, ld))"

text \<open>
  Requests that the code does not refuse and that have every mandatory part: credentials in a simple bind, an
  assertion value in a comparison, at least one value in every attribute of a new entry, and an object identifier in an
  extended request (the code asserts it; it does not check the others).
\<close>

definition attr_ok :: "ldapmod \<Rightarrow> bool" where
  "attr_ok a \<longleftrightarrow> (if mod_op a AND LDAP_MOD_BVALUES \<noteq> 0 then mod_bvalues a \<noteq> None \<and> None \<notin> set (the (mod_bvalues a))
                else mod_values a \<noteq> None)"

fun request_ok :: "ldap_handle \<Rightarrow> ldap_request \<Rightarrow> bool" where
  "request_ok ld (RBind dn m cred) = (if m = None then cred \<noteq> None else \<not> ld_version ld <s LDAP_VERSION3)"
| "request_ok ld (RSearch base scope f attrs ao timeout sz) = (filter_ok (search_filter f) \<and> timeout \<noteq> Some (0, 0))"
| "request_ok ld (RCompare dn a v) = (v \<noteq> None)"
| "request_ok ld (RAdd dn atts) =
     list_all (\<lambda>a. attr_ok a \<and> mod_octets a \<noteq> []) (or_nil atts)"
| "request_ok ld (RRename dn rdn s d) = (s = None \<or> \<not> ld_version ld <s LDAP_VERSION3)"
| "request_ok ld (RExtended oid v) = (octet_at oid 0 \<noteq> 0 \<and> \<not> ld_version ld <s LDAP_VERSION3)"
| "request_ok ld _ = True"

definition controls_ok :: "ldap_handle \<Rightarrow> ldapcontrol list option \<Rightarrow> bool" where
  "controls_ok ld ctrls \<longleftrightarrow>
     (ld_version ld <s LDAP_VERSION3 \<longrightarrow> \<not> list_ex ldctl_iscritical (server_controls ld ctrls))
     \<and> (case ld_cctrls ld of None \<Rightarrow> True | Some cs \<Rightarrow> \<not> list_ex ldctl_iscritical cs)"

section \<open>Calls that write\<close>

text \<open>An element with the options \<open>opt\<close> between two calls, with at most \<open>e\<close> octets allocated.\<close>

definition msg_at :: "16 word \<Rightarrow> nat \<Rightarrow> writer \<Rightarrow> berelement \<Rightarrow> bool" where
  "msg_at opt e w ber \<longleftrightarrow> at_writer ber w \<and> ber_options ber = opt \<and> ber_end ber \<le> e"

abbreviation (input) opt_der :: "16 word \<Rightarrow> bool" where "opt_der opt \<equiv> opt AND LBER_USE_DER \<noteq> 0"

lemma leaves_msg:
  assumes "leaves ma j ber w' r" and "msg_at opt e w ber" and "\<forall>n. ma n" and "e + j < 2 ^ 31"
  obtains rc b where "r = Some (rc, b)" "0 \<le> rc" "msg_at opt (e + j) w' b"
proof -
  have "affordable ma ber j" using assms(2-4) by (simp add: affordable_def msg_at_def)
  then obtain rc b where "r = Some (rc, b)" "0 \<le> rc" "at_writer b w'" "ber_options b = ber_options ber" "ber_end b \<le> ber_end ber + j"
    using leaves_affordable [OF assms(1)] by blast
  then show ?thesis using that assms(2) by (simp add: msg_at_def)
qed

lemma printf_msg:
  assumes "msg_at opt e w ber" and "w_run (opt_der opt) fmt args w LBER_DEFAULT = Some (w', j)"
    and "\<forall>n. ma n" and "e + j < 2 ^ 31"
  obtains rc b where "ber_printf ma ber fmt args = Some (rc, b)" "0 \<le> rc" "msg_at opt (e + j) w' b"
proof -
  have "at_writer ber w" "w_run (ber_der ber) fmt args w LBER_DEFAULT = Some (w', j)"
    using assms(1,2) by (simp_all add: msg_at_def ber_der_def)
  then have "leaves ma j ber w' (ber_printf ma ber fmt args)" using ber_printf_leaves by blast
  then show ?thesis using leaves_msg assms(1,3,4) that by metis
qed

lemma open_run: "t \<noteq> LBER_DEFAULT \<Longrightarrow> w_run der ''t{'' [PaTag t] w LBER_DEFAULT = Some (w_open t w, 4074)"
  by (simp add: format_run)

lemma end_run: "w_run der ''}'' [] (w_put x (w_open t w)) LBER_DEFAULT = Some (w_put (seq_tlv der t x) w, 4061)"
  by (simp add: format_run)

lemma close_run: "w_run der ''N}'' [] (w_put x (w_open t w)) LBER_DEFAULT = Some (w_put (seq_tlv der t x) w, 4061)"
  by (simp add: format_run)

lemma on_enc_step:
  assumes "msg_at opt e w ber" and "w_run (opt_der opt) fmt args w LBER_DEFAULT = Some (w', j)"
    and "\<forall>n. ma n" and "e + j < 2 ^ 31"
    and "\<And>b. msg_at opt (e + j) w' b \<Longrightarrow> P (k b)"
  shows "P (on_enc code ld (ber_printf ma ber fmt args) k)"
proof -
  obtain rc b where "ber_printf ma ber fmt args = Some (rc, b)" "0 \<le> rc" "msg_at opt (e + j) w' b"
    using printf_msg [OF assms(1-4)] .
  then show ?thesis using assms(5) by (simp add: on_enc_def)
qed

lemma ctl_call_step:
  assumes "msg_at opt e w ber" and "w_run (opt_der opt) fmt args w LBER_DEFAULT = Some (w', j)"
    and "\<forall>n. ma n" and "e + j < 2 ^ 31"
    and "\<And>b. msg_at opt (e + j) w' b \<Longrightarrow> P (k b)"
  shows "P (ctl_call (ber_printf ma ber fmt args) k)"
proof -
  obtain rc b where "ber_printf ma ber fmt args = Some (rc, b)" "0 \<le> rc" "msg_at opt (e + j) w' b"
    using printf_msg [OF assms(1-4)] .
  then show ?thesis using assms(5) by (simp add: ctl_call_def)
qed

text \<open>A call under a condition writes the element or nothing.\<close>

lemma ctl_if_step:
  assumes "msg_at opt e w ber"
    and "cond \<Longrightarrow> w_run (opt_der opt) fmt args w LBER_DEFAULT = Some (w_put (concat (map (item_enc (opt_der opt)) its)) w, sum_list (map item_cost its))"
    and "\<not> cond \<Longrightarrow> its = []"
    and "\<forall>n. ma n" and "e + sum_list (map item_cost its) < 2 ^ 31"
    and "\<And>b. msg_at opt (e + sum_list (map item_cost its)) (w_put (concat (map (item_enc (opt_der opt)) its)) w) b \<Longrightarrow> P (k b)"
  shows "P (ctl_call (if_call cond ber (ber_printf ma ber fmt args)) k)"
proof (cases cond)
  case True
  have "P (ctl_call (ber_printf ma ber fmt args) k)"
    by (rule ctl_call_step [where P = P, OF assms(1) assms(2) [OF True] assms(4,5)]) (rule assms(6))
  then show ?thesis using True by (simp add: if_call_def)
next
  case False
  then show ?thesis using assms(1,3,6) by (simp add: if_call_def ctl_call_def)
qed

section \<open>Controls\<close>

lemma put_control_msg:
  assumes at: "msg_at opt e w ber" and ok: "item_ok (control_item c)" and mem: "\<forall>n. ma n"
    and small: "e + item_cost (control_item c) < 2 ^ 31"
  shows "\<exists>b. ldap_pvt_put_control ma c ber = Some (LDAP_SUCCESS, b)
           \<and> msg_at opt (e + item_cost (control_item c)) (w_put (item_enc (opt_der opt) (control_item c)) w) b"
proof -
  obtain cs vs where cs: "cs = (if ldctl_iscritical c then [BBool LBER_DEFAULT 1] else [])"
    and vs: "vs = opt_item LBER_DEFAULT (ldctl_value c)" by blast
  have I: "control_item c = BSeq LBER_DEFAULT (BStr (ldctl_oid c) # cs @ vs)" by (simp add: control_item_def cs vs)
  note ok' = ok [unfolded I] and small' = small [unfolded I]
  show ?thesis unfolding ldap_pvt_put_control_def I
    apply (rule ctl_call_step [OF at _ mem])
      apply (use ok' in \<open>simp add: format_run\<close>)
     apply (use small' in simp)
    apply (rule ctl_if_step [where its = cs, OF _ _ _ mem], assumption)
       apply (simp add: format_run cs)
      apply (simp add: cs)
     apply (use small' in simp)
    apply (rule ctl_if_step [where its = vs, OF _ _ _ mem], assumption)
       apply (use ok' in \<open>auto simp: format_run vs opt_item_def\<close>)[1]
      apply (simp add: vs opt_item_def)
     apply (use small' in simp)
    apply (rule ctl_call_step [OF _ _ mem], assumption)
      apply (simp add: format_run)
     apply (use small' in simp)
    apply (simp add: ac_simps tag_or_def)
    done
qed

lemma put_controls_loop_msg:
  assumes "msg_at opt e w ber" and "list_all (\<lambda>c. item_ok (control_item c)) cs" and mem: "\<forall>n. ma n"
    and "e + sum_list (map (item_cost \<circ> control_item) cs) < 2 ^ 31"
  shows "\<exists>b. put_controls_loop ma ld cs ber = Some (LDAP_SUCCESS, if cs = [] then ld else ld\<lparr>ld_errno := LDAP_SUCCESS\<rparr>, b)
           \<and> msg_at opt (e + sum_list (map (item_cost \<circ> control_item) cs))
               (w_put (concat (map (item_enc (opt_der opt) \<circ> control_item) cs)) w) b"
  using assms(1,2,4)
proof (induction cs arbitrary: e w ber ld)
  case (Cons c cs)
  obtain b1 where b1: "ldap_pvt_put_control ma c ber = Some (LDAP_SUCCESS, b1)"
      "msg_at opt (e + item_cost (control_item c)) (w_put (item_enc (opt_der opt) (control_item c)) w) b1"
    using put_control_msg [OF Cons.prems(1) _ mem, of c] Cons.prems(2,3) by auto
  have "(if cs = [] then ld\<lparr>ld_errno := LDAP_SUCCESS\<rparr> else ld\<lparr>ld_errno := LDAP_SUCCESS\<rparr>\<lparr>ld_errno := LDAP_SUCCESS\<rparr>)
      = ld\<lparr>ld_errno := LDAP_SUCCESS\<rparr>" by simp
  then show ?case using Cons.IH [OF b1(2), of "ld\<lparr>ld_errno := LDAP_SUCCESS\<rparr>"] b1(1) Cons.prems(2,3)
    by (simp only:) (simp add: add.assoc)
qed simp

text \<open>\<open>ld_errno\<close> is reset only where controls are written.\<close>

definition controls_handle :: "ldap_handle \<Rightarrow> ldapcontrol list option \<Rightarrow> ldap_handle" where
  "controls_handle ld ctrls = (if control_items ld ctrls = [] then ld else ld\<lparr>ld_errno := LDAP_SUCCESS\<rparr>)"

lemma put_controls_none: "server_controls ld ctrls = [] \<Longrightarrow> ldap_int_put_controls ma ld ctrls ber = Some (LDAP_SUCCESS, ld, ber)"
  unfolding ldap_int_put_controls_def server_controls_def
  by (cases "if ctrls = None then ld_sctrls ld else ctrls") simp_all

lemma put_controls_some:
  assumes "server_controls ld ctrls = c # cs"
  shows "ldap_int_put_controls ma ld ctrls ber = ldap_int_put_controls ma ld (Some (c # cs)) ber"
proof -
  have "(if ctrls = None then ld_sctrls ld else ctrls) = Some (c # cs)"
    using assms unfolding server_controls_def by (cases "if ctrls = None then ld_sctrls ld else ctrls") (simp_all only: option.case list.distinct)
  then show ?thesis by (simp add: ldap_int_put_controls_def)
qed

lemma put_controls_msg:
  assumes at: "msg_at opt e w ber" and ok: "list_all item_ok (control_items ld ctrls)" and mem: "\<forall>n. ma n"
    and c: "controls_ok ld ctrls" and small: "e + sum_list (map item_cost (control_items ld ctrls)) < 2 ^ 31"
  shows "\<exists>b. ldap_int_put_controls ma ld ctrls ber = Some (LDAP_SUCCESS, controls_handle ld ctrls, b)
           \<and> msg_at opt (e + sum_list (map item_cost (control_items ld ctrls)))
               (w_put (concat (map (item_enc (opt_der opt)) (control_items ld ctrls))) w) b"
proof (cases "control_items ld ctrls = []")
  case True
  then consider "server_controls ld ctrls = []" | "ld_version ld <s LDAP_VERSION3" "\<not> list_ex ldctl_iscritical (server_controls ld ctrls)"
    using c by (auto simp: control_items_def controls_ok_def split: if_splits)
  then have "ldap_int_put_controls ma ld ctrls ber = Some (LDAP_SUCCESS, ld, ber)"
  proof cases
    case 2
    then show ?thesis
      by (cases "server_controls ld ctrls") (simp_all add: put_controls_none put_controls_some, simp_all add: ldap_int_put_controls_def)
  qed (rule put_controls_none)
  then show ?thesis using at True by (simp add: controls_handle_def)
next
  case False
  obtain cs where cs: "server_controls ld ctrls = cs" by blast
  then have I: "control_items ld ctrls = [BSeq LDAP_TAG_CONTROLS (map control_item cs)]"
    and v: "\<not> ld_version ld <s LDAP_VERSION3" and ne: "cs \<noteq> []"
    using False by (auto simp: control_items_def split: if_splits)
  let ?n = "sum_list (map (item_cost \<circ> control_item) cs)"
  obtain rc1 b1 where b1: "ber_printf ma ber ''t{'' [PaTag LDAP_TAG_CONTROLS] = Some (rc1, b1)" "0 \<le> rc1"
      "msg_at opt (e + 4074) (w_open LDAP_TAG_CONTROLS w) b1"
    by (rule printf_msg [OF at open_run mem, of LDAP_TAG_CONTROLS]) (simp, use small I in simp_all)
  obtain b2 where b2: "put_controls_loop ma ld cs b1 = Some (LDAP_SUCCESS, ld\<lparr>ld_errno := LDAP_SUCCESS\<rparr>, b2)"
      "msg_at opt (e + 4074 + ?n) (w_put (concat (map (item_enc (opt_der opt) \<circ> control_item) cs)) (w_open LDAP_TAG_CONTROLS w)) b2"
    using put_controls_loop_msg [OF b1(3) _ mem, of cs ld] ok small ne by (auto simp: I list_all_iff add.assoc)
  obtain rc3 b3 where b3: "ber_printf ma b2 ''}'' [] = Some (rc3, b3)" "0 \<le> rc3"
      "msg_at opt (e + 4074 + ?n + 4061)
         (w_put (seq_tlv (opt_der opt) LDAP_TAG_CONTROLS (concat (map (item_enc (opt_der opt) \<circ> control_item) cs))) w) b3"
    by (rule printf_msg [OF b2(2) end_run mem]) (use small I in simp_all)
  have "ldap_int_put_controls ma ld ctrls ber = Some (LDAP_SUCCESS, ld\<lparr>ld_errno := LDAP_SUCCESS\<rparr>, b3)"
    using b1(1,2) b2(1) b3(1,2) v ne put_controls_some [of ld ctrls]
    by (cases cs) (simp_all add: cs ldap_int_put_controls_def [of _ _ "Some _"])
  then show ?thesis using b3(3) by (simp add: I controls_handle_def add.assoc tag_or_def)
qed

section \<open>Sending\<close>

text \<open>A message with the octets \<open>enc\<close> has been handed to the sender.\<close>

definition delivers ::
  "sender \<Rightarrow> ldap_handle \<Rightarrow> ber_tag_t \<Rightarrow> byte list option \<Rightarrow> ber_int_t \<Rightarrow> byte list \<Rightarrow> request_result \<Rightarrow> bool" where
  "delivers send ld tag dn i enc r \<longleftrightarrow> (\<exists>ber. r = sent send ld tag dn ber i \<and> at_writer ber (enc, []))"

lemma finish_request_delivers:
  assumes at: "msg_at opt e (w_put x (w_open LBER_SEQUENCE ([], []))) ber"
    and ok: "list_all item_ok (control_items ld ctrls)" and mem: "\<forall>n. ma n" and c: "controls_ok ld ctrls"
    and small: "e + sum_list (map item_cost (control_items ld ctrls)) + 4061 < 2 ^ 31"
  shows "delivers send (controls_handle ld ctrls) tag dn i
           (seq_tlv (opt_der opt) LBER_SEQUENCE (x @ concat (map (item_enc (opt_der opt)) (control_items ld ctrls))))
           (finish_request ma send ld ctrls tag dn i ber)"
proof -
  let ?n = "sum_list (map item_cost (control_items ld ctrls))"
  let ?y = "concat (map (item_enc (opt_der opt)) (control_items ld ctrls))"
  obtain b where b: "ldap_int_put_controls ma ld ctrls ber = Some (LDAP_SUCCESS, controls_handle ld ctrls, b)"
      "msg_at opt (e + ?n) (w_put (x @ ?y) (w_open LBER_SEQUENCE ([], []))) b"
    using put_controls_msg [OF at ok mem c] small by auto
  obtain rc b' where b': "ber_printf ma b ''N}'' [] = Some (rc, b')" "0 \<le> rc"
      "msg_at opt (e + ?n + 4061) (w_put (seq_tlv (opt_der opt) LBER_SEQUENCE (x @ ?y)) ([], [])) b'"
    by (rule printf_msg [OF b(2) close_run mem small])
  have "finish_request ma send ld ctrls tag dn i ber = sent send (controls_handle ld ctrls) tag dn b' i"
    using b(1) b'(1,2) by (simp add: finish_request_def on_enc_def sent_def)
  then show ?thesis using b'(3) by (auto simp: delivers_def msg_at_def)
qed

section \<open>The requests\<close>

text \<open>The message around an operation.\<close>

definition op_message :: "ldap_handle \<Rightarrow> ber_int_t \<Rightarrow> ber_item \<Rightarrow> ldapcontrol list option \<Rightarrow> ber_item" where
  "op_message ld i op ctrls = BSeq LBER_DEFAULT ([BInt LBER_DEFAULT i, op] @ control_items ld ctrls)"

lemma fresh_msg: "msg_at opt 0 ([], []) (ber_alloc_t opt)"
proof -
  have "at_writer (ber_alloc_t opt) ([], [])" by (simp add: at_writer_def) (simp add: ber_alloc_t_def)
  then show ?thesis by (simp add: msg_at_def) (simp add: ber_alloc_t_def)
qed

lemma client_controls_pass: "controls_ok ld ctrls \<Longrightarrow> check_client_controls ld None k = k ld"
  by (auto simp: controls_ok_def check_client_controls_def ldap_int_client_controls_def split: option.splits)

lemma new_message_some:
  "\<forall>n. ma n \<Longrightarrow> new_message ma ld k
     = k (ld\<lparr>ld_msgid := ld_msgid ld + 1\<rparr>) (ber_alloc_t (ld_lberoptions ld)) (ucast (ld_msgid ld + 1))"
  by (simp add: new_message_def ldap_alloc_ber_with_options_def LDAP_NEXT_MSGID_def)

lemma finish_op:
  assumes "msg_at opt e (w_put (item_enc (opt_der opt) (BInt LBER_DEFAULT i) @ item_enc (opt_der opt) op) (w_open LBER_SEQUENCE ([], []))) ber"
    and "e \<le> 8148 + item_cost op" and "item_ok (op_message ld i op ctrls)" and "\<forall>n. ma n" and "controls_ok ld ctrls"
    and "item_cost (op_message ld i op ctrls) < 2 ^ 31"
  shows "delivers send (controls_handle ld ctrls) tag dn i (item_enc (opt_der opt) (op_message ld i op ctrls))
           (finish_request ma send ld ctrls tag dn i ber)"
proof -
  have "delivers send (controls_handle ld ctrls) tag dn i
      (seq_tlv (opt_der opt) LBER_SEQUENCE ((item_enc (opt_der opt) (BInt LBER_DEFAULT i) @ item_enc (opt_der opt) op)
         @ concat (map (item_enc (opt_der opt)) (control_items ld ctrls))))
      (finish_request ma send ld ctrls tag dn i ber)"
    by (rule finish_request_delivers [OF assms(1) _ assms(4,5)]) (use assms(2,3,6) in \<open>simp_all add: op_message_def\<close>)
  then show ?thesis by (simp add: op_message_def tag_or_def)
qed

text \<open>Operations written by one call.\<close>

lemma single_call_delivers:
  assumes run: "\<And>w. w_run (opt_der opt) fmt args w LBER_DEFAULT
      = Some (w_put (item_enc (opt_der opt) (BInt LBER_DEFAULT i) @ item_enc (opt_der opt) op) (w_open LBER_SEQUENCE w), 8148 + item_cost op)"
    and ok: "item_ok (op_message ld i op ctrls)" and mem: "\<forall>n. ma n" and c: "controls_ok ld ctrls"
    and small: "item_cost (op_message ld i op ctrls) < 2 ^ 31"
  shows "delivers send (controls_handle ld ctrls) tag dn i (item_enc (opt_der opt) (op_message ld i op ctrls))
           (on_enc code ld (ber_printf ma (ber_alloc_t opt) fmt args) (finish_request ma send ld ctrls tag dn i))"
proof (rule on_enc_step [OF fresh_msg run mem])
  show "0 + (8148 + item_cost op) < 2 ^ 31" using small by (simp add: op_message_def)
  fix b assume "msg_at opt (0 + (8148 + item_cost op))
      (w_put (item_enc (opt_der opt) (BInt LBER_DEFAULT i) @ item_enc (opt_der opt) op) (w_open LBER_SEQUENCE ([], []))) b"
  then show "delivers send (controls_handle ld ctrls) tag dn i (item_enc (opt_der opt) (op_message ld i op ctrls))
      (finish_request ma send ld ctrls tag dn i b)"
    by (rule finish_op [OF _ _ ok mem c small]) simp
qed

lemma control_items_msgid [simp]:
  "control_items (ld\<lparr>ld_msgid := m\<rparr>) ctrls = control_items ld ctrls" "controls_ok (ld\<lparr>ld_msgid := m\<rparr>) ctrls = controls_ok ld ctrls"
  by (simp_all add: control_items_def server_controls_def controls_ok_def)

lemma op_message_msgid [simp]: "op_message (ld\<lparr>ld_msgid := m\<rparr>) i op ctrls = op_message ld i op ctrls"
  by (simp add: op_message_def)

definition next_id :: "ldap_handle \<Rightarrow> ber_int_t" where
  "next_id ld = ucast (ld_msgid ld + 1)"

definition deliverable :: "allocator \<Rightarrow> ldap_handle \<Rightarrow> ldap_request \<Rightarrow> ldapcontrol list option \<Rightarrow> bool" where
  "deliverable ma ld r ctrls \<longleftrightarrow>
     (\<forall>n. ma n) \<and> request_ok ld r \<and> controls_ok ld ctrls \<and> item_ok (request_message ld r ctrls) \<and> item_cost (request_message ld r ctrls) < 2 ^ 31"

abbreviation (input) request_delivered ::
  "allocator \<Rightarrow> sender \<Rightarrow> ldap_handle \<Rightarrow> ldap_request \<Rightarrow> ldapcontrol list option \<Rightarrow> request_result \<Rightarrow> bool" where
  "request_delivered ma send ld r ctrls res \<equiv>
     delivers send (request_handle ld ctrls) (request_tag r) (request_dn ld r) (next_id ld)
       (item_enc (opt_der (ld_lberoptions ld)) (request_message ld r ctrls)) res"

lemma deliverable_facts:
  assumes "deliverable ma ld r ctrls"
  shows "\<forall>n. ma n" "request_ok ld r" "controls_ok ld ctrls"
    "item_ok (op_message (ld\<lparr>ld_msgid := ld_msgid ld + 1\<rparr>) (next_id ld) (request_op ld r) ctrls)"
    "item_cost (op_message (ld\<lparr>ld_msgid := ld_msgid ld + 1\<rparr>) (next_id ld) (request_op ld r) ctrls) < 2 ^ 31"
  using assms by (simp_all add: deliverable_def request_message_def op_message_def next_id_def)

lemma request_delivers_single:
  assumes D: "deliverable ma ld r ctrls"
    and res: "res = on_enc code (ld\<lparr>ld_msgid := ld_msgid ld + 1\<rparr>) (ber_printf ma (ber_alloc_t (ld_lberoptions ld)) fmt args)
        (finish_request ma send (ld\<lparr>ld_msgid := ld_msgid ld + 1\<rparr>) ctrls (request_tag r) (request_dn ld r) (next_id ld))"
    and run: "\<And>w der. w_run der fmt args w LBER_DEFAULT
      = Some (w_put (item_enc der (BInt LBER_DEFAULT (next_id ld)) @ item_enc der (request_op ld r)) (w_open LBER_SEQUENCE w),
              8148 + item_cost (request_op ld r))"
  shows "request_delivered ma send ld r ctrls res"
proof -
  note f = deliverable_facts [OF D]
  have "delivers send (controls_handle (ld\<lparr>ld_msgid := ld_msgid ld + 1\<rparr>) ctrls) (request_tag r) (request_dn ld r) (next_id ld)
      (item_enc (opt_der (ld_lberoptions ld)) (op_message (ld\<lparr>ld_msgid := ld_msgid ld + 1\<rparr>) (next_id ld) (request_op ld r) ctrls)) res"
    unfolding res by (rule single_call_delivers [OF run f(4,1) _ f(5)]) (simp add: f(3))
  then show ?thesis
    by (simp add: request_handle_def controls_handle_def Let_def request_message_def op_message_def next_id_def)
qed

lemmas start_request = client_controls_pass new_message_some next_id_def [symmetric]

lemma compare_delivers:
  assumes "deliverable ma ld (RCompare dn a v) ctrls"
  shows "request_delivered ma send ld (RCompare dn a v) ctrls (ldap_compare_ext ma send ld dn a v ctrls None)"
  by (rule request_delivers_single [OF assms, where code = LDAP_ENCODING_ERROR and fmt = "''{it{s{sON}N}''"
        and args = "[PaInt (next_id ld), PaTag LDAP_REQ_COMPARE, PaString dn, PaString a, PaBerval v]"])
     (use deliverable_facts [OF assms] in \<open>cases v; simp add: ldap_compare_ext_def start_request format_run op_message_def bv_octets_def\<close>)+

lemma delete_delivers:
  assumes "deliverable ma ld (RDelete dn) ctrls"
  shows "request_delivered ma send ld (RDelete dn) ctrls (ldap_delete_ext ma send ld dn ctrls None)"
  by (rule request_delivers_single [OF assms, where code = LDAP_ENCODING_ERROR and fmt = "''{its''"
        and args = "[PaInt (next_id ld), PaTag LDAP_REQ_DELETE, PaString dn]"])
     (use deliverable_facts [OF assms] in \<open>simp_all add: ldap_delete_ext_def start_request format_run op_message_def\<close>)

lemma extended_delivers:
  assumes "deliverable ma ld (RExtended oid v) ctrls"
  shows "request_delivered ma send ld (RExtended oid v) ctrls (ldap_extended_operation ma send ld oid v ctrls)"
  by (rule request_delivers_single [OF assms, where code = LDAP_ENCODING_ERROR
        and fmt = "if v = None then ''{it{tsN}'' else ''{it{tstON}''"
        and args = "[PaInt (next_id ld), PaTag LDAP_REQ_EXTENDED, PaTag LDAP_TAG_EXOP_REQ_OID, PaString oid]
          @ (if v = None then [] else [PaTag LDAP_TAG_EXOP_REQ_VALUE, PaBerval v])"])
     (use deliverable_facts [OF assms] in
       \<open>cases v; simp add: ldap_extended_operation_def start_request format_run op_message_def opt_item_def\<close>)+

lemma bind_delivers:
  assumes "deliverable ma ld (RBind dn m cred) ctrls"
  shows "request_delivered ma send ld (RBind dn m cred) ctrls (ldap_sasl_bind ma send ld dn m cred ctrls None)"
proof (cases m)
  case None
  have d: "bind_dn (ld\<lparr>ld_msgid := n\<rparr>) dn m cred = bind_dn ld dn m cred" for n by (simp add: bind_dn_def)
  show ?thesis
    by (rule request_delivers_single [OF assms, where code = "-1" and fmt = "''{it{istON}''"
          and args = "[PaInt (next_id ld), PaTag LDAP_REQ_BIND, PaInt (ld_version ld), PaString (bind_dn ld dn m cred), PaTag LDAP_AUTH_SIMPLE,
             PaBerval (map_option bv_octets cred)]"])
       (use None deliverable_facts [OF assms] in \<open>cases cred; simp add: ldap_sasl_bind_def start_request format_run op_message_def
           opt_item_def auth_items_def d Let_def\<close>)+
next
  case (Some mech)
  let ?args = "[PaInt (next_id ld), PaTag LDAP_REQ_BIND, PaInt (ld_version ld), PaString (bind_dn ld dn m cred), PaTag LDAP_AUTH_SASL, PaString mech]"
  consider c where "cred = Some (Some c)" | "cred = None" | "cred = Some None" by (metis not_None_eq)
  then show ?thesis
  proof cases
    case 1
    show ?thesis
      by (rule request_delivers_single [OF assms, where code = "-1" and fmt = "''{it{ist{sON}N}''" and args = "?args @ [PaBerval (Some c)]"])
         (use 1 Some deliverable_facts [OF assms] in \<open>simp_all add: ldap_sasl_bind_def start_request format_run op_message_def auth_items_def Let_def\<close>)
  next
    case 2
    show ?thesis
      by (rule request_delivers_single [OF assms, where code = "-1" and fmt = "''{it{ist{sN}N}''" and args = ?args])
         (use 2 Some deliverable_facts [OF assms] in \<open>simp_all add: ldap_sasl_bind_def start_request format_run op_message_def auth_items_def Let_def\<close>)
  next
    case 3
    show ?thesis
      by (rule request_delivers_single [OF assms, where code = "-1" and fmt = "''{it{ist{sN}N}''" and args = ?args])
         (use 3 Some deliverable_facts [OF assms] in \<open>simp_all add: ldap_sasl_bind_def start_request format_run op_message_def auth_items_def Let_def\<close>)
  qed
qed

lemma negative_rc_printf:
  assumes "w_run (opt_der opt) fmt args ([], []) LBER_DEFAULT = Some (w', j)" and "\<forall>n. ma n" and "j < 2 ^ 31"
  shows "negative_rc (ber_printf ma (ber_alloc_t opt) fmt args) = ber_printf ma (ber_alloc_t opt) fmt args"
proof -
  obtain rc b where "ber_printf ma (ber_alloc_t opt) fmt args = Some (rc, b)" "0 \<le> rc"
    by (rule printf_msg [OF fresh_msg assms(1,2)]) (use assms(3) in simp_all)
  then show ?thesis by (simp add: negative_rc_def)
qed

lemma rename_delivers:
  assumes "deliverable ma ld (RRename dn rdn s d) ctrls"
  shows "request_delivered ma send ld (RRename dn rdn s d) ctrls (ldap_rename ma send ld dn rdn s d ctrls None)"
proof -
  let ?fmt = "if s = None then ''{it{ssbN}'' else ''{it{ssbtsN}''"
  let ?args = "[PaInt (next_id ld), PaTag LDAP_REQ_MODDN, PaString dn, PaString rdn, PaInt d]
     @ (if s = None then [] else [PaTag LDAP_TAG_NEWSUPERIOR, PaString (the s)])"
  let ?op = "request_op ld (RRename dn rdn s d)"
  note f = deliverable_facts [OF assms]
  have run: "w_run der ?fmt ?args w LBER_DEFAULT
      = Some (w_put (item_enc der (BInt LBER_DEFAULT (next_id ld)) @ item_enc der ?op) (w_open LBER_SEQUENCE w), 8148 + item_cost ?op)" for w der
    using f by (cases s; simp add: format_run op_message_def opt_item_def)
  have "8148 + item_cost ?op < 2 ^ 31" using f(5) by (simp add: op_message_def)
  then have "negative_rc (ber_printf ma (ber_alloc_t (ld_lberoptions ld)) ?fmt ?args) = ber_printf ma (ber_alloc_t (ld_lberoptions ld)) ?fmt ?args"
    by (rule negative_rc_printf [OF run f(1)])
  then have "ldap_rename ma send ld dn rdn s d ctrls None = on_enc LDAP_ENCODING_ERROR (ld\<lparr>ld_msgid := ld_msgid ld + 1\<rparr>)
      (ber_printf ma (ber_alloc_t (ld_lberoptions ld)) ?fmt ?args)
      (finish_request ma send (ld\<lparr>ld_msgid := ld_msgid ld + 1\<rparr>) ctrls LDAP_REQ_MODDN (Some dn) (next_id ld))"
    using f by (cases s; simp add: ldap_rename_def start_request)
  then show ?thesis by (intro request_delivers_single [OF assms _ run]) simp
qed

lemma unbind_delivers:
  assumes "deliverable ma ld RUnbind ctrls"
  shows "\<exists>res. request_delivered ma (unbind_sender flush) ld RUnbind ctrls res
           \<and> ldap_send_unbind ma flush ld ctrls = map_option (\<lambda>(rc, _, ld). (rc, ld)) res"
proof (intro exI conjI)
  let ?res = "on_enc LDAP_ENCODING_ERROR (ld\<lparr>ld_msgid := ld_msgid ld + 1\<rparr>)
      (ber_printf ma (ber_alloc_t (ld_lberoptions ld)) ''{itn'' [PaInt (next_id ld), PaTag LDAP_REQ_UNBIND])
      (finish_request ma (unbind_sender flush) (ld\<lparr>ld_msgid := ld_msgid ld + 1\<rparr>) ctrls LDAP_REQ_UNBIND None (next_id ld))"
  show "request_delivered ma (unbind_sender flush) ld RUnbind ctrls ?res"
    by (rule request_delivers_single [OF assms]) (simp, simp add: format_run)
  show "ldap_send_unbind ma flush ld ctrls = map_option (\<lambda>(rc, _, ld). (rc, ld)) ?res"
    using deliverable_facts [OF assms] by (simp add: ldap_send_unbind_def start_request unbind_sender_def)
qed

lemma abandon_delivers:
  assumes "deliverable ma ld (RAbandon m) ctrls"
  shows "\<exists>res. request_delivered ma (abandon_sender flush) ld (RAbandon m) ctrls res
           \<and> abandon_message ma flush ld m ctrls = map_option (\<lambda>(rc, _, ld). (if rc = LDAP_SUCCESS then 0 else -1, ld)) res"
proof (intro exI conjI)
  let ?res = "on_enc LDAP_ENCODING_ERROR (ld\<lparr>ld_msgid := ld_msgid ld + 1\<rparr>)
      (ber_printf ma (ber_alloc_t (ld_lberoptions ld)) ''{iti'' [PaInt (next_id ld), PaTag LDAP_REQ_ABANDON, PaInt m])
      (finish_request ma (abandon_sender flush) (ld\<lparr>ld_msgid := ld_msgid ld + 1\<rparr>) ctrls LDAP_REQ_ABANDON None (next_id ld))"
  show "request_delivered ma (abandon_sender flush) ld (RAbandon m) ctrls ?res"
    by (rule request_delivers_single [OF assms]) (simp, simp add: format_run)
  show "abandon_message ma flush ld m ctrls = map_option (\<lambda>(rc, _, ld). (if rc = LDAP_SUCCESS then 0 else -1, ld)) ?res"
    using deliverable_facts [OF assms] by (simp add: abandon_message_def start_request abandon_sender_def)
qed

text \<open>Operations with a list of attributes.\<close>

lemma start_run:
  "t \<noteq> LBER_DEFAULT \<Longrightarrow> length (c_string dn) < 2 ^ 64 \<Longrightarrow>
     w_run der ''{it{s{'' [PaInt i, PaTag t, PaString dn] w LBER_DEFAULT
       = Some (w_open LBER_SEQUENCE (w_put (item_enc der (BStr dn)) (w_open t (w_put (item_enc der (BInt LBER_DEFAULT i)) (w_open LBER_SEQUENCE w)))),
               24431 + length (c_string dn))"
  by (simp add: format_run)

lemma close2_run:
  "w_run der ''N}N}'' [] (w_put x (w_open t' (w_put y (w_open t w)))) LBER_DEFAULT
     = Some (w_put (seq_tlv der t (y @ seq_tlv der t' x)) w, 8122)"
  by (simp add: format_run)

definition values_item :: "byte list \<Rightarrow> byte list list \<Rightarrow> ber_item" where
  "values_item ty vs = BSeq LBER_DEFAULT [BStr ty, BSet LBER_DEFAULT (map (BOctets LBER_DEFAULT) vs)]"

lemma values_run:
  assumes "item_ok (values_item ty vs)"
  shows "w_run der ''{s[V]N}'' [PaString ty, PaBervals (Some vs)] w LBER_DEFAULT
      = Some (w_put (item_enc der (values_item ty vs)) w, item_cost (values_item ty vs))"
    and "vs = map c_string ss \<Longrightarrow> w_run der ''{s[v]N}'' [PaString ty, PaStrings (Some ss)] w LBER_DEFAULT
      = Some (w_put (item_enc der (values_item ty vs)) w, item_cost (values_item ty vs))"
  using assms by (simp_all add: values_item_def format_run list_all_iff w_each_def each_cost_def comp_def)

lemma mod_run:
  assumes "item_ok (BSeq LBER_DEFAULT [BEnum LBER_DEFAULT n, values_item ty vs])"
  shows "vs = (case bs of None \<Rightarrow> [] | Some l \<Rightarrow> l) \<Longrightarrow>
      w_run der ''{e{s[V]N}N}'' [PaInt n, PaString ty, PaBervals bs] w LBER_DEFAULT
        = Some (w_put (item_enc der (BSeq LBER_DEFAULT [BEnum LBER_DEFAULT n, values_item ty vs])) w,
                item_cost (BSeq LBER_DEFAULT [BEnum LBER_DEFAULT n, values_item ty vs]))"
    and "vs = (case ss of None \<Rightarrow> [] | Some l \<Rightarrow> map c_string l) \<Longrightarrow>
      w_run der ''{e{s[v]N}N}'' [PaInt n, PaString ty, PaStrings ss] w LBER_DEFAULT
        = Some (w_put (item_enc der (BSeq LBER_DEFAULT [BEnum LBER_DEFAULT n, values_item ty vs])) w,
                item_cost (BSeq LBER_DEFAULT [BEnum LBER_DEFAULT n, values_item ty vs]))"
  using assms by (cases bs; cases ss; simp add: values_item_def format_run list_all_iff w_each_def each_cost_def comp_def)+

lemma put_add_attrs_step:
  assumes "msg_at opt e w ber" and "list_all attr_ok atts" and "list_all item_ok (map attr_item atts)" and mem: "\<forall>n. ma n"
    and "e + sum_list (map (item_cost \<circ> attr_item) atts) < 2 ^ 31"
    and P: "\<And>b. msg_at opt (e + sum_list (map (item_cost \<circ> attr_item) atts))
          (w_put (concat (map (item_enc (opt_der opt) \<circ> attr_item) atts)) w) b \<Longrightarrow> P (k b)"
  shows "P (put_add_attrs ma ld atts k ber)"
  using assms(1,2,3,5) P
proof (induction atts arbitrary: e w ber)
  case (Cons a atts)
  have I: "attr_item a = values_item (mod_type a) (mod_octets a)" by (simp add: attr_item_def values_item_def)
  have next_step: "P (put_add_attrs ma ld atts k b)" if "msg_at opt (e + item_cost (attr_item a)) (w_put (item_enc (opt_der opt) (attr_item a)) w) b" for b
    by (rule Cons.IH [OF that]) (use Cons.prems in \<open>simp_all add: add.assoc\<close>)
  have small: "e + item_cost (attr_item a) < 2 ^ 31" using Cons.prems(4) by simp
  have ok: "item_ok (values_item (mod_type a) (mod_octets a))" using Cons.prems(3) by (simp add: I)
  show ?case
  proof (cases "mod_op a AND LDAP_MOD_BVALUES \<noteq> 0")
    case True
    then obtain bvs where bvs: "mod_bvalues a = Some bvs" "None \<notin> set bvs" using Cons.prems(2) by (auto simp: attr_ok_def)
    have "P (on_enc LDAP_ENCODING_ERROR ld (ber_printf ma ber ''{s[V]N}'' [PaString (mod_type a), PaBervals (Some (map bv_octets bvs))])
          (put_add_attrs ma ld atts k))"
      by (rule on_enc_step [where P = P, OF Cons.prems(1) values_run(1) mem])
         (use ok small next_step True bvs in \<open>simp_all add: I mod_octets_def\<close>)
    then show ?thesis using True bvs by simp
  next
    case False
    then obtain vs where vs: "mod_values a = Some vs" using Cons.prems(2) by (auto simp: attr_ok_def)
    have m: "mod_octets a = map c_string vs" using False vs by (simp add: mod_octets_def)
    have "P (on_enc LDAP_ENCODING_ERROR ld (ber_printf ma ber ''{s[v]N}'' [PaString (mod_type a), PaStrings (Some vs)])
          (put_add_attrs ma ld atts k))"
      by (rule on_enc_step [where P = P, OF Cons.prems(1) values_run(2) [OF ok m] mem]) (use small next_step in \<open>simp_all add: I\<close>)
    then show ?thesis using False vs by simp
  qed
qed simp

lemma put_mods_step:
  assumes "msg_at opt e w ber" and "list_all item_ok (map mod_item ms)" and mem: "\<forall>n. ma n"
    and "e + sum_list (map (item_cost \<circ> mod_item) ms) < 2 ^ 31"
    and P: "\<And>b. msg_at opt (e + sum_list (map (item_cost \<circ> mod_item) ms))
          (w_put (concat (map (item_enc (opt_der opt) \<circ> mod_item) ms)) w) b \<Longrightarrow> P (k b)"
  shows "P (put_mods ma ld ms k ber)"
  using assms(1,2,4) P
proof (induction ms arbitrary: e w ber)
  case (Cons m ms)
  have next_step: "P (put_mods ma ld ms k b)" if "msg_at opt (e + item_cost (mod_item m)) (w_put (item_enc (opt_der opt) (mod_item m)) w) b" for b
    by (rule Cons.IH [OF that]) (use Cons.prems in \<open>simp_all add: add.assoc\<close>)
  have small: "e + item_cost (mod_item m) < 2 ^ 31" using Cons.prems(3) by simp
  show ?case
  proof (cases "mod_op m AND LDAP_MOD_BVALUES \<noteq> 0")
    case True
    then have I: "mod_item m = BSeq LBER_DEFAULT [BEnum LBER_DEFAULT (mod_op m AND NOT LDAP_MOD_BVALUES), values_item (mod_type m) (mod_octets m)]"
      by (simp add: mod_item_def attr_item_def values_item_def)
    have o: "mod_octets m = (case map_option (map bv_octets) (mod_bvalues m) of None \<Rightarrow> [] | Some l \<Rightarrow> l)"
      using True by (cases "mod_bvalues m") (simp_all add: mod_octets_def)
    have ok: "item_ok (BSeq LBER_DEFAULT [BEnum LBER_DEFAULT (mod_op m AND NOT LDAP_MOD_BVALUES), values_item (mod_type m) (mod_octets m)])"
      using Cons.prems(2) I by simp
    have "P (on_enc LDAP_ENCODING_ERROR ld (ber_printf ma ber ''{e{s[V]N}N}''
        [PaInt (mod_op m AND NOT LDAP_MOD_BVALUES), PaString (mod_type m), PaBervals (map_option (map bv_octets) (mod_bvalues m))]) (put_mods ma ld ms k))"
      by (rule on_enc_step [where P = P, OF Cons.prems(1) mod_run(1) [OF ok o] mem]) (use small next_step in \<open>simp_all only: I\<close>)
    then show ?thesis using True by simp
  next
    case False
    then have I: "mod_item m = BSeq LBER_DEFAULT [BEnum LBER_DEFAULT (mod_op m), values_item (mod_type m) (mod_octets m)]"
      by (simp add: mod_item_def attr_item_def values_item_def)
    have o: "mod_octets m = (case mod_values m of None \<Rightarrow> [] | Some l \<Rightarrow> map c_string l)"
      using False by (simp add: mod_octets_def)
    have ok: "item_ok (BSeq LBER_DEFAULT [BEnum LBER_DEFAULT (mod_op m), values_item (mod_type m) (mod_octets m)])"
      using Cons.prems(2) I by simp
    have "P (on_enc LDAP_ENCODING_ERROR ld (ber_printf ma ber ''{e{s[v]N}N}''
        [PaInt (mod_op m), PaString (mod_type m), PaStrings (mod_values m)]) (put_mods ma ld ms k))"
      by (rule on_enc_step [where P = P, OF Cons.prems(1) mod_run(2) [OF ok o] mem]) (use small next_step in \<open>simp_all only: I\<close>)
    then show ?thesis using False by simp
  qed
qed simp

lemma listing_delivers:
  assumes D: "deliverable ma ld r ctrls" and t: "t \<noteq> LBER_DEFAULT"
    and op: "request_op ld r = BSeq t [BStr dn, BSeq LBER_DEFAULT its]"
    and body: "\<And>e w b P k. msg_at (ld_lberoptions ld) e w b \<Longrightarrow> e + sum_list (map item_cost its) < 2 ^ 31 \<Longrightarrow>
        (\<And>b. msg_at (ld_lberoptions ld) (e + sum_list (map item_cost its))
           (w_put (concat (map (item_enc (opt_der (ld_lberoptions ld))) its)) w) b \<Longrightarrow> P (k b)) \<Longrightarrow> P (body k b)"
    and res: "res = on_enc LDAP_ENCODING_ERROR ld'
        (ber_printf ma (ber_alloc_t (ld_lberoptions ld)) ''{it{s{'' [PaInt (next_id ld), PaTag t, PaString dn])
        (body (\<lambda>ber. on_enc LDAP_ENCODING_ERROR ld' (ber_printf ma ber ''N}N}'' [])
           (finish_request ma send ld' ctrls (request_tag r) (request_dn ld r) (next_id ld))))"
    and ld': "ld' = ld\<lparr>ld_msgid := ld_msgid ld + 1\<rparr>"
  shows "request_delivered ma send ld r ctrls res"
proof -
  note f = deliverable_facts [OF D, folded ld']
  let ?opt = "ld_lberoptions ld"
  let ?i = "next_id ld"
  let ?op = "request_op ld r"
  let ?Q = "delivers send (controls_handle ld' ctrls) (request_tag r) (request_dn ld r) ?i (item_enc (opt_der ?opt) (op_message ld' ?i ?op ctrls))"
  have dn: "length (c_string dn) < 2 ^ 64" using f(4) by (simp add: op_message_def op)
  have small: "24431 + length (c_string dn) + sum_list (map item_cost its) + 8122 < 2 ^ 31"
    using f(5) by (simp add: op_message_def op)
  have "?Q res" unfolding res
  proof (rule on_enc_step [where P = ?Q, OF fresh_msg start_run [OF t dn] f(1)])
    fix b assume b: "msg_at ?opt (0 + (24431 + length (c_string dn))) (w_open LBER_SEQUENCE (w_put (item_enc (opt_der ?opt) (BStr dn))
        (w_open t (w_put (item_enc (opt_der ?opt) (BInt LBER_DEFAULT ?i)) (w_open LBER_SEQUENCE ([], [])))))) b"
    show "?Q (body (\<lambda>ber. on_enc LDAP_ENCODING_ERROR ld' (ber_printf ma ber ''N}N}'' [])
           (finish_request ma send ld' ctrls (request_tag r) (request_dn ld r) ?i)) b)"
    proof (rule body [where P = ?Q, OF b])
      fix b' assume b': "msg_at ?opt (0 + (24431 + length (c_string dn)) + sum_list (map item_cost its))
        (w_put (concat (map (item_enc (opt_der ?opt)) its)) (w_open LBER_SEQUENCE (w_put (item_enc (opt_der ?opt) (BStr dn))
        (w_open t (w_put (item_enc (opt_der ?opt) (BInt LBER_DEFAULT ?i)) (w_open LBER_SEQUENCE ([], []))))))) b'"
      show "?Q (on_enc LDAP_ENCODING_ERROR ld' (ber_printf ma b' ''N}N}'' [])
           (finish_request ma send ld' ctrls (request_tag r) (request_dn ld r) ?i))"
      proof (rule on_enc_step [where P = ?Q, OF b' close2_run f(1)])
        fix b'' assume b'': "msg_at ?opt (0 + (24431 + length (c_string dn)) + sum_list (map item_cost its) + 8122)
          (w_put (seq_tlv (opt_der ?opt) t (item_enc (opt_der ?opt) (BStr dn) @ seq_tlv (opt_der ?opt) LBER_SEQUENCE
             (concat (map (item_enc (opt_der ?opt)) its)))) (w_put (item_enc (opt_der ?opt) (BInt LBER_DEFAULT ?i)) (w_open LBER_SEQUENCE ([], [])))) b''"
        have e: "0 + (24431 + length (c_string dn)) + sum_list (map item_cost its) + 8122 \<le> 8148 + item_cost ?op" by (simp add: op)
        show "?Q (finish_request ma send ld' ctrls (request_tag r) (request_dn ld r) ?i b'')"
          by (rule finish_op [OF _ e f(4,1) _ f(5)]) (use b'' t f(3) in \<open>simp_all add: op tag_or_def ld'\<close>)
      qed (use small in simp)
    qed (use small in simp)
  qed (use small in simp)
  then show ?thesis
    by (simp add: ld' request_handle_def controls_handle_def Let_def request_message_def op_message_def next_id_def)
qed

lemma add_delivers:
  assumes "deliverable ma ld (RAdd dn atts) ctrls"
  shows "request_delivered ma send ld (RAdd dn atts) ctrls (ldap_add_ext ma send ld dn atts ctrls None)"
proof (rule listing_delivers [OF assms, where t = LDAP_REQ_ADD and dn = dn and its = "map attr_item (or_nil atts)"
    and ld' = "ld\<lparr>ld_msgid := ld_msgid ld + 1\<rparr>"
    and body = "put_add_attrs ma (ld\<lparr>ld_msgid := ld_msgid ld + 1\<rparr>) (or_nil atts)"])
  note f = deliverable_facts [OF assms]
  have ok: "list_all attr_ok (or_nil atts)"
    "list_all item_ok (map attr_item (or_nil atts))"
    using f(2,4) by (simp_all add: op_message_def list_all_iff)
  fix e w b P and k :: "berelement \<Rightarrow> request_result"
  assume a: "msg_at (ld_lberoptions ld) e w b" "e + sum_list (map item_cost (map attr_item (or_nil atts))) < 2 ^ 31"
    "\<And>b. msg_at (ld_lberoptions ld) (e + sum_list (map item_cost (map attr_item (or_nil atts))))
       (w_put (concat (map (item_enc (opt_der (ld_lberoptions ld))) (map attr_item (or_nil atts)))) w) b \<Longrightarrow> P (k b)"
  show "P (put_add_attrs ma (ld\<lparr>ld_msgid := ld_msgid ld + 1\<rparr>) (or_nil atts) k b)"
    by (rule put_add_attrs_step [OF a(1) ok f(1)]) (use a(2,3) in \<open>simp_all\<close>)
next
  show "ldap_add_ext ma send ld dn atts ctrls None = on_enc LDAP_ENCODING_ERROR (ld\<lparr>ld_msgid := ld_msgid ld + 1\<rparr>)
     (ber_printf ma (ber_alloc_t (ld_lberoptions ld)) ''{it{s{'' [PaInt (next_id ld), PaTag LDAP_REQ_ADD, PaString dn])
     (put_add_attrs ma (ld\<lparr>ld_msgid := ld_msgid ld + 1\<rparr>) (or_nil atts)
       (\<lambda>ber. on_enc LDAP_ENCODING_ERROR (ld\<lparr>ld_msgid := ld_msgid ld + 1\<rparr>) (ber_printf ma ber ''N}N}'' [])
           (finish_request ma send (ld\<lparr>ld_msgid := ld_msgid ld + 1\<rparr>) ctrls (request_tag (RAdd dn atts)) (request_dn ld (RAdd dn atts)) (next_id ld))))"
    using deliverable_facts [OF assms] by (simp add: ldap_add_ext_def start_request)
qed simp_all

lemma modify_delivers:
  assumes "deliverable ma ld (RModify dn ms) ctrls"
  shows "request_delivered ma send ld (RModify dn ms) ctrls (ldap_modify_ext ma send ld dn ms ctrls None)"
proof (rule listing_delivers [OF assms, where t = LDAP_REQ_MODIFY and dn = dn and its = "map mod_item (or_nil ms)"
    and ld' = "ld\<lparr>ld_msgid := ld_msgid ld + 1\<rparr>" and body = "put_mods ma (ld\<lparr>ld_msgid := ld_msgid ld + 1\<rparr>) (or_nil ms)"])
  note f = deliverable_facts [OF assms]
  have ok: "list_all item_ok (map mod_item (or_nil ms))" using f(4) by (simp add: op_message_def)
  fix e w b P and k :: "berelement \<Rightarrow> request_result"
  assume a: "msg_at (ld_lberoptions ld) e w b" "e + sum_list (map item_cost (map mod_item (or_nil ms))) < 2 ^ 31"
    "\<And>b. msg_at (ld_lberoptions ld) (e + sum_list (map item_cost (map mod_item (or_nil ms))))
       (w_put (concat (map (item_enc (opt_der (ld_lberoptions ld))) (map mod_item (or_nil ms)))) w) b \<Longrightarrow> P (k b)"
  show "P (put_mods ma (ld\<lparr>ld_msgid := ld_msgid ld + 1\<rparr>) (or_nil ms) k b)"
    by (rule put_mods_step [OF a(1) ok f(1)]) (use a(2,3) in \<open>simp_all\<close>)
next
  show "ldap_modify_ext ma send ld dn ms ctrls None = on_enc LDAP_ENCODING_ERROR (ld\<lparr>ld_msgid := ld_msgid ld + 1\<rparr>)
     (ber_printf ma (ber_alloc_t (ld_lberoptions ld)) ''{it{s{'' [PaInt (next_id ld), PaTag LDAP_REQ_MODIFY, PaString dn])
     (put_mods ma (ld\<lparr>ld_msgid := ld_msgid ld + 1\<rparr>) (or_nil ms)
       (\<lambda>ber. on_enc LDAP_ENCODING_ERROR (ld\<lparr>ld_msgid := ld_msgid ld + 1\<rparr>) (ber_printf ma ber ''N}N}'' [])
           (finish_request ma send (ld\<lparr>ld_msgid := ld_msgid ld + 1\<rparr>) ctrls (request_tag (RModify dn ms)) (request_dn ld (RModify dn ms)) (next_id ld))))"
    using deliverable_facts [OF assms] by (simp add: ldap_modify_ext_def start_request)
qed simp_all

text \<open>Search.\<close>

lemma search_filter_text:
  "(case map_option filter_text f of None \<Rightarrow> default_filter | Some f \<Rightarrow> f) = filter_text (search_filter f)"
  by (cases f) (simp_all add: search_filter_def default_filter_def filter_text_def objectclass_def)

lemma or_default_minus: "or_default (-1) d = d"
  by (simp add: or_default_def word_sless_alt)

definition search_head :: "ldap_handle \<Rightarrow> byte list option \<Rightarrow> ber_int_t \<Rightarrow> ber_int_t \<Rightarrow> (int \<times> int) option \<Rightarrow> ber_int_t \<Rightarrow> ber_item list" where
  "search_head ld base scope ao timeout sz =
     [BStr (bv_octets (if base = None then ldo_defbase ld else base)), BEnum LBER_DEFAULT scope,
      BEnum LBER_DEFAULT (ld_deref ld), BInt LBER_DEFAULT (or_default sz (ld_sizelimit ld)),
      BInt LBER_DEFAULT (or_default (time_limit timeout) (ld_timelimit ld)), BBool LBER_DEFAULT ao]"

definition attrs_item :: "byte list list option \<Rightarrow> ber_item" where
  "attrs_item attrs = BSeq LBER_DEFAULT (map BStr (or_nil attrs))"

lemma search_op:
  "request_op ld (RSearch base scope f attrs ao timeout sz)
     = BSeq LDAP_REQ_SEARCH (search_head ld base scope ao timeout sz @ [filter_ber (search_filter f), attrs_item attrs])"
  by (simp add: search_head_def attrs_item_def)

lemma search_head_run:
  assumes "list_all item_ok (search_head ld base scope ao timeout sz)"
  shows "w_run der ''{it{seeiib'' [PaInt i, PaTag LDAP_REQ_SEARCH, PaString (bv_octets (if base = None then ldo_defbase ld else base)),
      PaInt scope, PaInt (ld_deref ld), PaInt (or_default sz (ld_sizelimit ld)), PaInt (or_default (time_limit timeout) (ld_timelimit ld)), PaInt ao] w LBER_DEFAULT
    = Some (w_put (concat (map (item_enc der) (search_head ld base scope ao timeout sz)))
        (w_open LDAP_REQ_SEARCH (w_put (item_enc der (BInt LBER_DEFAULT i)) (w_open LBER_SEQUENCE w))),
        12222 + sum_list (map item_cost (search_head ld base scope ao timeout sz)))"
  using assms by (simp add: search_head_def format_run)

lemma search_tail_run:
  assumes "item_ok (attrs_item attrs)"
  shows "w_run der ''{v}N}'' [PaStrings attrs] (w_put x (w_open t w)) LBER_DEFAULT
    = Some (w_put (seq_tlv der t (x @ item_enc der (attrs_item attrs))) w, item_cost (attrs_item attrs) + 4061)"
  using assms by (cases attrs; simp add: attrs_item_def format_run list_all_iff w_each_def each_cost_def comp_def)

lemma build_search_req:
  assumes "deliverable ma ld (RSearch base scope f attrs ao timeout sz) ctrls"
  shows "\<exists>ber. ldap_build_search_req ma ld base scope (map_option filter_text f) attrs ao ctrls (time_limit timeout) sz (-1)
             = Some (Some (ber, next_id ld), request_handle ld ctrls)
           \<and> at_writer ber (item_enc (opt_der (ld_lberoptions ld)) (request_message ld (RSearch base scope f attrs ao timeout sz) ctrls), [])"
proof -
  note F = deliverable_facts [OF assms]
  let ?opt = "ld_lberoptions ld" and ?i = "next_id ld" and ?ld = "ld\<lparr>ld_msgid := ld_msgid ld + 1\<rparr>"
  let ?hd = "search_head ld base scope ao timeout sz" and ?f = "filter_ber (search_filter f)" and ?a = "attrs_item attrs"
  let ?enc = "item_enc (opt_der ?opt)" and ?cs = "control_items ld ctrls"
  let ?W = "w_put (?enc (BInt LBER_DEFAULT ?i)) (w_open LBER_SEQUENCE ([], []))"
  let ?h = "concat (map ?enc ?hd)"
  have ok: "list_all item_ok ?hd" "item_ok ?f" "item_ok ?a" "list_all item_ok ?cs" "filter_ok (search_filter f)" and mem: "\<forall>n. ma n"
    using F(1,2,4) unfolding search_op by (simp_all add: op_message_def)
  have small: "12222 + sum_list (map item_cost ?hd) + item_cost ?f + (item_cost ?a + 4061) + sum_list (map item_cost ?cs) + 4061 < 2 ^ 31"
    using F(5) unfolding search_op by (simp add: op_message_def)
  obtain rc1 b1 where b1: "ber_printf ma (ber_alloc_t ?opt) ''{it{seeiib'' [PaInt ?i, PaTag LDAP_REQ_SEARCH,
        PaString (bv_octets (if base = None then ldo_defbase ld else base)), PaInt scope, PaInt (ld_deref ld), PaInt (or_default sz (ld_sizelimit ld)),
        PaInt (or_default (time_limit timeout) (ld_timelimit ld)), PaInt ao] = Some (rc1, b1)" "0 \<le> rc1"
      "msg_at ?opt (0 + (12222 + sum_list (map item_cost ?hd))) (w_put ?h (w_open LDAP_REQ_SEARCH ?W)) b1"
    by (rule printf_msg [OF fresh_msg search_head_run [OF ok(1)] mem]) (use small in simp_all)
  have "leaves ma (item_cost ?f) b1 (w_put (item_enc (ber_der b1) ?f) (w_put ?h (w_open LDAP_REQ_SEARCH ?W)))
      (ldap_pvt_put_filter ma b1 (filter_text (search_filter f)))"
    using put_filter_item [OF ok(5,2) mem] b1(3) unfolding writes_item_def msg_at_def by blast
  moreover have "ber_der b1 = opt_der ?opt" using b1(3) by (simp add: msg_at_def ber_der_def)
  ultimately have "leaves ma (item_cost ?f) b1 (w_put (?h @ ?enc ?f) (w_open LDAP_REQ_SEARCH ?W)) (ldap_pvt_put_filter ma b1 (filter_text (search_filter f)))"
    by simp
  then obtain rc2 b2 where b2: "ldap_pvt_put_filter ma b1 (filter_text (search_filter f)) = Some (rc2, b2)" "0 \<le> rc2"
      "msg_at ?opt (0 + (12222 + sum_list (map item_cost ?hd)) + item_cost ?f) (w_put (?h @ ?enc ?f) (w_open LDAP_REQ_SEARCH ?W)) b2"
    by (rule leaves_msg [OF _ b1(3) mem]) (use small in simp_all)
  obtain rc3 b3 where b3: "ber_printf ma b2 ''{v}N}'' [PaStrings attrs] = Some (rc3, b3)" "0 \<le> rc3"
      "msg_at ?opt (0 + (12222 + sum_list (map item_cost ?hd)) + item_cost ?f + (item_cost ?a + 4061))
         (w_put (seq_tlv (opt_der ?opt) LDAP_REQ_SEARCH ((?h @ ?enc ?f) @ ?enc ?a)) ?W) b3"
    by (rule printf_msg [OF b2(3) search_tail_run [OF ok(3)] mem]) (use small in simp_all)
  let ?x = "?enc (BInt LBER_DEFAULT ?i) @ seq_tlv (opt_der ?opt) LDAP_REQ_SEARCH ((?h @ ?enc ?f) @ ?enc ?a)"
  have at3: "msg_at ?opt (12222 + sum_list (map item_cost ?hd) + item_cost ?f + (item_cost ?a + 4061)) (w_put ?x (w_open LBER_SEQUENCE ([], []))) b3"
    using b3(3) by (simp only: w_put_put add_0)
  have ok4: "list_all item_ok (control_items ?ld ctrls)" and c4: "controls_ok ?ld ctrls" using ok(4) F(3) by simp_all
  have small4: "12222 + sum_list (map item_cost ?hd) + item_cost ?f + (item_cost ?a + 4061) + sum_list (map item_cost (control_items ?ld ctrls)) < 2 ^ 31"
    using small by simp
  obtain b4 where b4: "ldap_int_put_controls ma ?ld ctrls b3 = Some (LDAP_SUCCESS, controls_handle ?ld ctrls, b4)"
      "msg_at ?opt (12222 + sum_list (map item_cost ?hd) + item_cost ?f + (item_cost ?a + 4061) + sum_list (map item_cost ?cs))
         (w_put (?x @ concat (map ?enc ?cs)) (w_open LBER_SEQUENCE ([], []))) b4"
    using put_controls_msg [OF at3 ok4 mem c4 small4] unfolding control_items_msgid w_put_put by blast
  obtain rc5 b5 where b5: "ber_printf ma b4 ''N}'' [] = Some (rc5, b5)" "0 \<le> rc5"
      "msg_at ?opt (12222 + sum_list (map item_cost ?hd) + item_cost ?f + (item_cost ?a + 4061) + sum_list (map item_cost ?cs) + 4061)
         (w_put (seq_tlv (opt_der ?opt) LBER_SEQUENCE (?x @ concat (map ?enc ?cs))) ([], [])) b5"
    by (rule printf_msg [OF b4(2) close_run mem small])
  have base: "(if base = None then ldo_defbase ?ld else base) = (if base = None then ldo_defbase ld else base)" by simp
  have h: "controls_handle ?ld ctrls = request_handle ld ctrls" by (simp add: controls_handle_def request_handle_def Let_def)
  have "ldap_build_search_req ma ld base scope (map_option filter_text f) attrs ao ctrls (time_limit timeout) sz (-1)
      = Some (Some (b5, ?i), request_handle ld ctrls)"
    using b1(1,2) b2(1,2) b3(1,2) b4(1) b5(1,2) mem
    by (simp add: ldap_build_search_req_def ldap_alloc_ber_with_options_def LDAP_NEXT_MSGID_def next_id_def [symmetric]
        Let_def search_filter_text or_default_minus h base del: case_map_option split del: if_split)
  moreover have "at_writer b5 (item_enc (opt_der ?opt) (request_message ld (RSearch base scope f attrs ao timeout sz) ctrls), [])"
    using b5(3) unfolding request_message_def search_op msg_at_def by (simp add: next_id_def tag_or_def)
  ultimately show ?thesis by blast
qed

lemma search_delivers:
  assumes "deliverable ma ld (RSearch base scope f attrs ao timeout sz) ctrls"
  shows "request_delivered ma send ld (RSearch base scope f attrs ao timeout sz) ctrls
           (ldap_search_ext ma send ld base scope (map_option filter_text f) attrs ao ctrls None timeout sz)"
proof -
  note F = deliverable_facts [OF assms]
  obtain ber where ber: "ldap_build_search_req ma ld base scope (map_option filter_text f) attrs ao ctrls (time_limit timeout) sz (-1)
       = Some (Some (ber, next_id ld), request_handle ld ctrls)"
    and at: "at_writer ber (item_enc (opt_der (ld_lberoptions ld)) (request_message ld (RSearch base scope f attrs ao timeout sz) ctrls), [])"
    using build_search_req [OF assms] by blast
  have "timeout \<noteq> Some (0, 0)" using F(2) by simp
  then have "ldap_search_ext ma send ld base scope (map_option filter_text f) attrs ao ctrls None timeout sz
      = sent send (request_handle ld ctrls) LDAP_REQ_SEARCH base ber (next_id ld)"
    using ber F(3) by (simp add: ldap_search_ext_def ldap_pvt_search_def client_controls_pass time_limit_def sent_def)
  then show ?thesis using at unfolding delivers_def by auto
qed

section \<open>Properties\<close>

text \<open>
  C38: requests reach the wire as RFC 4511 defines them.  Bind, search, compare, add, modify, delete, rename, extended,
  unbind and abandon take the next message id and hand to the sender, once, an element that holds exactly the encoding of the
  message: the id, the operation with the defaults of the session filled in, and the server controls (given or session
  default).  Their return value is \<^verbatim>\<open>ld_errno\<close> when the sender fails, and success otherwise.  The request has every part that
  the RFC makes mandatory (\<open>request_ok\<close>), and no critical control stands in the way (\<open>controls_ok\<close>).
\<close>

theorem request_encodes:
  assumes ok: "request_ok ld r" and ctrls: "controls_ok ld ctrls" and mem: "\<forall>n. ma n"
    and size: "item_ok (request_message ld r ctrls)" and small: "item_cost (request_message ld r ctrls) < 2 ^ 31"
  shows "\<exists>ber. issue ma send flush ld r ctrls
             = outcome r (sent (sender_of send flush r) (request_handle ld ctrls) (request_tag r) (request_dn ld r) ber (next_id ld))
           \<and> ber_flatten2 ma (Some ber) True
             = Inr (0, item_enc (ld_lberoptions ld AND LBER_USE_DER \<noteq> 0) (request_message ld r ctrls), Some ber)"
proof -
  have D: "deliverable ma ld r ctrls" using assms by (simp add: deliverable_def)
  have flat: "ber_flatten2 ma (Some ber) True = Inr (0, x, Some ber)" if "at_writer ber (x, [])" for ber x
    using that mem by (auto simp: at_writer_def ber_writes_def ber_written_def ber_wcur_def ber_flatten2_def ber_pvt_ber_write_def)
  have "\<exists>res. request_delivered ma (sender_of send flush r) ld r ctrls res \<and> issue ma send flush ld r ctrls = outcome r res"
  proof (cases r)
    case RUnbind
    then show ?thesis using D unbind_delivers [of ma ld ctrls flush] by (auto simp: option.map_comp comp_def split_def)
  next
    case (RAbandon m)
    then show ?thesis using D abandon_delivers [of ma ld m ctrls flush] by (auto simp: option.map_comp comp_def split_def)
  qed (use D in \<open>simp_all add: bind_delivers [simplified] search_delivers [simplified] compare_delivers [simplified]
         add_delivers [simplified] modify_delivers [simplified] delete_delivers [simplified] rename_delivers [simplified]
         extended_delivers [simplified]\<close>)
  then show ?thesis unfolding delivers_def using flat by blast
qed

theorem request_encodes_witness:
  "\<exists>ber. issue (\<lambda>_. True) (\<lambda>ld tag dn ber i. (i, ld)) (\<lambda>_. 0)
       \<lparr>ld_errno = 1, ld_msgid = 6, ld_version = 3, ld_lberoptions = LBER_USE_DER, ld_deref = 0, ld_sizelimit = 0, ld_timelimit = 9,
        ldo_defbase = None, ld_defbinddn = None, ld_sctrls = None, ld_cctrls = None\<rparr>
       (RSearch (Some [0x6f]) 2 (Some (FilterPresent [0x63, 0x6e])) (Some [[0x73]]) 0 None 5)
       (Some [\<lparr>ldctl_oid = [0x31], ldctl_value = None, ldctl_iscritical = True\<rparr>])
     = Some (0, Some 7, \<lparr>ld_errno = 0, ld_msgid = 7, ld_version = 3, ld_lberoptions = LBER_USE_DER, ld_deref = 0, ld_sizelimit = 0,
        ld_timelimit = 9, ldo_defbase = None, ld_defbinddn = None, ld_sctrls = None, ld_cctrls = None\<rparr>)
   \<and> ber_flatten2 (\<lambda>_. True) (Some ber) True
     = Inr (0, item_enc True (BSeq LBER_DEFAULT [BInt LBER_DEFAULT 7,
         BSeq LDAP_REQ_SEARCH [BOctets LBER_DEFAULT [0x6f], BEnum LBER_DEFAULT 2, BEnum LBER_DEFAULT 0, BInt LBER_DEFAULT 5,
           BInt LBER_DEFAULT 9, BBool LBER_DEFAULT 0, BOctets LDAP_FILTER_PRESENT [0x63, 0x6e],
           BSeq LBER_DEFAULT [BOctets LBER_DEFAULT [0x73]]],
         BSeq LDAP_TAG_CONTROLS [BSeq LBER_DEFAULT [BOctets LBER_DEFAULT [0x31], BBool LBER_DEFAULT 1]]]), Some ber)"
proof -
  let ?ld = "\<lparr>ld_errno = 1, ld_msgid = 6, ld_version = 3, ld_lberoptions = LBER_USE_DER, ld_deref = 0, ld_sizelimit = 0, ld_timelimit = 9,
        ldo_defbase = None, ld_defbinddn = None, ld_sctrls = None, ld_cctrls = None\<rparr>"
  let ?r = "RSearch (Some [0x6f]) 2 (Some (FilterPresent [0x63, 0x6e])) (Some [[0x73]]) 0 None 5"
  let ?cs = "Some [\<lparr>ldctl_oid = [0x31], ldctl_value = None, ldctl_iscritical = True\<rparr>]"
  have d: "ldap_is_desc [0x63, 0x6e]" by code_simp
  have v: "\<not> (3 :: ber_int_t) <s 3" "\<not> (5 :: ber_int_t) <s 0" "(-1 :: ber_int_t) <s 0" "\<not> (7 :: ber_int_t) <s 0"
    by (simp_all add: word_sless_alt)
  have i: "next_id ?ld = 7" by (simp add: next_id_def)
  have m: "request_message ?ld ?r ?cs = BSeq LBER_DEFAULT [BInt LBER_DEFAULT 7,
         BSeq LDAP_REQ_SEARCH [BOctets LBER_DEFAULT [0x6f], BEnum LBER_DEFAULT 2, BEnum LBER_DEFAULT 0, BInt LBER_DEFAULT 5,
           BInt LBER_DEFAULT 9, BBool LBER_DEFAULT 0, BOctets LDAP_FILTER_PRESENT [0x63, 0x6e],
           BSeq LBER_DEFAULT [BOctets LBER_DEFAULT [0x73]]],
         BSeq LDAP_TAG_CONTROLS [BSeq LBER_DEFAULT [BOctets LBER_DEFAULT [0x31], BBool LBER_DEFAULT 1]]]"
    using v by (simp add: request_message_def control_items_def server_controls_def control_item_def opt_item_def bv_octets_def
        or_default_def time_limit_def search_filter_def c_string_def)
  have h: "request_handle ?ld ?cs = \<lparr>ld_errno = 0, ld_msgid = 7, ld_version = 3, ld_lberoptions = LBER_USE_DER, ld_deref = 0, ld_sizelimit = 0,
        ld_timelimit = 9, ldo_defbase = None, ld_defbinddn = None, ld_sctrls = None, ld_cctrls = None\<rparr>"
    using v by (simp add: request_handle_def control_items_def server_controls_def)
  have ok: "request_ok ?ld ?r" "controls_ok ?ld ?cs" using d v by (simp_all add: controls_ok_def search_filter_def)
  show ?thesis
    using request_encodes [OF ok, of "\<lambda>_. True" "\<lambda>ld tag dn ber i. (i, ld)" "\<lambda>_. 0"] v
    unfolding m h i sent_def by simp
qed

end
