(* ===== verification/Utf8_Code.thy ===== *)
theory Utf8_Code
  imports Utf8
begin

text \<open>
  The coder of \<^verbatim>\<open>ldap_x_ucs4_to_utf8\<close> and the decoder of \<^verbatim>\<open>ldap_x_utf8_to_ucs4\<close>: they are inverse to
  each other, and the decoder accepts exactly the shortest encodings.
\<close>

section \<open>Octets\<close>

lemma all_bytesI:
  assumes "\<forall>n\<in>set [0..<256]. P (word_of_nat n :: byte)"
  shows "P b"
proof -
  have "unat b \<in> set [0..<256]" using unat_byte_less [of b] by simp
  with assms have "P (word_of_nat (unat b))" by blast
  then show ?thesis by simp
qed

definition lead_len :: "nat \<Rightarrow> nat" where
  "lead_len b = (if b < 0x80 then 1 else if b < 0xc2 then 0 else if b < 0xe0 then 2
     else if b < 0xf0 then 3 else if b < 0xf8 then 4 else if b < 0xfc then 5 else if b < 0xfe then 6 else 0)"

lemma lentab_lead_len:
  "(if b AND 0x80 = 0 then 1 else ldap_utf8_lentab ! unat (b XOR 0x80)) = lead_len (unat (b :: byte))"
  by (rule all_bytesI [of _ b]) code_simp

lemma charlen_lead: "LDAP_UTF8_CHARLEN p = lead_len (unat (octet_at p 0))"
  using lentab_lead_len by (simp add: LDAP_UTF8_CHARLEN_def LDAP_UTF8_ISASCII_def)

lemma ascii_iff: "(b :: byte) AND 0x80 = 0 \<longleftrightarrow> unat b < 0x80"
  by (rule all_bytesI [of _ b]) code_simp

lemma continuation_iff: "(b :: byte) AND 0xc0 = 0x80 \<longleftrightarrow> 0x80 \<le> unat b \<and> unat b < 0xc0"
  by (rule all_bytesI [of _ b]) code_simp

lemma mintab_ok:
  assumes "octet_at p 1 AND 0xc0 = 0x80" and "3 \<le> lead_len (unat (octet_at p 0))"
  shows "ldap_utf8_mintab ! unat (octet_at p 0 AND 0x1f) AND octet_at p 1 \<noteq> 0 \<longleftrightarrow>
     (unat (octet_at p 0) = 0xe0 \<longrightarrow> 0xa0 \<le> unat (octet_at p 1)) \<and>
     (unat (octet_at p 0) = 0xf0 \<longrightarrow> 0x90 \<le> unat (octet_at p 1)) \<and>
     (unat (octet_at p 0) = 0xf8 \<longrightarrow> 0x88 \<le> unat (octet_at p 1)) \<and>
     (unat (octet_at p 0) = 0xfc \<longrightarrow> 0x84 \<le> unat (octet_at p 1))"
proof -
  define a b where "a = octet_at p 0" and "b = octet_at p 1"
  have tab: "3 \<le> lead_len (unat a) \<longrightarrow> ldap_utf8_mintab ! unat (a AND 0x1f) =
      (if unat a = 0xe0 then 0x20 else if unat a = 0xf0 then 0x30 else if unat a = 0xf8 then 0x38
       else if unat a = 0xfc then 0x3c else 0x80)"
    by (rule all_bytesI [of _ a]) code_simp
  have bits: "b AND 0xc0 = 0x80 \<longrightarrow> 0x80 AND b \<noteq> 0 \<and> (0x20 AND b \<noteq> 0 \<longleftrightarrow> 0xa0 \<le> unat b)
      \<and> (0x30 AND b \<noteq> 0 \<longleftrightarrow> 0x90 \<le> unat b) \<and> (0x38 AND b \<noteq> 0 \<longleftrightarrow> 0x88 \<le> unat b)
      \<and> (0x3c AND b \<noteq> 0 \<longleftrightarrow> 0x84 \<le> unat b)"
    by (rule all_bytesI [of _ b]) code_simp
  have "b AND 0xc0 = 0x80" "3 \<le> lead_len (unat a)" using assms by (simp_all add: a_def b_def)
  then show ?thesis unfolding a_def [symmetric] b_def [symmetric] using tab bits by auto
qed

lemma and_3f: "uint ((b :: byte) AND 0x3f) = uint b mod 64"
  by (rule all_bytesI [of _ b]) code_simp

definition lead_base :: "nat \<Rightarrow> int" where
  "lead_base l = (if l \<le> 1 then 0 else if l = 2 then 0xc0 else if l = 3 then 0xe0
     else if l = 4 then 0xf0 else if l = 5 then 0xf8 else 0xfc)"

lemma lead_bits:
  "lead_len (unat (b :: byte)) \<noteq> 0 \<longrightarrow>
     uint (b AND utf8_mask ! lead_len (unat b)) = uint b - lead_base (lead_len (unat b))"
  by (rule all_bytesI [of _ b]) code_simp

section \<open>The coder in arithmetic\<close>

lemma or_add_disjoint:
  fixes a x :: int
  assumes "2 ^ n dvd a" and "0 \<le> x" and "x < 2 ^ n"
  shows "a OR x = a + x"
proof -
  from assms(1) obtain k where a: "a = push_bit n k" by (auto simp: push_bit_eq_mult dvd_def mult.commute)
  have x: "x = take_bit n x" using assms by (simp add: take_bit_int_eq_self)
  have "\<not> bit a i \<or> \<not> bit x i" for i
    unfolding a by (subst x) (auto simp: bit_push_bit_iff bit_take_bit_iff)
  then show ?thesis by (simp add: disjunctive_add)
qed

lemma and_63: "(x :: int) AND 63 = x mod 64"
  using take_bit_eq_mask [of 6 x] by (simp add: take_bit_eq_mod mask_eq_exp_minus_1)

lemma or_tail: "128 OR ((x :: int) AND 63) = 128 + x mod 64"
  unfolding and_63 by (rule or_add_disjoint [of 6]) auto

lemma shift_in_6: "push_bit 6 (x :: int) OR uint (b AND 63 :: byte) = x * 64 + uint b mod 64"
  unfolding and_3f push_bit_eq_mult
  by (subst or_add_disjoint [of 6]) auto

definition utf8_enc :: "int \<Rightarrow> byte list" where
  "utf8_enc c = snd (ldap_x_ucs4_to_utf8 c True)"

definition wb :: "int \<Rightarrow> byte" where
  "wb x = word_of_int x"

text \<open>The last \<open>k\<close> octets of an encoding: digits to the base 64, most significant first.\<close>

primrec utf8_tail :: "nat \<Rightarrow> int \<Rightarrow> byte list" where
  "utf8_tail 0 c = []"
| "utf8_tail (Suc k) c = wb (0x80 + c div 64 ^ k mod 64) # utf8_tail k c"

lemma length_utf8_tail [simp]: "length (utf8_tail k c) = k"
  by (induction k) simp_all

lemma utf8_enc_digits:
  assumes "0 \<le> c" and "c < 2 ^ 31"
  shows "utf8_enc c = (let l = LDAP_UCS_UTF8LEN c in wb (lead_base l + c div 64 ^ (l - 1)) # utf8_tail (l - 1) c)"
proof -
  have "0xc0 OR c div 64 = 0xc0 + c div 64" if "c < 0x800" using assms that by (intro or_add_disjoint [of 6]) auto
  moreover have "0xe0 OR c div 4096 = 0xe0 + c div 4096" if "c < 0x10000"
    using assms that by (intro or_add_disjoint [of 5]) auto
  moreover have "0xf0 OR c div 262144 = 0xf0 + c div 262144" if "c < 0x200000"
    using assms that by (intro or_add_disjoint [of 4]) auto
  moreover have "0xf8 OR c div 16777216 = 0xf8 + c div 16777216" if "c < 0x4000000"
    using assms that by (intro or_add_disjoint [of 3]) auto
  moreover have "0xfc OR c div 1073741824 = 0xfc + c div 1073741824"
    using assms by (intro or_add_disjoint [of 2]) auto
  ultimately show ?thesis using assms(1)
    by (simp add: utf8_enc_def ldap_x_ucs4_to_utf8_def LDAP_UCS_UTF8LEN_def lead_base_def Let_def
        drop_bit_eq_div or_tail wb_def eval_nat_numeral)
qed

lemma uint_wb: "0 \<le> x \<Longrightarrow> x < 256 \<Longrightarrow> uint (wb x) = x"
  by (simp add: wb_def uint_word_of_int_eq take_bit_int_eq_self)

lemma wb_eqI: "x = uint b \<Longrightarrow> wb x = b"
  by (simp add: wb_def)

lemma length_utf8_enc: "0 \<le> c \<Longrightarrow> length (utf8_enc c) = LDAP_UCS_UTF8LEN c"
  by (simp add: utf8_enc_def ldap_x_ucs4_to_utf8_def LDAP_UCS_UTF8LEN_def Let_def)

section \<open>The decoder in arithmetic\<close>

abbreviation (input) cont_at :: "byte list \<Rightarrow> nat \<Rightarrow> bool" where
  "cont_at p i \<equiv> 0x80 \<le> uint (octet_at p i) \<and> uint (octet_at p i) < 0xc0"

lemma cont_at_iff: "octet_at p i AND 0xc0 = 0x80 \<longleftrightarrow> cont_at p i"
  by (rule all_bytesI [of _ "octet_at p i"]) code_simp

lemma continuation_loop_done [simp]: "len \<le> i \<Longrightarrow> continuation_loop c len i ch = Some ch"
  by (subst continuation_loop.simps) simp

lemma continuation_loop_step:
  "i < len \<Longrightarrow> continuation_loop c len i ch =
     (if cont_at c i then continuation_loop c len (i + 1) (ch * 64 + uint (octet_at c i) mod 64) else None)"
  by (subst continuation_loop.simps) (simp add: cont_at_iff shift_in_6)

text \<open>
  The value that a sequence of \<open>l\<close> octets denotes: the second octet must show that no shorter
  sequence would do.
\<close>

definition seq_value :: "byte list \<Rightarrow> nat \<Rightarrow> int \<Rightarrow> bool" where
  "seq_value p l c \<longleftrightarrow>
     continuation_loop p l 1 (uint (octet_at p 0) - lead_base l) = Some c \<and>
     (uint (octet_at p 0) = 0xe0 \<longrightarrow> 0xa0 \<le> uint (octet_at p 1)) \<and>
     (uint (octet_at p 0) = 0xf0 \<longrightarrow> 0x90 \<le> uint (octet_at p 1)) \<and>
     (uint (octet_at p 0) = 0xf8 \<longrightarrow> 0x88 \<le> uint (octet_at p 1)) \<and>
     (uint (octet_at p 0) = 0xfc \<longrightarrow> 0x84 \<le> uint (octet_at p 1))"

lemma unat_le_uint: "numeral n \<le> unat (b :: byte) \<longleftrightarrow> numeral n \<le> uint b"
  using of_nat_le_iff [of "numeral n" "unat b", where 'a = int] by simp

lemma unat_eq_uint: "unat (b :: byte) = numeral n \<longleftrightarrow> uint b = numeral n"
  using of_nat_eq_iff [of "unat b" "numeral n", where 'a = int] by simp

lemma unat_less_uint: "unat (b :: byte) < numeral n \<longleftrightarrow> uint b < numeral n"
  using of_nat_less_iff [of "unat b" "numeral n", where 'a = int] by simp

lemma ucs4_seq_value:
  assumes "0 \<le> c"
  shows "ldap_x_utf8_to_ucs4 p = c \<longleftrightarrow>
     (let l = lead_len (unat (octet_at p 0)) in l \<noteq> 0 \<and> seq_value p l c)"
proof -
  define l where "l = lead_len (unat (octet_at p 0))"
  have inv: "LDAP_UCS4_INVALID \<noteq> c" using assms by (auto simp: LDAP_UCS4_INVALID_def)
  have l6: "l \<le> 6" by (simp add: l_def lead_len_def)
  show ?thesis
  proof (cases "3 \<le> l \<and> \<not> cont_at p 1")
    case True
    then have "continuation_loop p l 1 ch = None" for ch by (subst continuation_loop_step) auto
    then show ?thesis using True inv
      by (auto simp: ldap_x_utf8_to_ucs4_def LDAP_UTF8_CHARLEN2_def charlen_lead seq_value_def Let_def
          simp flip: l_def)
  next
    case False
    have ne: "uint (octet_at p 0) \<noteq> 0xe0 \<and> uint (octet_at p 0) \<noteq> 0xf0 \<and> uint (octet_at p 0) \<noteq> 0xf8
        \<and> uint (octet_at p 0) \<noteq> 0xfc" if "l < 3"
      using that by (auto simp: l_def lead_len_def unat_less_uint)
    have lead: "l \<noteq> 0 \<Longrightarrow> uint (octet_at p 0 AND utf8_mask ! l) = uint (octet_at p 0) - lead_base l"
      using lead_bits [of "octet_at p 0"] by (simp add: l_def)
    have "3 \<le> l \<Longrightarrow> octet_at p 1 AND 0xc0 = 0x80" using False by (simp add: cont_at_iff)
    then have mt: "3 \<le> l \<Longrightarrow> ldap_utf8_mintab ! unat (octet_at p 0 AND 0x1f) AND octet_at p 1 \<noteq> 0 \<longleftrightarrow>
       (uint (octet_at p 0) = 0xe0 \<longrightarrow> 0xa0 \<le> uint (octet_at p 1)) \<and>
       (uint (octet_at p 0) = 0xf0 \<longrightarrow> 0x90 \<le> uint (octet_at p 1)) \<and>
       (uint (octet_at p 0) = 0xf8 \<longrightarrow> 0x88 \<le> uint (octet_at p 1)) \<and>
       (uint (octet_at p 0) = 0xfc \<longrightarrow> 0x84 \<le> uint (octet_at p 1))"
      using mintab_ok [of p] unfolding l_def unat_le_uint unat_eq_uint by blast
    consider "l = 0" | "l \<noteq> 0" "l < 3" | "3 \<le> l" by linarith
    then show ?thesis
    proof cases
      case 1
      then show ?thesis using inv
        by (simp add: ldap_x_utf8_to_ucs4_def LDAP_UTF8_CHARLEN2_def charlen_lead Let_def flip: l_def)
    next
      case 2
      then have "LDAP_UTF8_CHARLEN2 p = l" by (simp add: LDAP_UTF8_CHARLEN2_def charlen_lead Let_def flip: l_def)
      then show ?thesis using 2 inv lead ne
        by (auto simp: ldap_x_utf8_to_ucs4_def seq_value_def Let_def simp flip: l_def split: option.splits)
    next
      case 3
      have "LDAP_UTF8_CHARLEN2 p = (if ldap_utf8_mintab ! unat (octet_at p 0 AND 0x1f) AND octet_at p 1 \<noteq> 0 then l else 0)"
        using 3 by (simp add: LDAP_UTF8_CHARLEN2_def charlen_lead Let_def flip: l_def)
      then show ?thesis using 3 inv lead mt
        by (auto simp: ldap_x_utf8_to_ucs4_def seq_value_def Let_def simp flip: l_def split: option.splits if_splits)
    qed
  qed
qed


section \<open>Coder and decoder\<close>

lemma digit_step:
  fixes q ch b :: int
  shows "0x80 \<le> b \<and> b < 0xc0 \<and> q = ch * 64 + b mod 64 \<longleftrightarrow> q div 64 = ch \<and> b = 0x80 + q mod 64"
proof
  assume a: "0x80 \<le> b \<and> b < 0xc0 \<and> q = ch * 64 + b mod 64"
  have "b mod 64 = (b - 0x80) mod 64" by (simp add: mod_diff_eq [of b 64 "0x80", symmetric])
  also have "\<dots> = b - 0x80" using a by (intro mod_pos_pos_trivial) auto
  finally have "b mod 64 = b - 0x80" .
  then show "q div 64 = ch \<and> b = 0x80 + q mod 64" using a by simp
next
  assume a: "q div 64 = ch \<and> b = 0x80 + q mod 64"
  have "(q mod 64 + 2 * 64) mod 64 = q mod 64" by (simp only: mod_mult_self1 mod_mod_trivial)
  then have "b mod 64 = q mod 64" using a by (simp add: add.commute)
  moreover have "0 \<le> q mod 64" "q mod 64 < 64" by simp_all
  ultimately show "0x80 \<le> b \<and> b < 0xc0 \<and> q = ch * 64 + b mod 64"
    using a div_mult_mod_eq [of q 64] by (auto simp del: minus_mod_eq_mult_div)
qed

lemma continuation_loop_tail:
  "continuation_loop p (i + k) i ch = Some c \<longleftrightarrow>
     c div 64 ^ k = ch \<and> map (octet_at p) [i..<i + k] = utf8_tail k c"
proof (induction k arbitrary: i ch)
  case 0
  show ?case by auto
next
  case (Suc k)
  let ?b = "octet_at p i" and ?q = "c div 64 ^ k"
  have "continuation_loop p (i + Suc k) i ch = Some c \<longleftrightarrow>
      cont_at p i \<and> continuation_loop p (Suc i + k) (Suc i) (ch * 64 + uint ?b mod 64) = Some c"
    by (subst continuation_loop_step) auto
  also have "\<dots> \<longleftrightarrow> (0x80 \<le> uint ?b \<and> uint ?b < 0xc0 \<and> ?q = ch * 64 + uint ?b mod 64)
      \<and> map (octet_at p) [Suc i..<Suc i + k] = utf8_tail k c"
    unfolding Suc.IH by blast
  also have "\<dots> \<longleftrightarrow> (?q div 64 = ch \<and> uint ?b = 0x80 + ?q mod 64)
      \<and> map (octet_at p) [Suc i..<Suc i + k] = utf8_tail k c"
    unfolding digit_step ..
  also have "\<dots> \<longleftrightarrow> c div 64 ^ Suc k = ch \<and> map (octet_at p) [i..<i + Suc k] = utf8_tail (Suc k) c"
  proof -
    have "uint (wb (0x80 + ?q mod 64)) = 0x80 + ?q mod 64"
    proof (rule uint_wb)
      show "0 \<le> 0x80 + ?q mod 64" by (simp add: add_nonneg_nonneg)
      show "0x80 + ?q mod 64 < 256" using pos_mod_bound [of 64 ?q] by linarith
    qed
    then have "uint ?b = 0x80 + ?q mod 64 \<longleftrightarrow> ?b = wb (0x80 + ?q mod 64)"
      by (metis word_uint_eqI)
    moreover have "c div 64 ^ Suc k = ?q div 64"
      using zdiv_zmult2_eq [of 64 c "64 ^ k"] by (simp add: mult.commute)
    ultimately show ?thesis by (simp add: upt_conv_Cons del: upt_Suc)
  qed
  finally show ?case .
qed


lemma map_octet_at_take: "l \<le> length p \<Longrightarrow> map (octet_at p) [0..<l] = take l p"
  by (auto simp: octet_at_def intro!: nth_equalityI)

lemma octets_inside:
  assumes "\<And>i. i < l \<Longrightarrow> 0 < i \<Longrightarrow> octet_at p i \<noteq> 0" and "p \<noteq> []"
  shows "l \<le> length p"
proof (rule ccontr)
  assume "\<not> l \<le> length p"
  then have "octet_at p (length p) \<noteq> 0" using assms by simp
  then show False by (simp add: octet_at_def)
qed

lemma seq_value_tail:
  assumes "0 < l"
  shows "continuation_loop p l (Suc 0) ch = Some c \<longleftrightarrow>
     c div 64 ^ (l - 1) = ch \<and> map (octet_at p) [Suc 0..<l] = utf8_tail (l - 1) c"
  using continuation_loop_tail [of p 1 "l - 1" ch c] assms by simp

text \<open>The length class of a character follows from the first two octets of its sequence.\<close>

lemma second_digit:
  fixes r q thr bnd :: int
  assumes "r div 64 = q" and "0 \<le> q" and "q < bnd" and "q = 0 \<longrightarrow> thr \<le> r mod 64" and "thr \<le> 64"
  shows "thr \<le> r \<and> r < 64 * bnd"
proof -
  have "r = 64 * q + r mod 64" using assms(1) div_mult_mod_eq [of r 64] by linarith
  moreover have "0 \<le> r mod 64" "r mod 64 < 64" by simp_all
  ultimately show ?thesis using assms by (cases "q = 0") linarith+
qed

lemma length_class:
  assumes c: "0 \<le> c" and lead: "lead_len b0 = l" and l: "l \<noteq> 0"
    and q: "c div 64 ^ (l - 1) = int b0 - lead_base l"
    and thr: "(b0 = 0xe0 \<longrightarrow> 0x20 \<le> c div 64 mod 64) \<and> (b0 = 0xf0 \<longrightarrow> 0x10 \<le> c div 4096 mod 64)
      \<and> (b0 = 0xf8 \<longrightarrow> 0x8 \<le> c div 262144 mod 64) \<and> (b0 = 0xfc \<longrightarrow> 0x4 \<le> c div 16777216 mod 64)"
  shows "LDAP_UCS_UTF8LEN c = l \<and> c < 2 ^ 31"
proof -
  have "l = 1 \<and> b0 < 0x80 \<or> l = 2 \<and> 0xc2 \<le> b0 \<and> b0 < 0xe0 \<or> l = 3 \<and> 0xe0 \<le> b0 \<and> b0 < 0xf0
      \<or> l = 4 \<and> 0xf0 \<le> b0 \<and> b0 < 0xf8 \<or> l = 5 \<and> 0xf8 \<le> b0 \<and> b0 < 0xfc \<or> l = 6 \<and> 0xfc \<le> b0 \<and> b0 < 0xfe"
    using lead l by (auto simp: lead_len_def split: if_splits)
  then consider "l = 1" "b0 < 0x80" | "l = 2" "0xc2 \<le> b0" "b0 < 0xe0" | "l = 3" "0xe0 \<le> b0" "b0 < 0xf0"
    | "l = 4" "0xf0 \<le> b0" "b0 < 0xf8" | "l = 5" "0xf8 \<le> b0" "b0 < 0xfc" | "l = 6" "0xfc \<le> b0" "b0 < 0xfe"
    by blast
  then show ?thesis
  proof cases
    case 1
    then show ?thesis using c q by (simp add: LDAP_UCS_UTF8LEN_def lead_base_def)
  next
    case 2
    then have "c div 64 = int b0 - 0xc0" using q by (simp add: lead_base_def)
    then have "0x80 \<le> c" "c < 0x800" using 2 by linarith+
    then show ?thesis using 2 by (simp add: LDAP_UCS_UTF8LEN_def)
  next
    case 3
    then have "c div 64 div 64 = int b0 - 0xe0" using q by (simp add: lead_base_def flip: zdiv_zmult2_eq)
    then have "0x20 \<le> c div 64 \<and> c div 64 < 64 * 16" using 3 thr by (intro second_digit) auto
    then have "0x800 \<le> c" "c < 0x10000" by linarith+
    then show ?thesis using 3 by (simp add: LDAP_UCS_UTF8LEN_def)
  next
    case 4
    then have "c div 4096 div 64 = int b0 - 0xf0" using q by (simp add: lead_base_def flip: zdiv_zmult2_eq)
    then have "0x10 \<le> c div 4096 \<and> c div 4096 < 64 * 8" using 4 thr by (intro second_digit) auto
    then have "0x10000 \<le> c" "c < 0x200000" by linarith+
    then show ?thesis using 4 by (simp add: LDAP_UCS_UTF8LEN_def)
  next
    case 5
    then have "c div 262144 div 64 = int b0 - 0xf8" using q by (simp add: lead_base_def flip: zdiv_zmult2_eq)
    then have "0x8 \<le> c div 262144 \<and> c div 262144 < 64 * 4" using 5 thr by (intro second_digit) auto
    then have "0x200000 \<le> c" "c < 0x4000000" by linarith+
    then show ?thesis using 5 by (simp add: LDAP_UCS_UTF8LEN_def)
  next
    case 6
    then have "c div 16777216 div 64 = int b0 - 0xfc" using q by (simp add: lead_base_def flip: zdiv_zmult2_eq)
    then have "0x4 \<le> c div 16777216 \<and> c div 16777216 < 64 * 2" using 6 thr by (intro second_digit) auto
    then have "0x4000000 \<le> c" "c < 0x80000000" by linarith+
    then show ?thesis using 6 by (simp add: LDAP_UCS_UTF8LEN_def)
  qed
qed

lemma length_class_conv:
  assumes c: "0 \<le> c" "c < 2 ^ 31" and b0: "int b0 = lead_base (LDAP_UCS_UTF8LEN c) + c div 64 ^ (LDAP_UCS_UTF8LEN c - 1)"
  shows "lead_len b0 = LDAP_UCS_UTF8LEN c \<and> (b0 = 0xe0 \<longrightarrow> 0x20 \<le> c div 64 mod 64) \<and> (b0 = 0xf0 \<longrightarrow> 0x10 \<le> c div 4096 mod 64)
      \<and> (b0 = 0xf8 \<longrightarrow> 0x8 \<le> c div 262144 mod 64) \<and> (b0 = 0xfc \<longrightarrow> 0x4 \<le> c div 16777216 mod 64)"
proof -
  consider "c < 0x80" | "0x80 \<le> c" "c < 0x800" | "0x800 \<le> c" "c < 0x10000" | "0x10000 \<le> c" "c < 0x200000"
    | "0x200000 \<le> c" "c < 0x4000000" | "0x4000000 \<le> c" by linarith
  then show ?thesis
  proof cases
    case 1
    then have "b0 < 0x80" using c b0 by (simp add: LDAP_UCS_UTF8LEN_def lead_base_def)
    then show ?thesis using 1 c by (simp add: lead_len_def LDAP_UCS_UTF8LEN_def)
  next
    case 2
    then have "int b0 = 0xc0 + c div 64" using b0 by (simp add: LDAP_UCS_UTF8LEN_def lead_base_def)
    then have "0xc2 \<le> b0" "b0 < 0xe0" using 2 by linarith+
    then show ?thesis using 2 by (simp add: lead_len_def LDAP_UCS_UTF8LEN_def)
  next
    case 3
    then have "int b0 = 0xe0 + c div 4096" using b0 by (simp add: LDAP_UCS_UTF8LEN_def lead_base_def)
    then have b: "0xe0 \<le> b0" "b0 < 0xf0" "b0 = 0xe0 \<longrightarrow> c < 4096" using 3 by linarith+
    then have "b0 = 0xe0 \<longrightarrow> 0x20 \<le> c div 64 mod 64" using 3 by (auto simp: mod_pos_pos_trivial)
    then show ?thesis using 3 b by (simp add: lead_len_def LDAP_UCS_UTF8LEN_def)
  next
    case 4
    then have "int b0 = 0xf0 + c div 262144" using b0 by (simp add: LDAP_UCS_UTF8LEN_def lead_base_def)
    then have b: "0xf0 \<le> b0" "b0 < 0xf8" "b0 = 0xf0 \<longrightarrow> c < 262144" using 4 by linarith+
    then have "b0 = 0xf0 \<longrightarrow> 0x10 \<le> c div 4096 mod 64" using 4 by (auto simp: mod_pos_pos_trivial)
    then show ?thesis using 4 b by (simp add: lead_len_def LDAP_UCS_UTF8LEN_def)
  next
    case 5
    then have "int b0 = 0xf8 + c div 16777216" using b0 by (simp add: LDAP_UCS_UTF8LEN_def lead_base_def)
    then have b: "0xf8 \<le> b0" "b0 < 0xfc" "b0 = 0xf8 \<longrightarrow> c < 16777216" using 5 by linarith+
    then have "b0 = 0xf8 \<longrightarrow> 0x8 \<le> c div 262144 mod 64" using 5 by (auto simp: mod_pos_pos_trivial)
    then show ?thesis using 5 b by (simp add: lead_len_def LDAP_UCS_UTF8LEN_def)
  next
    case 6
    then have "int b0 = 0xfc + c div 1073741824" using b0 by (simp add: LDAP_UCS_UTF8LEN_def lead_base_def)
    moreover have "c < 0x80000000" using c(2) by simp
    ultimately have b: "0xfc \<le> b0" "b0 < 0xfe" "b0 = 0xfc \<longrightarrow> c < 1073741824" using 6 c by linarith+
    then have "b0 = 0xfc \<longrightarrow> 0x4 \<le> c div 16777216 mod 64" using 6 by (auto simp: mod_pos_pos_trivial)
    then show ?thesis using 6 b by (simp add: lead_len_def LDAP_UCS_UTF8LEN_def)
  qed
qed


lemma lead_octet_range:
  assumes "0 \<le> c" and "c < 2 ^ 31"
  shows "0 \<le> lead_base (LDAP_UCS_UTF8LEN c) + c div 64 ^ (LDAP_UCS_UTF8LEN c - 1)
      \<and> lead_base (LDAP_UCS_UTF8LEN c) + c div 64 ^ (LDAP_UCS_UTF8LEN c - 1) < 256"
proof -
  have c: "c < 0x80000000" using assms(2) by simp
  consider "c < 0x80" | "0x80 \<le> c" "c < 0x800" | "0x800 \<le> c" "c < 0x10000" | "0x10000 \<le> c" "c < 0x200000"
    | "0x200000 \<le> c" "c < 0x4000000" | "0x4000000 \<le> c" by linarith
  then show ?thesis
    by cases (use assms(1) c in \<open>simp add: LDAP_UCS_UTF8LEN_def lead_base_def, linarith?\<close>)+
qed

lemma octet_at_Cons [simp]:
  "octet_at (b # bs) 0 = b" "octet_at (b # bs) (Suc i) = octet_at bs i" "octet_at [] i = 0"
  by (simp_all add: octet_at_def)

lemma octet_at_append [simp]: "i < length xs \<Longrightarrow> octet_at (xs @ ys) i = octet_at xs i"
  by (simp add: octet_at_def nth_append)

lemma utf8_tail_nth:
  "i < k \<Longrightarrow> uint (utf8_tail k c ! i) = 0x80 + c div 64 ^ (k - 1 - i) mod 64"
proof (induction k arbitrary: i)
  case (Suc k)
  have "0x80 + c div 64 ^ k mod 64 < 256" using pos_mod_bound [of 64 "c div 64 ^ k"] by linarith
  then show ?case using Suc by (cases i) (auto simp: uint_wb)
qed simp

text \<open>The threshold conditions of the second octet, in terms of the character.\<close>

lemma second_octet_conv:
  assumes "lead_len b0 = l" and "2 < l \<Longrightarrow> uint b1 = 0x80 + c div 64 ^ (l - 2) mod 64"
  shows "((b0 = 0xe0 \<longrightarrow> 0xa0 \<le> uint b1) \<and> (b0 = 0xf0 \<longrightarrow> 0x90 \<le> uint b1) \<and> (b0 = 0xf8 \<longrightarrow> 0x88 \<le> uint b1)
      \<and> (b0 = 0xfc \<longrightarrow> 0x84 \<le> uint b1)) \<longleftrightarrow>
     ((b0 = 0xe0 \<longrightarrow> 0x20 \<le> c div 64 mod 64) \<and> (b0 = 0xf0 \<longrightarrow> 0x10 \<le> c div 4096 mod 64)
      \<and> (b0 = 0xf8 \<longrightarrow> 0x8 \<le> c div 262144 mod 64) \<and> (b0 = 0xfc \<longrightarrow> 0x4 \<le> c div 16777216 mod 64))"
proof -
  have "b0 = 0xe0 \<Longrightarrow> l = 3" "b0 = 0xf0 \<Longrightarrow> l = 4" "b0 = 0xf8 \<Longrightarrow> l = 5" "b0 = 0xfc \<Longrightarrow> l = 6"
    using assms(1) by (simp_all add: lead_len_def)
  then have "b0 = 0xe0 \<Longrightarrow> uint b1 = 0x80 + c div 64 mod 64" "b0 = 0xf0 \<Longrightarrow> uint b1 = 0x80 + c div 4096 mod 64"
    "b0 = 0xf8 \<Longrightarrow> uint b1 = 0x80 + c div 262144 mod 64" "b0 = 0xfc \<Longrightarrow> uint b1 = 0x80 + c div 16777216 mod 64"
    using assms(2) by simp_all
  then show ?thesis by force
qed

lemma decode_iff_prefix:
  assumes c: "0 \<le> c" and ne: "p \<noteq> []"
  shows "ldap_x_utf8_to_ucs4 p = c \<longleftrightarrow> c < 2 ^ 31 \<and> (\<exists>rest. p = utf8_enc c @ rest)"
proof
  assume "ldap_x_utf8_to_ucs4 p = c"
  then obtain l where l: "l = lead_len (unat (octet_at p 0))" "l \<noteq> 0" and sv: "seq_value p l c"
    using ucs4_seq_value [OF c] by (auto simp: Let_def)
  have q: "c div 64 ^ (l - 1) = uint (octet_at p 0) - lead_base l"
    and tl: "map (octet_at p) [1..<l] = utf8_tail (l - 1) c"
    using sv l(2) by (simp_all add: seq_value_def seq_value_tail)
  have oct: "uint (octet_at p i) = 0x80 + c div 64 ^ (l - 1 - i) mod 64" if "0 < i" "i < l" for i
    using utf8_tail_nth [of "i - 1" "l - 1" c] that arg_cong [OF tl, of "\<lambda>xs. xs ! (i - 1)"] by simp
  have len: "LDAP_UCS_UTF8LEN c = l \<and> c < 2 ^ 31"
  proof (rule length_class [OF c l(1) [symmetric] l(2)])
    show "c div 64 ^ (l - 1) = int (unat (octet_at p 0)) - lead_base l" using q by simp
    show "(unat (octet_at p 0) = 0xe0 \<longrightarrow> 0x20 \<le> c div 64 mod 64) \<and> (unat (octet_at p 0) = 0xf0 \<longrightarrow> 0x10 \<le> c div 4096 mod 64)
      \<and> (unat (octet_at p 0) = 0xf8 \<longrightarrow> 0x8 \<le> c div 262144 mod 64) \<and> (unat (octet_at p 0) = 0xfc \<longrightarrow> 0x4 \<le> c div 16777216 mod 64)"
    proof (subst second_octet_conv [OF l(1) [symmetric], symmetric])
      show "uint (octet_at p 1) = 0x80 + c div 64 ^ (l - 2) mod 64" if "2 < l"
        using oct [of 1] that by (simp add: numeral_2_eq_2)
    qed (use sv in \<open>simp add: seq_value_def unat_eq_uint\<close>)
  qed
  have "octet_at p i \<noteq> 0" if "i < l" "0 < i" for i
    using oct [OF that(2,1)] pos_mod_sign [of 64 "c div 64 ^ (l - 1 - i)"] by auto
  then have ll: "l \<le> length p" using ne by (intro octets_inside)
  have "take l p = octet_at p 0 # utf8_tail (l - 1) c"
    using map_octet_at_take [OF ll] tl l(2) by (simp add: upt_conv_Cons)
  also have "\<dots> = utf8_enc c"
    using utf8_enc_digits [OF c] len q by (auto simp: Let_def intro!: wb_eqI [symmetric])
  finally have "p = utf8_enc c @ drop l p" by (metis append_take_drop_id)
  then show "c < 2 ^ 31 \<and> (\<exists>rest. p = utf8_enc c @ rest)" using len by blast
next
  assume "c < 2 ^ 31 \<and> (\<exists>rest. p = utf8_enc c @ rest)"
  then obtain rest where c2: "c < 2 ^ 31" and p: "p = utf8_enc c @ rest" by blast
  define l where "l = LDAP_UCS_UTF8LEN c"
  have l0: "l \<noteq> 0" using c by (simp add: l_def LDAP_UCS_UTF8LEN_def)
  have enc: "utf8_enc c = wb (lead_base l + c div 64 ^ (l - 1)) # utf8_tail (l - 1) c"
    using utf8_enc_digits [OF c c2] by (simp add: Let_def l_def)
  have b: "0 \<le> lead_base l + c div 64 ^ (l - 1) \<and> lead_base l + c div 64 ^ (l - 1) < 256"
    using lead_octet_range [OF c c2] by (simp add: l_def)
  have o0: "uint (octet_at p 0) = lead_base l + c div 64 ^ (l - 1)"
    using b by (simp add: p enc uint_wb)
  have tl: "map (octet_at p) [1..<l] = utf8_tail (l - 1) c"
  proof -
    obtain m where m: "l = Suc m" using l0 not0_implies_Suc by blast
    have "map (octet_at p) [1..<l] = map (octet_at (utf8_tail m c @ rest)) [0..<m]"
      by (simp only: m p enc One_nat_def map_Suc_upt [symmetric]) simp
    then show ?thesis by (simp add: map_octet_at_take m)
  qed
  have lc: "lead_len (unat (octet_at p 0)) = l"
    "(unat (octet_at p 0) = 0xe0 \<longrightarrow> 0x20 \<le> c div 64 mod 64) \<and> (unat (octet_at p 0) = 0xf0 \<longrightarrow> 0x10 \<le> c div 4096 mod 64)
      \<and> (unat (octet_at p 0) = 0xf8 \<longrightarrow> 0x8 \<le> c div 262144 mod 64) \<and> (unat (octet_at p 0) = 0xfc \<longrightarrow> 0x4 \<le> c div 16777216 mod 64)"
    using length_class_conv [OF c c2, of "unat (octet_at p 0)"] o0 by (simp_all add: l_def)
  have "uint (octet_at p 1) = 0x80 + c div 64 ^ (l - 2) mod 64" if "2 < l"
    using utf8_tail_nth [of 0 "l - 1" c] that arg_cong [OF tl, of "\<lambda>xs. xs ! 0"] by (simp add: numeral_2_eq_2)
  then have "seq_value p l c"
    using second_octet_conv [OF lc(1), of "octet_at p 1" c] lc(2) o0 tl l0
    by (auto simp: seq_value_def seq_value_tail unat_eq_uint)
  then show "ldap_x_utf8_to_ucs4 p = c" using ucs4_seq_value [OF c] lc(1) l0 by (simp add: Let_def)
qed

end
