(* ===== verification/Utf8_Strings.thy ===== *)
theory Utf8_Strings
  imports Utf8_Code
begin

text \<open>
  What the routines of \<^verbatim>\<open>libldap/utf-8.c\<close> do to whole strings: on encoded text they are the
  list functions on its characters, and on any text they stop at its terminator.
\<close>

section \<open>Encoded text\<close>

lemma octet_at_behind: "octet_at (xs @ ys) (length xs) = octet_at ys 0"
  by (simp add: octet_at_def nth_append)

definition utf8_chars_ok :: "int list \<Rightarrow> bool" where
  "utf8_chars_ok cs \<longleftrightarrow> (\<forall>c\<in>set cs. 0 < c \<and> c < 2 ^ 31)"

definition utf8_text :: "int list \<Rightarrow> byte list" where
  "utf8_text cs = concat (map utf8_enc cs)"

lemma utf8_chars_ok_Cons [simp]: "utf8_chars_ok (c # cs) \<longleftrightarrow> 0 < c \<and> c < 2 ^ 31 \<and> utf8_chars_ok cs"
  and utf8_chars_ok_Nil [simp]: "utf8_chars_ok []"
  by (auto simp: utf8_chars_ok_def)

lemma utf8_text_simps [simp]: "utf8_text [] = []" "utf8_text (c # cs) = utf8_enc c @ utf8_text cs"
  "utf8_text (cs @ ds) = utf8_text cs @ utf8_text ds"
  by (simp_all add: utf8_text_def)

text \<open>The octets of one encoded character.\<close>

lemma utf8_enc_shape:
  assumes "0 \<le> c" and "c < 2 ^ 31"
  obtains b k where "utf8_enc c = b # utf8_tail k c" and "k < 6" and "k = 0 \<longrightarrow> uint b = c \<and> c < 0x80"
    and "0 < k \<longrightarrow> 0xc0 \<le> uint b"
proof -
  define l where "l = LDAP_UCS_UTF8LEN c"
  have l: "0 < l" "l \<le> 6" using assms by (simp_all add: l_def LDAP_UCS_UTF8LEN_def)
  have enc: "utf8_enc c = wb (lead_base l + c div 64 ^ (l - 1)) # utf8_tail (l - 1) c"
    using utf8_enc_digits [OF assms] by (simp add: Let_def l_def)
  have u: "uint (wb (lead_base l + c div 64 ^ (l - 1))) = lead_base l + c div 64 ^ (l - 1)"
    using lead_octet_range [OF assms] by (simp add: l_def uint_wb)
  have "0 \<le> c div 64 ^ (l - 1)" using assms(1) by (simp add: pos_imp_zdiv_nonneg_iff)
  then have "0 < l - 1 \<longrightarrow> 0xc0 \<le> uint (wb (lead_base l + c div 64 ^ (l - 1)))"
    unfolding u by (auto simp: lead_base_def simp del: One_nat_def)
  moreover have "l - 1 = 0 \<longrightarrow> uint (wb (lead_base l + c div 64 ^ (l - 1))) = c \<and> c < 0x80"
    unfolding u using l assms(1) by (auto simp: lead_base_def) (auto simp: l_def LDAP_UCS_UTF8LEN_def split: if_splits)
  ultimately show thesis using that [OF enc] l by linarith
qed

lemma utf8_tail_cont: "b \<in> set (utf8_tail k c) \<Longrightarrow> 0x80 \<le> uint b \<and> uint b < 0xc0"
proof -
  assume "b \<in> set (utf8_tail k c)"
  then obtain i where "i < k" "b = utf8_tail k c ! i" by (auto simp: in_set_conv_nth)
  then show ?thesis
    using utf8_tail_nth [of i k c] pos_mod_bound [of 64 "c div 64 ^ (k - 1 - i)"]
      pos_mod_sign [of 64 "c div 64 ^ (k - 1 - i)"] by auto
qed

lemma utf8_enc_nonzero:
  assumes "0 < c" and "c < 2 ^ 31"
  shows "0 \<notin> set (utf8_enc c)"
proof -
  obtain b k where "utf8_enc c = b # utf8_tail k c" "k = 0 \<longrightarrow> uint b = c \<and> c < 0x80" "0 < k \<longrightarrow> 0xc0 \<le> uint b"
    using utf8_enc_shape [of c] assms by (metis less_imp_le)
  then show ?thesis using assms utf8_tail_cont [of 0 k c] by (cases "k = 0") auto
qed

lemma utf8_text_nonzero: "utf8_chars_ok cs \<Longrightarrow> 0 \<notin> set (utf8_text cs)"
  by (induction cs) (auto dest: utf8_enc_nonzero)

lemma utf8_enc_not_Nil: "0 \<le> c \<Longrightarrow> c < 2 ^ 31 \<Longrightarrow> utf8_enc c \<noteq> []"
  by (metis utf8_enc_shape list.distinct(1))

lemma octet_at_text_0:
  assumes "utf8_chars_ok cs"
  shows "octet_at (utf8_text cs @ 0 # junk) 0 = 0 \<longleftrightarrow> cs = []"
proof (cases cs)
  case (Cons c ds)
  then have "utf8_enc c \<noteq> []" "0 \<notin> set (utf8_enc c)"
    using assms utf8_enc_not_Nil [of c] utf8_enc_nonzero [of c] by auto
  then show ?thesis using Cons by (cases "utf8_enc c") auto
qed simp

text \<open>No text begins with a continuation octet.\<close>

lemma text_starts_char:
  assumes "utf8_chars_ok cs"
  shows "\<not> cont_at (utf8_text cs @ 0 # junk) 0"
proof (cases cs)
  case (Cons c ds)
  obtain b k where "utf8_enc c = b # utf8_tail k c" "k = 0 \<longrightarrow> uint b = c \<and> c < 0x80" "0 < k \<longrightarrow> 0xc0 \<le> uint b"
    using utf8_enc_shape [of c] assms Cons by (metis less_imp_le utf8_chars_ok_Cons)
  then show ?thesis using Cons by (cases "k = 0") auto
qed simp

lemma ISASCII_iff: "LDAP_UTF8_ISASCII p \<longleftrightarrow> uint (octet_at p 0) < 0x80"
  by (simp add: LDAP_UTF8_ISASCII_def ascii_iff unat_less_uint)

lemma next_loop_run:
  assumes "\<And>j. i \<le> j \<Longrightarrow> j < i + k \<Longrightarrow> cont_at p j" and "i + k \<le> 6" and "i + k < 6 \<Longrightarrow> \<not> cont_at p (i + k)"
  shows "next_loop p i = i + k"
  using assms
proof (induction k arbitrary: i)
  case 0
  then show ?case by (subst next_loop.simps) (auto simp: cont_at_iff)
next
  case (Suc k)
  have "next_loop p i = next_loop p (Suc i)"
    using Suc.prems(1) [of i] Suc.prems(2) by (subst next_loop.simps) (simp add: cont_at_iff)
  also have "\<dots> = Suc i + k" using Suc.prems by (intro Suc.IH) auto
  finally show ?case by simp
qed

lemma char_octets:
  assumes c: "0 \<le> c" "c < 2 ^ 31" and r: "\<not> cont_at rest 0"
  shows "(if LDAP_UTF8_ISASCII (utf8_enc c @ rest) then 1 else next_loop (utf8_enc c @ rest) 1) = length (utf8_enc c)"
proof -
  obtain b k where e: "utf8_enc c = b # utf8_tail k c" and k: "k < 6" "k = 0 \<longrightarrow> uint b = c \<and> c < 0x80"
    "0 < k \<longrightarrow> 0xc0 \<le> uint b"
    using utf8_enc_shape [OF c] by metis
  show ?thesis
  proof (cases "k = 0")
    case True
    then show ?thesis using k by (simp add: ISASCII_iff e)
  next
    case False
    let ?p = "utf8_enc c @ rest"
    have at: "octet_at ?p (Suc j) = utf8_tail k c ! j" if "j < k" for j using that by (simp add: e octet_at_def nth_append)
    have "next_loop ?p 1 = 1 + k"
    proof (rule next_loop_run)
      fix j assume "1 \<le> j" "j < 1 + k"
      then show "cont_at ?p j" using at [of "j - 1"] utf8_tail_cont [of "utf8_tail k c ! (j - 1)" k c] by simp
    next
      show "1 + k \<le> 6" using k by simp
    next
      have "octet_at ?p (1 + k) = octet_at rest 0" using octet_at_behind [of "utf8_tail k c" rest] by (simp add: e)
      then show "\<not> cont_at ?p (1 + k)" using r by simp
    qed
    then show ?thesis using False k by (simp add: ISASCII_iff e)
  qed
qed

lemma NEXT_char:
  assumes "0 \<le> c" and "c < 2 ^ 31" and "\<not> cont_at rest 0"
  shows "LDAP_UTF8_NEXT (utf8_enc c @ rest) = rest"
  using char_octets [OF assms] by (simp add: LDAP_UTF8_NEXT_def ldap_utf8_next_def split: if_splits)

lemma NEXT_text [simp]:
  assumes "utf8_chars_ok (c # cs)"
  shows "LDAP_UTF8_NEXT (utf8_text (c # cs) @ 0 # junk) = utf8_text cs @ 0 # junk"
  using NEXT_char [of c] text_starts_char [of cs junk] assms by simp

lemma decode_text:
  assumes "utf8_chars_ok (c # cs)"
  shows "ldap_x_utf8_to_ucs4 (utf8_text (c # cs) @ 0 # junk) = c"
  using decode_iff_prefix [of c "utf8_text (c # cs) @ 0 # junk"] assms by auto

section \<open>The routines on encoded text\<close>

lemma chars_text: "utf8_chars_ok cs \<Longrightarrow> chars_loop (utf8_text cs @ 0 # junk) n = n + length cs"
proof (induction cs arbitrary: n)
  case Nil
  show ?case by (subst chars_loop.simps) simp
next
  case (Cons c cs)
  then show ?case using NEXT_text [OF Cons.prems, of junk] octet_at_text_0 [OF Cons.prems, of junk]
    by (subst chars_loop.simps) simp
qed

lemma bytes_run: "0 \<notin> set s \<Longrightarrow> n \<le> length s \<Longrightarrow> bytes_loop (s @ 0 # junk) n = length s"
proof (induction "length s - n" arbitrary: n)
  case 0
  then have "n = length s" by simp
  then show ?case by (subst bytes_loop.simps) (simp add: octet_at_behind)
next
  case (Suc k)
  then have "octet_at (s @ 0 # junk) n \<noteq> 0" by (auto simp: octet_at_def nth_append) (metis nth_mem)
  moreover have "bytes_loop (s @ 0 # junk) (Suc n) = length s" using Suc by (intro Suc.hyps(1)) auto
  ultimately show ?case by (subst bytes_loop.simps) simp
qed

lemma in_set_text:
  assumes "utf8_chars_ok (c # cs)" and "utf8_chars_ok ss"
  shows "in_set_loop (utf8_text (c # cs) @ 0 # junk) (utf8_text ss @ 0 # junk') \<longleftrightarrow> c \<in> set ss"
  using assms(2)
proof (induction ss)
  case Nil
  show ?case by (subst in_set_loop.simps) simp
next
  case (Cons s ss)
  show ?case using Cons octet_at_text_0 [OF Cons.prems, of junk'] NEXT_text [OF Cons.prems, of junk']
      decode_text [OF assms(1), of junk] decode_text [OF Cons.prems, of junk']
    by (subst in_set_loop.simps) (auto simp del: utf8_text_simps)
qed

lemma strspn_text:
  assumes "utf8_chars_ok cs" and "utf8_chars_ok ss"
  shows "strspn_loop (utf8_text cs @ 0 # junk) (utf8_text ss @ 0 # junk')
      = utf8_text (dropWhile (\<lambda>c. c \<in> set ss) cs) @ 0 # junk"
  using assms(1)
proof (induction cs)
  case Nil
  show ?case by (subst strspn_loop.simps) simp
next
  case (Cons c cs)
  show ?case using Cons octet_at_text_0 [OF Cons.prems, of junk] NEXT_text [OF Cons.prems, of junk]
      in_set_text [OF Cons.prems assms(2), of junk junk']
    by (subst strspn_loop.simps) (simp del: utf8_text_simps)
qed

lemma strcspn_text:
  assumes "utf8_chars_ok cs" and "utf8_chars_ok ss"
  shows "strcspn_loop (utf8_text cs @ 0 # junk) (utf8_text ss @ 0 # junk')
      = utf8_text (dropWhile (\<lambda>c. c \<notin> set ss) cs) @ 0 # junk"
  using assms(1)
proof (induction cs)
  case Nil
  show ?case by (subst strcspn_loop.simps) simp
next
  case (Cons c cs)
  show ?case using Cons octet_at_text_0 [OF Cons.prems, of junk] NEXT_text [OF Cons.prems, of junk]
      in_set_text [OF Cons.prems assms(2), of junk junk']
    by (subst strcspn_loop.simps) (simp del: utf8_text_simps)
qed

lemma ptr_diff_text:
  "ptr_diff (utf8_text (dropWhile P cs) @ 0 # junk) (utf8_text cs @ 0 # junk) = length (utf8_text (takeWhile P cs))"
proof -
  have "utf8_text cs = utf8_text (takeWhile P cs) @ utf8_text (dropWhile P cs)"
    by (simp flip: utf8_text_simps(3))
  then show ?thesis by (simp add: ptr_diff_def)
qed


lemma strpbrk_text:
  assumes "utf8_chars_ok cs" and "utf8_chars_ok ss"
  shows "ldap_utf8_strpbrk (utf8_text cs @ 0 # junk) (utf8_text ss @ 0 # junk')
      = (case dropWhile (\<lambda>c. c \<notin> set ss) cs of [] \<Rightarrow> None | d # ds \<Rightarrow> Some (utf8_text (d # ds) @ 0 # junk))"
  using assms(1)
proof (induction cs)
  case Nil
  show ?case by (subst ldap_utf8_strpbrk.simps) simp
next
  case (Cons c cs)
  show ?case using Cons octet_at_text_0 [OF Cons.prems, of junk] NEXT_text [OF Cons.prems, of junk]
      in_set_text [OF Cons.prems assms(2), of junk junk']
    by (subst ldap_utf8_strpbrk.simps) (simp del: utf8_text_simps)
qed

lemma strchr_text:
  assumes "utf8_chars_ok cs" and "utf8_chars_ok (x # xs)"
  shows "ldap_utf8_strchr (utf8_text cs @ 0 # junk) (utf8_text (x # xs) @ 0 # junk')
      = (case dropWhile (\<lambda>c. c \<noteq> x) cs of [] \<Rightarrow> None | d # ds \<Rightarrow> Some (utf8_text (d # ds) @ 0 # junk))"
  using assms(1)
proof (induction cs)
  case Nil
  show ?case by (subst ldap_utf8_strchr.simps) simp
next
  case (Cons c cs)
  show ?case using Cons octet_at_text_0 [OF Cons.prems, of junk] NEXT_text [OF Cons.prems, of junk]
      decode_text [OF Cons.prems, of junk] decode_text [OF assms(2), of junk']
    by (subst ldap_utf8_strchr.simps) (simp del: utf8_text_simps)
qed

section \<open>Properties\<close>

text \<open>
  C26: \<^verbatim>\<open>ldap_x_utf8_to_ucs4\<close> decodes exactly the shortest encodings.  For every non-empty
  octet string and every \<open>c \<ge> 0\<close>, the decoder returns \<open>c\<close> if and only if \<open>c\<close> fits in 31 bits and the
  string begins with the octets that \<^verbatim>\<open>ldap_x_ucs4_to_utf8\<close> stores for \<open>c\<close>.  So coding followed
  by decoding gives the character back, and overlong, truncated and stray sequences are all refused.
\<close>

theorem utf8_decodes_shortest:
  assumes "p \<noteq> []" and "0 \<le> c"
  shows "ldap_x_utf8_to_ucs4 p = c \<longleftrightarrow> c < 2 ^ 31 \<and> (\<exists>rest. p = snd (ldap_x_ucs4_to_utf8 c True) @ rest)"
  using decode_iff_prefix [OF assms(2,1)] by (simp only: utf8_enc_def)

theorem utf8_decodes_shortest_witness:
  "ldap_x_utf8_to_ucs4 [0xe2, 0x82, 0xac, 0x21] = 0x20ac \<longleftrightarrow> (0x20ac :: int) < 2 ^ 31
     \<and> (\<exists>rest. [0xe2, 0x82, 0xac, 0x21] = snd (ldap_x_ucs4_to_utf8 0x20ac True) @ rest)"
  by (rule utf8_decodes_shortest) simp_all

text \<open>
  C27: on encoded text the string routines of \<^verbatim>\<open>utf-8.c\<close> are the list functions on its
  characters: \<^verbatim>\<open>ldap_utf8_chars\<close> counts them, \<^verbatim>\<open>ldap_utf8_bytes\<close> counts the octets, \<^verbatim>\<open>strspn\<close> and
  \<^verbatim>\<open>strcspn\<close> return the octet length of the longest prefix inside and outside the set, and
  \<^verbatim>\<open>strpbrk\<close> returns the suffix that starts at the first character of the set.
\<close>

theorem utf8_string_routines:
  fixes junk junk' :: "byte list"
  assumes "utf8_chars_ok cs" and "utf8_chars_ok ss"
  defines "str \<equiv> utf8_text cs @ 0 # junk" and "set' \<equiv> utf8_text ss @ 0 # junk'"
  shows "ldap_utf8_chars str = length cs \<and> ldap_utf8_bytes str = length (utf8_text cs)
     \<and> ldap_utf8_strspn str set' = length (utf8_text (takeWhile (\<lambda>c. c \<in> set ss) cs))
     \<and> ldap_utf8_strcspn str set' = length (utf8_text (takeWhile (\<lambda>c. c \<notin> set ss) cs))
     \<and> ldap_utf8_strpbrk str set'
         = (case dropWhile (\<lambda>c. c \<notin> set ss) cs of [] \<Rightarrow> None | d # ds \<Rightarrow> Some (utf8_text (d # ds) @ 0 # junk))"
  using assms(1,2) utf8_text_nonzero [OF assms(1)]
  by (simp add: str_def set'_def ldap_utf8_chars_def chars_text ldap_utf8_bytes_def bytes_run
      ldap_utf8_strspn_def ldap_utf8_strcspn_def strspn_text strcspn_text strpbrk_text ptr_diff_text)

theorem utf8_string_routines_witness:
  "ldap_utf8_chars (utf8_text [0x61, 0x20ac, 0x62] @ 0 # [7]) = length [0x61, 0x20ac, 0x62 :: int]
     \<and> ldap_utf8_bytes (utf8_text [0x61, 0x20ac, 0x62] @ 0 # [7]) = length (utf8_text [0x61, 0x20ac, 0x62])
     \<and> ldap_utf8_strspn (utf8_text [0x61, 0x20ac, 0x62] @ 0 # [7]) (utf8_text [0x20ac, 0x61] @ 0 # [])
         = length (utf8_text (takeWhile (\<lambda>c. c \<in> set [0x20ac, 0x61]) [0x61, 0x20ac, 0x62]))
     \<and> ldap_utf8_strcspn (utf8_text [0x61, 0x20ac, 0x62] @ 0 # [7]) (utf8_text [0x20ac, 0x61] @ 0 # [])
         = length (utf8_text (takeWhile (\<lambda>c. c \<notin> set [0x20ac, 0x61]) [0x61, 0x20ac, 0x62]))
     \<and> ldap_utf8_strpbrk (utf8_text [0x61, 0x20ac, 0x62] @ 0 # [7]) (utf8_text [0x20ac, 0x61] @ 0 # [])
         = (case dropWhile (\<lambda>c. c \<notin> set [0x20ac, 0x61]) [0x61, 0x20ac, 0x62] of [] \<Rightarrow> None
            | d # ds \<Rightarrow> Some (utf8_text (d # ds) @ 0 # [7]))"
  by (rule utf8_string_routines) simp_all

text \<open>
  C28: \<^verbatim>\<open>ldap_utf8_strtok\<close> cuts off one token.  On memory that holds encoded text from offset
  \<open>length pre\<close> on, the call skips the separators, returns NULL when nothing else is left, and
  otherwise returns the start of the token, overwrites only the lead octet of the separator behind it with
  0 and leaves in \<^verbatim>\<open>*last\<close> the offset of the character after that separator.
\<close>

theorem ldap_utf8_strtok_token:
  fixes pre post junk :: "byte list"
  assumes "utf8_chars_ok cs" and "utf8_chars_ok ss"
  defines "m \<equiv> pre @ utf8_text cs @ 0 # post"
    and "rest \<equiv> dropWhile (\<lambda>c. c \<in> set ss) cs"
    and "b \<equiv> length pre + length (utf8_text (takeWhile (\<lambda>c. c \<in> set ss) cs))"
  shows "ldap_utf8_strtok m (Some (length pre)) (utf8_text ss @ 0 # junk) (Some lst) =
     (if rest = [] then Some (None, None, m)
      else let token = takeWhile (\<lambda>c. c \<notin> set ss) rest; e = b + length (utf8_text token)
           in case dropWhile (\<lambda>c. c \<notin> set ss) rest of
                [] \<Rightarrow> Some (Some b, Some e, m)
              | d # ds \<Rightarrow> Some (Some b, Some (e + length (utf8_enc d)), m[e := 0]))"
proof -
  let ?sep = "utf8_text ss @ 0 # junk" and ?after = "dropWhile (\<lambda>c. c \<notin> set ss) rest"
  have ok: "utf8_chars_ok rest" "utf8_chars_ok ?after"
    using assms(1) by (auto simp: rest_def utf8_chars_ok_def dest!: set_dropWhileD)
  have cs: "cs = takeWhile (\<lambda>c. c \<in> set ss) cs @ rest" by (simp add: rest_def)
  have rest: "rest = takeWhile (\<lambda>c. c \<notin> set ss) rest @ ?after" by simp
  have spn: "length pre + ldap_utf8_strspn (drop (length pre) m) ?sep = b"
    using assms(1,2) by (simp add: m_def b_def ldap_utf8_strspn_def strspn_text ptr_diff_text)
  have mb: "drop b m = utf8_text rest @ 0 # post"
    unfolding m_def b_def by (subst cs) simp
  have at: "octet_at m n = octet_at (drop n m) 0" for n by (simp add: octet_at_def)
  define e where "e = b + length (utf8_text (takeWhile (\<lambda>c. c \<notin> set ss) rest))"
  have cspn: "b + ldap_utf8_strcspn (drop b m) ?sep = e"
    using ok(1) assms(2) by (simp add: mb e_def ldap_utf8_strcspn_def strcspn_text ptr_diff_text)
  have me: "drop e m = utf8_text ?after @ 0 # post"
  proof -
    have "drop e m = drop (length (utf8_text (takeWhile (\<lambda>c. c \<notin> set ss) rest))) (drop b m)"
      by (simp add: e_def add.commute)
    moreover have "utf8_text rest = utf8_text (takeWhile (\<lambda>c. c \<notin> set ss) rest) @ utf8_text ?after"
      by (simp flip: utf8_text_simps(3))
    ultimately show ?thesis by (simp add: mb)
  qed
  have "octet_at m b = 0 \<longleftrightarrow> rest = []" "octet_at m e = 0 \<longleftrightarrow> ?after = []"
    using octet_at_text_0 [OF ok(1), of post] octet_at_text_0 [OF ok(2), of post] by (simp_all add: at mb me)
  moreover have "ptr_diff (LDAP_UTF8_NEXT (drop e m)) (drop e m) = length (utf8_enc d)" if "?after = d # ds" for d ds
    using NEXT_text [of d ds post] ok(2) that by (simp add: me ptr_diff_def del: utf8_text_simps) simp
  ultimately show ?thesis
    by (cases ?after)
      (simp_all add: ldap_utf8_strtok_def Let_def spn cspn del: dropWhile_eq_Nil_conv flip: e_def)
qed

theorem ldap_utf8_strtok_token_witness:
  "ldap_utf8_strtok ([7] @ utf8_text [0x2c, 0x61, 0x2c, 0x62] @ 0 # []) (Some (length [7 :: byte]))
      (utf8_text [0x2c] @ 0 # []) (Some None) =
     (if dropWhile (\<lambda>c. c \<in> set [0x2c]) [0x2c, 0x61, 0x2c, 0x62 :: int] = []
      then Some (None, None, [7] @ utf8_text [0x2c, 0x61, 0x2c, 0x62] @ 0 # [])
      else let token = takeWhile (\<lambda>c. c \<notin> set [0x2c]) (dropWhile (\<lambda>c. c \<in> set [0x2c]) [0x2c, 0x61, 0x2c, 0x62]);
               e = length [7 :: byte] + length (utf8_text (takeWhile (\<lambda>c. c \<in> set [0x2c]) [0x2c, 0x61, 0x2c, 0x62]))
                 + length (utf8_text token)
           in case dropWhile (\<lambda>c. c \<notin> set [0x2c]) (dropWhile (\<lambda>c. c \<in> set [0x2c]) [0x2c, 0x61, 0x2c, 0x62]) of
                [] \<Rightarrow> Some (Some (length [7 :: byte] + length (utf8_text (takeWhile (\<lambda>c. c \<in> set [0x2c]) [0x2c, 0x61, 0x2c, 0x62]))),
                        Some e, [7] @ utf8_text [0x2c, 0x61, 0x2c, 0x62] @ 0 # [])
              | d # ds \<Rightarrow> Some (Some (length [7 :: byte] + length (utf8_text (takeWhile (\<lambda>c. c \<in> set [0x2c]) [0x2c, 0x61, 0x2c, 0x62]))),
                        Some (e + length (utf8_enc d)), ([7] @ utf8_text [0x2c, 0x61, 0x2c, 0x62] @ 0 # [])[e := 0]))"
  by (rule ldap_utf8_strtok_token) simp_all

end
