(* ===== verification/Utf8_Bounds.thy ===== *)
theory Utf8_Bounds
  imports Utf8_Strings
begin

text \<open>
  Robustness of the UTF-8 routines on arbitrary, possibly malformed input: they never look
  behind the terminator of a string.  Then stepping back with \<^verbatim>\<open>ldap_utf8_prev\<close>, copying with
  \<^verbatim>\<open>ldap_utf8_copy\<close>, and the conversion of fixed-width strings by \<^verbatim>\<open>ldap_ucs_to_utf8s\<close>.
\<close>

section \<open>What is read\<close>

lemma octet_at_string:
  "i \<le> length s \<Longrightarrow> octet_at (s @ 0 # j) i = (if i < length s then s ! i else 0)"
  by (auto simp: octet_at_def nth_append)

lemma octet_at_same: "i \<le> length s \<Longrightarrow> octet_at (s @ 0 # j) i = octet_at (s @ 0 # j') i"
  by (simp add: octet_at_string)

lemma inside_if_nonzero: "i \<le> length s \<Longrightarrow> octet_at (s @ 0 # j) i \<noteq> 0 \<Longrightarrow> Suc i \<le> length s"
  by (auto simp: octet_at_string split: if_splits)

lemma cont_nonzero: "cont_at p i \<Longrightarrow> octet_at p i \<noteq> 0"
  by auto

lemma continuation_loop_same:
  "i \<le> length s \<Longrightarrow> continuation_loop (s @ 0 # j) len i ch = continuation_loop (s @ 0 # j') len i ch"
proof (induction "s @ 0 # j" len i ch rule: continuation_loop.induct)
  case (1 len i ch)
  show ?case
  proof (cases "i < len \<and> cont_at (s @ 0 # j) i")
    case True
    then have "Suc i \<le> length s" using 1(2) inside_if_nonzero cont_nonzero by blast
    then show ?thesis using 1(1) True octet_at_same [OF 1(2), of j j']
      by (subst (1 2) continuation_loop.simps) (simp add: cont_at_iff)
  next
    case False
    then show ?thesis using octet_at_same [OF 1(2), of j j']
      by (subst (1 2) continuation_loop.simps) (auto simp: cont_at_iff)
  qed
qed

lemma decode_same: "ldap_x_utf8_to_ucs4 (s @ 0 # j) = ldap_x_utf8_to_ucs4 (s @ 0 # j')"
proof (cases s)
  case Nil
  then show ?thesis
    by (simp add: ldap_x_utf8_to_ucs4_def LDAP_UTF8_CHARLEN2_def charlen_lead lead_len_def Let_def)
next
  case (Cons b t)
  then have "octet_at (s @ 0 # j) 0 = octet_at (s @ 0 # j') 0" "octet_at (s @ 0 # j) 1 = octet_at (s @ 0 # j') 1"
    by (intro octet_at_same; simp)+
  moreover have "continuation_loop (s @ 0 # j) l (Suc 0) ch = continuation_loop (s @ 0 # j') l (Suc 0) ch" for l ch
    using Cons by (intro continuation_loop_same) simp
  ultimately show ?thesis
    by (simp add: ldap_x_utf8_to_ucs4_def LDAP_UTF8_CHARLEN2_def charlen_lead Let_def)
qed

lemma next_loop_same:
  "i \<le> length s \<Longrightarrow> next_loop (s @ 0 # j) i = next_loop (s @ 0 # j') i \<and> next_loop (s @ 0 # j) i \<le> length s"
proof (induction "s @ 0 # j" i rule: next_loop.induct)
  case (1 i)
  show ?case
  proof (cases "i < 6 \<and> cont_at (s @ 0 # j) i")
    case True
    then have "Suc i \<le> length s" using 1(2) inside_if_nonzero cont_nonzero by blast
    then show ?thesis using 1(1) True octet_at_same [OF 1(2), of j j']
      by (subst (1 2 3) next_loop.simps) (simp add: cont_at_iff)
  next
    case False
    then show ?thesis using 1(2) octet_at_same [OF 1(2), of j j']
      by (subst (1 2 3) next_loop.simps) (auto simp: cont_at_iff)
  qed
qed

lemma NEXT_same:
  assumes "s \<noteq> []"
  obtains k where "0 < k" and "k \<le> length s" and "\<And>j. LDAP_UTF8_NEXT (s @ 0 # j) = drop k s @ 0 # j"
proof -
  let ?k = "if uint (octet_at s 0) < 0x80 then 1 else next_loop (s @ 0 # []) 1"
  have n: "next_loop (s @ 0 # j) 1 = next_loop (s @ 0 # []) 1" "next_loop (s @ 0 # j) 1 \<le> length s" for j
    using next_loop_same [of 1 s j "[]"] assms by (simp_all add: Suc_leI)
  have "LDAP_UTF8_NEXT (s @ 0 # j) = drop ?k s @ 0 # j" for j
    using Suc_leI [of 0 "length s"] assms n [of j] by (auto simp: LDAP_UTF8_NEXT_def ldap_utf8_next_def ISASCII_iff)
  moreover have "0 < ?k" "?k \<le> length s" using n(2) [of "[]"] next_loop_ge [of 1 "s @ 0 # []"] assms
    by (auto simp: Suc_leI)
  ultimately show thesis using that by blast
qed

lemma in_set_same:
  "0 \<notin> set t \<Longrightarrow> in_set_loop (s @ 0 # j) (t @ 0 # r) = in_set_loop (s @ 0 # j') (t @ 0 # r')"
proof (induction "length t" arbitrary: t rule: less_induct)
  case less
  show ?case
  proof (cases "t = []")
    case True
    then show ?thesis by (subst (1 2) in_set_loop.simps) simp
  next
    case False
    obtain k where k: "0 < k" "k \<le> length t" "\<And>j. LDAP_UTF8_NEXT (t @ 0 # j) = drop k t @ 0 # j"
      using NEXT_same [OF False] by blast
    have "in_set_loop (s @ 0 # j) (drop k t @ 0 # r) = in_set_loop (s @ 0 # j') (drop k t @ 0 # r')"
      using less(2) k False by (intro less(1)) (auto dest: in_set_dropD)
    moreover have "octet_at (t @ 0 # r) 0 = octet_at (t @ 0 # r') 0" by (rule octet_at_same) simp
    ultimately show ?thesis using decode_same [of s j j'] decode_same [of t r r'] k(3)
      by (subst (1 2) in_set_loop.simps) simp
  qed
qed

lemma span_same:
  assumes "0 \<notin> set s" and "0 \<notin> set t"
  shows "\<exists>k \<le> length s. \<forall>j r. strspn_loop (s @ 0 # j) (t @ 0 # r) = drop k s @ 0 # j"
    and "\<exists>k \<le> length s. \<forall>j r. strcspn_loop (s @ 0 # j) (t @ 0 # r) = drop k s @ 0 # j"
    and "\<exists>n. \<forall>j i. chars_loop (s @ 0 # j) i = i + n"
  using assms(1)
proof (induction "length s" arbitrary: s rule: less_induct)
  case less
  {
    case 1
    show ?case
    proof (cases "s = [] \<or> \<not> in_set_loop (s @ 0 # []) (t @ 0 # [])")
      case True
      then have "strspn_loop (s @ 0 # j) (t @ 0 # r) = drop 0 s @ 0 # j" for j r
        using in_set_same [OF assms(2), of s j r "[]" "[]"] by (subst strspn_loop.simps) auto
      then show ?thesis by blast
    next
      case False
      then obtain k where k: "0 < k" "k \<le> length s" "\<And>j. LDAP_UTF8_NEXT (s @ 0 # j) = drop k s @ 0 # j"
        using NEXT_same [of s] by blast
      obtain k' where k': "k' \<le> length (drop k s)"
          "\<forall>j r. strspn_loop (drop k s @ 0 # j) (t @ 0 # r) = drop k' (drop k s) @ 0 # j"
        using less(1) [of "drop k s"] k 1 False by (auto dest: in_set_dropD)
      have "octet_at (s @ 0 # j) 0 \<noteq> 0" for j using 1 False by (cases s) auto
      then have "strspn_loop (s @ 0 # j) (t @ 0 # r) = drop (k' + k) s @ 0 # j" for j r
        using in_set_same [OF assms(2), of s j r "[]" "[]"] False k(3) k'(2)
        by (subst strspn_loop.simps) simp
      then show ?thesis using k' k(2) by (intro exI [of _ "k' + k"]) simp
    qed
  next
    case 2
    show ?case
    proof (cases "s = [] \<or> in_set_loop (s @ 0 # []) (t @ 0 # [])")
      case True
      then have "strcspn_loop (s @ 0 # j) (t @ 0 # r) = drop 0 s @ 0 # j" for j r
        using in_set_same [OF assms(2), of s j r "[]" "[]"] by (subst strcspn_loop.simps) auto
      then show ?thesis by blast
    next
      case False
      then obtain k where k: "0 < k" "k \<le> length s" "\<And>j. LDAP_UTF8_NEXT (s @ 0 # j) = drop k s @ 0 # j"
        using NEXT_same [of s] by blast
      obtain k' where k': "k' \<le> length (drop k s)"
          "\<forall>j r. strcspn_loop (drop k s @ 0 # j) (t @ 0 # r) = drop k' (drop k s) @ 0 # j"
        using less(2) [of "drop k s"] k 2 False by (auto dest: in_set_dropD)
      have "octet_at (s @ 0 # j) 0 \<noteq> 0" for j using 2 False by (cases s) auto
      then have "strcspn_loop (s @ 0 # j) (t @ 0 # r) = drop (k' + k) s @ 0 # j" for j r
        using in_set_same [OF assms(2), of s j r "[]" "[]"] False k(3) k'(2)
        by (subst strcspn_loop.simps) simp
      then show ?thesis using k' k(2) by (intro exI [of _ "k' + k"]) simp
    qed
  next
    case 3
    show ?case
    proof (cases "s = []")
      case True
      then have "chars_loop (s @ 0 # j) i = i + 0" for j i by (subst chars_loop.simps) simp
      then show ?thesis by blast
    next
      case False
      then obtain k where k: "0 < k" "k \<le> length s" "\<And>j. LDAP_UTF8_NEXT (s @ 0 # j) = drop k s @ 0 # j"
        using NEXT_same [of s] by blast
      obtain n where n: "\<forall>j i. chars_loop (drop k s @ 0 # j) i = i + n"
        using less(3) [of "drop k s"] k 3 False by (auto dest: in_set_dropD)
      have "octet_at (s @ 0 # j) 0 \<noteq> 0" for j using 3 False by (cases s) auto
      then have "chars_loop (s @ 0 # j) i = i + Suc n" for j i using k(3) n by (subst chars_loop.simps) simp
      then show ?thesis by blast
    qed
  }
qed

text \<open>
  C29: the UTF-8 routines never depend on what lies behind the terminator of a string.
  For arbitrary octets before the first 0, malformed sequences included, decoding, stepping,
  counting and the span functions give results that are the same for every contents of the memory after the
  strings, and the pointers they reach stay inside the string or at its terminator.
\<close>

theorem utf8_stops_at_terminator:
  assumes "0 \<notin> set s" and "0 \<notin> set t"
  shows "\<exists>u n k k'. k \<le> length s \<and> k' \<le> length s \<and> (\<forall>j r.
       ldap_x_utf8_to_ucs4 (s @ 0 # j) = u \<and> ldap_utf8_chars (s @ 0 # j) = n
     \<and> ldap_utf8_bytes (s @ 0 # j) = length s
     \<and> ldap_utf8_strspn (s @ 0 # j) (t @ 0 # r) = k \<and> ldap_utf8_strcspn (s @ 0 # j) (t @ 0 # r) = k'
     \<and> ldap_utf8_offset (s @ 0 # j) \<le> max 1 (length s))"
proof -
  obtain k where k: "k \<le> length s" "\<forall>j r. strspn_loop (s @ 0 # j) (t @ 0 # r) = drop k s @ 0 # j"
    using span_same(1) [OF assms] by blast
  obtain k' where k': "k' \<le> length s" "\<forall>j r. strcspn_loop (s @ 0 # j) (t @ 0 # r) = drop k' s @ 0 # j"
    using span_same(2) [OF assms] by blast
  obtain n where n: "\<forall>j i. chars_loop (s @ 0 # j) i = i + n" using span_same(3) [OF assms] by blast
  have off: "ldap_utf8_offset (s @ 0 # j) \<le> max 1 (length s)" for j
  proof (cases "s = []")
    case True
    then show ?thesis by (simp add: ldap_utf8_offset_def LDAP_UTF8_NEXT_def ISASCII_iff ptr_diff_def)
  next
    case False
    then obtain q where "q \<le> length s" "\<And>j. LDAP_UTF8_NEXT (s @ 0 # j) = drop q s @ 0 # j"
      using NEXT_same [of s] by blast
    then show ?thesis by (simp add: ldap_utf8_offset_def ptr_diff_def)
  qed
  show ?thesis using k k' n off decode_same [of s _ "[]"] bytes_run [OF assms(1), of 0]
    by (intro exI [of _ "ldap_x_utf8_to_ucs4 (s @ 0 # [])"] exI [of _ n] exI [of _ k] exI [of _ k'])
      (simp add: ldap_utf8_chars_def ldap_utf8_bytes_def ldap_utf8_strspn_def ldap_utf8_strcspn_def ptr_diff_def)
qed

theorem utf8_stops_at_terminator_witness:
  "\<exists>u n k k'. k \<le> length [0xe2, 0x82 :: byte] \<and> k' \<le> length [0xe2, 0x82 :: byte] \<and> (\<forall>j r.
       ldap_x_utf8_to_ucs4 ([0xe2, 0x82] @ 0 # j) = u \<and> ldap_utf8_chars ([0xe2, 0x82] @ 0 # j) = n
     \<and> ldap_utf8_bytes ([0xe2, 0x82] @ 0 # j) = length [0xe2, 0x82 :: byte]
     \<and> ldap_utf8_strspn ([0xe2, 0x82] @ 0 # j) ([0xff] @ 0 # r) = k
     \<and> ldap_utf8_strcspn ([0xe2, 0x82] @ 0 # j) ([0xff] @ 0 # r) = k'
     \<and> ldap_utf8_offset ([0xe2, 0x82] @ 0 # j) \<le> max 1 (length [0xe2, 0x82 :: byte]))"
  by (rule utf8_stops_at_terminator) simp_all


section \<open>Stepping back and copying\<close>

lemma prev_loop_run:
  assumes "\<And>j. i \<le> j \<Longrightarrow> j < i + k \<Longrightarrow> cont_at m (p - j)" and "i + k \<le> 6" and "i + k \<le> p"
    and "i + k < 6 \<Longrightarrow> \<not> cont_at m (p - (i + k))"
  shows "prev_loop m p i = Some (p - (i + k))"
  using assms
proof (induction k arbitrary: i)
  case 0
  then show ?case by (subst prev_loop.simps) (auto simp: cont_at_iff)
next
  case (Suc k)
  have "prev_loop m p i = prev_loop m p (Suc i)"
    using Suc.prems(1) [of i] Suc.prems(2,3) by (subst prev_loop.simps) (simp add: cont_at_iff)
  also have "\<dots> = Some (p - (Suc i + k))" using Suc.prems by (intro Suc.IH) auto
  finally show ?case by simp
qed

lemma prev_char:
  assumes c: "0 \<le> c" "c < 2 ^ 31"
  shows "ldap_utf8_prev (pre @ utf8_enc c @ rest) (length pre + length (utf8_enc c)) = Some (length pre)"
proof -
  obtain b k where e: "utf8_enc c = b # utf8_tail k c" and k: "k < 6" "k = 0 \<longrightarrow> uint b = c \<and> c < 0x80"
    "0 < k \<longrightarrow> 0xc0 \<le> uint b"
    using utf8_enc_shape [OF c] by metis
  let ?m = "pre @ utf8_enc c @ rest" and ?p = "length pre + length (utf8_enc c)"
  have at: "octet_at ?m (length pre + Suc j) = utf8_tail k c ! j" if "j < k" for j
    using that by (simp add: e octet_at_def nth_append)
  have lead: "octet_at ?m (length pre) = b" by (simp add: e octet_at_def nth_append)
  have "prev_loop ?m ?p 1 = Some (?p - (1 + k))"
  proof (rule prev_loop_run)
    fix j assume j: "1 \<le> j" "j < 1 + k"
    have "?p - j = length pre + Suc (k - j)" using j by (simp add: e)
    then show "cont_at ?m (?p - j)"
      using j at [of "k - j"] utf8_tail_cont [of "utf8_tail k c ! (k - j)" k c] by simp
  next
    have "?p - (1 + k) = length pre" by (simp add: e)
    then show "\<not> cont_at ?m (?p - (1 + k))" using k lead by (cases "k = 0") auto
  qed (use k in \<open>simp_all add: e\<close>)
  then show ?thesis by (simp add: ldap_utf8_prev_def e)
qed

lemma copy_loop_next:
  "copy_loop src i dst = (next_loop src i, dst @ map (octet_at src) [i..<next_loop src i])"
proof (induction src i dst rule: copy_loop.induct)
  case (1 src i dst)
  show ?case
  proof (cases "i < 6 \<and> octet_at src i AND 0xc0 = 0x80")
    case True
    then have n: "next_loop src i = next_loop src (Suc i)" by (subst next_loop.simps) simp
    have "[i..<next_loop src (Suc i)] = i # [Suc i..<next_loop src (Suc i)]"
      using next_loop_ge [of "Suc i" src] by (simp add: upt_conv_Cons)
    then show ?thesis using 1 True n by (subst copy_loop.simps) simp
  next
    case False
    then have "next_loop src i = i" by (subst next_loop.simps) auto
    then show ?thesis using False by (subst copy_loop.simps) auto
  qed
qed

lemma copy_char:
  assumes c: "0 \<le> c" "c < 2 ^ 31" and r: "\<not> cont_at rest 0"
  shows "ldap_utf8_copy (utf8_enc c @ rest) = (length (utf8_enc c), utf8_enc c)"
proof -
  let ?p = "utf8_enc c @ rest"
  define n where "n = (if LDAP_UTF8_ISASCII ?p then 1 else next_loop ?p 1)"
  have n1: "1 \<le> n" using next_loop_ge [of 1 ?p] by (simp add: n_def)
  have n: "n = length (utf8_enc c)" using char_octets [OF c r] by (simp add: n_def)
  have "ldap_utf8_copy ?p = (n, octet_at ?p 0 # map (octet_at ?p) [1..<n])"
    by (simp add: ldap_utf8_copy_def n_def copy_loop_next)
  also have "octet_at ?p 0 # map (octet_at ?p) [1..<n] = map (octet_at ?p) [0..<n]"
    using n1 by (simp add: upt_conv_Cons)
  also have "\<dots> = utf8_enc c" using n by (simp add: map_octet_at_take)
  finally show ?thesis using n by simp
qed


text \<open>
  C30: stepping forward, stepping back and copying agree on where a character of encoded text
  ends.  In memory that holds the characters \<open>cs @ c # ds\<close>, \<^verbatim>\<open>ldap_utf8_offset\<close> at \<open>c\<close> is the
  length of its encoding, \<^verbatim>\<open>ldap_utf8_prev\<close> from the next character leads back to \<open>c\<close>, and
  \<^verbatim>\<open>ldap_utf8_copy\<close> copies exactly its octets.
\<close>

theorem utf8_next_prev_copy:
  assumes "utf8_chars_ok (cs @ c # ds)"
  shows "let m = utf8_text (cs @ c # ds) @ 0 # junk; p = length (utf8_text cs); q = p + length (utf8_enc c)
     in ldap_utf8_offset (drop p m) = q - p \<and> ldap_utf8_prev m q = Some p
      \<and> ldap_utf8_copy (drop p m) = (q - p, utf8_enc c)"
proof -
  have c: "0 \<le> c" "c < 2 ^ 31" "0 < c" and ds: "utf8_chars_ok ds" "utf8_chars_ok (c # ds)"
    using assms by (auto simp: utf8_chars_ok_def)
  show ?thesis
    using copy_char [OF c(1,2) text_starts_char [OF ds(1), of junk]] NEXT_text [OF ds(2), of junk]
      prev_char [OF c(1,2), of "utf8_text cs" "utf8_text ds @ 0 # junk"]
    by (simp add: Let_def ldap_utf8_offset_def ptr_diff_def)
qed

theorem utf8_next_prev_copy_witness:
  "let m = utf8_text ([0x61] @ 0x20ac # [0x62]) @ 0 # []; p = length (utf8_text [0x61]); q = p + length (utf8_enc 0x20ac)
     in ldap_utf8_offset (drop p m) = q - p \<and> ldap_utf8_prev m q = Some p
      \<and> ldap_utf8_copy (drop p m) = (q - p, utf8_enc 0x20ac)"
  by (rule utf8_next_prev_copy) simp

section \<open>Fixed-width strings\<close>

text \<open>A character in network byte order, and a whole string of them.\<close>

definition ucs_octets :: "nat \<Rightarrow> int \<Rightarrow> byte list" where
  "ucs_octets csize w = map (\<lambda>i. wb (w div 256 ^ i)) (rev [0..<csize])"

definition ucs_string :: "nat \<Rightarrow> int list \<Rightarrow> byte list" where
  "ucs_string csize ws = concat (map (ucs_octets csize) ws)"

definition ucs_ok :: "nat \<Rightarrow> int list \<Rightarrow> bool" where
  "ucs_ok csize ws \<longleftrightarrow> (\<forall>w\<in>set ws. 0 \<le> w \<and> w < 256 ^ csize)"

lemma length_ucs_octets [simp]: "length (ucs_octets csize w) = csize"
  by (simp add: ucs_octets_def)

lemma length_ucs_string [simp]: "length (ucs_string csize ws) = csize * length ws"
  by (induction ws) (simp_all add: ucs_string_def)

lemma uint_wb_mod: "uint (wb x) = x mod 256"
  by (simp add: wb_def uint_word_of_int)

lemma to_ucs4_small: "0 \<le> x \<Longrightarrow> x < 2 ^ 31 \<Longrightarrow> to_ucs4 x = x"
  by (simp add: to_ucs4_def signed_take_bit_int_eq_self)

lemma shift_in_8:
  assumes "0 \<le> b" and "b < 256"
  shows "to_ucs4 (push_bit 8 u) OR b = to_ucs4 (u * 256 + b)"
proof -
  have "to_ucs4 (push_bit 8 u) OR b = to_ucs4 (push_bit 8 u) OR to_ucs4 b" using assms by (simp add: to_ucs4_small)
  also have "\<dots> = to_ucs4 (push_bit 8 u OR b)" 
    unfolding to_ucs4_def by (rule bit_eqI) (auto simp: bit_or_iff bit_signed_take_bit_iff)
  also have "push_bit 8 u OR b = u * 256 + b"
    using assms or_add_disjoint [of 8 "push_bit 8 u" b] by (simp add: push_bit_eq_mult)
  finally show ?thesis .
qed

lemma ucs_next_char:
  assumes "csize \<in> {1, 2, 4}" and "0 \<le> w" and "w < 256 ^ csize"
  shows "ucs_next csize (ucs_octets csize w @ rest) = (to_ucs4 w, rest)"
proof -
  have m: "0 \<le> x mod 256" "x mod 256 < 256" for x :: int by simp_all
  note shift = shift_in_8 [OF m]
  consider "csize = 1" | "csize = 2" | "csize = 4" using assms(1) by blast
  then show ?thesis
  proof cases
    case 1
    then show ?thesis using assms
      by (simp add: ucs_next_def ucs_octets_def uint_wb_mod to_ucs4_small)
  next
    case 2
    have "w div 256 * 256 + w mod 256 = w" by simp
    then show ?thesis using assms 2
      by (simp add: ucs_next_def ucs_octets_def uint_wb_mod shift numeral_2_eq_2)
  next
    case 4: 3
    have d: "w div 16777216 mod 256 = w div 16777216" using assms 4 by (intro mod_pos_pos_trivial) auto
    have e: "w div 16777216 * 256 + w div 65536 mod 256 = w div 65536"
      "w div 65536 * 256 + w div 256 mod 256 = w div 256" "w div 256 * 256 + w mod 256 = w"
      using zdiv_zmult2_eq [of 256 w 65536] zdiv_zmult2_eq [of 256 w 256] by (simp_all add: div_mult_mod_eq)
    have s: "to_ucs4 (w div 65536) = w div 65536" "to_ucs4 (w div 256) = w div 256"
      using assms 4 by (simp_all add: to_ucs4_small)
    have u: "rev [0..<4] = [3, 2, 1, 0]" by (simp add: upt_rec)
    show ?thesis using 4
      by (simp add: ucs_next_def ucs_octets_def uint_wb_mod shift d e s u Let_def del: push_bit_or)
  qed
qed


lemma to_ucs4_range:
  assumes "0 \<le> w" and "w < 2 ^ 32"
  shows "to_ucs4 w = (if w < 2 ^ 31 then w else w - 2 ^ 32)"
proof (cases "w < 2 ^ 31")
  case True
  then show ?thesis using assms by (simp add: to_ucs4_small)
next
  case False
  have "to_ucs4 w = to_ucs4 (w - 2 ^ 32)"
    unfolding to_ucs4_def signed_take_bit_eq_iff_take_bit_eq by (simp add: take_bit_eq_mod mod_diff_eq [symmetric])
  also have "\<dots> = w - 2 ^ 32"
    using assms False by (simp add: to_ucs4_def signed_take_bit_int_eq_self)
  finally show ?thesis using False by simp
qed

lemma ucs_string_Cons [simp]: "ucs_string csize (w # ws) = ucs_octets csize w @ ucs_string csize ws"
  by (simp add: ucs_string_def)

lemma UTF8LEN_0: "LDAP_UCS_UTF8LEN u = 0 \<longleftrightarrow> u < 0"
  by (simp add: LDAP_UCS_UTF8LEN_def)

lemma width_bound: "csize \<in> {1, 2, 4} \<Longrightarrow> w < 256 ^ csize \<Longrightarrow> w < (2 :: int) ^ 32"
  by auto

lemma ucs_loops:
  assumes "csize \<in> {1, 2, 4}" and "ucs_ok csize ws"
  shows "ucs_len_loop csize (ucs_string csize ws) (c_to_int l)
      = (if \<forall>w\<in>set ws. w < 2 ^ 31 then Some (c_to_int (l + int (length (utf8_text ws)))) else None)"
    and "\<forall>w\<in>set ws. w < 2 ^ 31 \<Longrightarrow> ucs_put_loop csize (ucs_string csize ws) = utf8_text ws"
  using assms(2)
proof (induction ws arbitrary: l)
  case Nil
  { case 1 show ?case by (subst ucs_len_loop.simps) (simp add: ucs_string_def) }
  { case 2 show ?case by (subst ucs_put_loop.simps) (simp add: ucs_string_def) }
next
  case (Cons w ws)
  have "0 < length (ucs_octets csize w)" using assms(1) by auto
  then have ne: "ucs_octets csize w \<noteq> []" by (rule length_greater_0_conv [THEN iffD1])
  {
    case 1
    have w: "0 \<le> w" "w < 256 ^ csize" and ok: "ucs_ok csize ws" using 1 by (auto simp: ucs_ok_def)
    note nxt = ucs_next_char [OF assms(1) w, of "ucs_string csize ws"]
    have u: "to_ucs4 w = (if w < 2 ^ 31 then w else w - 2 ^ 32)" "w < 2 ^ 32"
      using to_ucs4_range [OF w(1)] width_bound [OF assms(1) w(2)] by simp_all
    show ?case
    proof (cases "w < 2 ^ 31")
      case True
      then have "ucs_len_loop csize (ucs_string csize (w # ws)) (c_to_int l)
          = ucs_len_loop csize (ucs_string csize ws) (c_to_int (l + int (LDAP_UCS_UTF8LEN w)))"
        using ne nxt u w(1) by (subst ucs_len_loop.simps) (simp add: UTF8LEN_0 Let_def c_to_int_add)
      also have "\<dots> = (if \<forall>w\<in>set ws. w < 2 ^ 31
          then Some (c_to_int (l + int (LDAP_UCS_UTF8LEN w) + int (length (utf8_text ws)))) else None)"
        by (rule Cons(1) [OF ok])
      finally show ?thesis using True length_utf8_enc [OF w(1)] by (simp add: add.assoc)
    next
      case False
      then show ?thesis using ne nxt u by (subst ucs_len_loop.simps) (simp add: UTF8LEN_0)
    qed
  next
    case 2
    have w: "0 \<le> w" "w < 256 ^ csize" and ok: "ucs_ok csize ws" using 2 by (auto simp: ucs_ok_def)
    note nxt = ucs_next_char [OF assms(1) w, of "ucs_string csize ws"]
    show ?case using ne nxt 2 w Cons(2) [OF _ ok]
      by (subst ucs_put_loop.simps) (simp add: to_ucs4_small utf8_enc_def)
  }
qed

lemma and_not_low:
  assumes "csize \<in> {1, 2, 4}"
  shows "int n AND NOT (int csize - 1) = int (n - n mod csize)"
proof -
  have "int n AND NOT (mask k) = int (n - n mod 2 ^ k)" for k
  proof -
    have "int n AND NOT (mask k) = push_bit k (drop_bit k (int n))"
      by (rule bit_eqI) (auto simp: bit_simps)
    also have "\<dots> = int (n div 2 ^ k * 2 ^ k)"
      by (simp add: push_bit_eq_mult drop_bit_eq_div zdiv_int)
    finally show ?thesis by (simp add: minus_mod_eq_div_mult)
  qed
  from this [of 0] this [of 1] this [of 2] show ?thesis using assms by (auto simp: mask_eq_exp_minus_1)
qed

text \<open>
  C31: \<^verbatim>\<open>ldap_ucs_to_utf8s\<close> converts strings of 1, 2 or 4 octets per character.  For every
  sequence of characters of that width in network byte order, followed by fewer octets than a character needs,
  it refuses the string with \<^verbatim>\<open>LDAP_INVALID_SYNTAX\<close> exactly when some character needs the sign bit,
  and otherwise (memory permitting) returns the concatenation of the UTF-8 encodings,
  0-terminated, with the right length: the length loop and the store loop agree, and nothing is stored
  behind the end of the block.  The encoding has fewer than \<open>2 ^ 31 - 1\<close> octets, which the \<^verbatim>\<open>int\<close>
  length can count.
\<close>

theorem ldap_ucs_to_utf8s_converts:
  assumes "csize \<in> {1, 2, 4}" and "ucs_ok csize ws" and "length extra < csize"
    and "length (utf8_text ws) < 2 ^ 31 - 1"
  shows "ldap_ucs_to_utf8s ma (ucs_string csize ws @ extra) csize = Some
     (if \<not> (\<forall>w\<in>set ws. w < 2 ^ 31) then (LDAP_INVALID_SYNTAX, None, 0)
      else if \<not> ma (length (utf8_text ws) + 1) then (LDAP_NO_MEMORY, None, 0)
      else (LDAP_SUCCESS, Some (utf8_text ws @ [0]), of_nat (length (utf8_text ws))))"
proof -
  let ?u = "ucs_string csize ws @ extra"
  have "length ?u mod csize = length extra" using assms(3) by (simp add: mod_mult_self4)
  then have "take (nat (int (length ?u) AND NOT (int csize - 1))) ?u = ucs_string csize ws"
    by (subst and_not_low [OF assms(1)]) (simp add: nat_mult_distrib)
  moreover have "unat (of_int (c_to_int (int (length (utf8_text ws)) + 1)) :: ber_len_t) = length (utf8_text ws) + 1"
    using assms(4) unat_of_nat64 [of "length (utf8_text ws) + 1"] by (simp add: c_to_int_id add.commute)
  moreover have "c_to_int (int (length (utf8_text ws))) = int (length (utf8_text ws))" "c_to_int 0 = 0"
    using assms(4) by (simp_all add: c_to_int_id)
  ultimately show ?thesis using ucs_loops [OF assms(1,2)] ucs_loops(1) [OF assms(1,2), of 0]
    by (simp add: ldap_ucs_to_utf8s_def Let_def ber_memalloc_x_def)
qed

theorem ldap_ucs_to_utf8s_converts_witness:
  "ldap_ucs_to_utf8s (\<lambda>n. True) (ucs_string 2 [0x41, 0x20ac] @ [9]) 2 = Some
     (if \<not> (\<forall>w\<in>set [0x41, 0x20ac]. w < (2 :: int) ^ 31) then (LDAP_INVALID_SYNTAX, None, 0)
      else if \<not> True then (LDAP_NO_MEMORY, None, 0)
      else (LDAP_SUCCESS, Some (utf8_text [0x41, 0x20ac] @ [0]), of_nat (length (utf8_text [0x41, 0x20ac]))))"
proof -
  have "length (utf8_text [0x41, 0x20ac]) = 4" by code_simp
  then show ?thesis by (intro ldap_ucs_to_utf8s_converts) (simp_all add: ucs_ok_def)
qed

end
