(* ===== verification/Utf8_Conv.thy ===== *)
theory Utf8_Conv
  imports Utf8_Strings
begin

text \<open>
  The wide-character and multibyte conversions of \<^verbatim>\<open>libldap/utf-8-conv.c\<close>.  A \<^verbatim>\<open>wchar_t\<close> is a
  signed 32-bit integer (\<^verbatim>\<open>SIZEOF_WCHAR_T = 4\<close>), an \<open>int\<close> in the model; a wide string is the list
  of its characters from the pointer on, its terminating 0 and what lies behind included.  Output buffers are lists
  that are updated in place; a NULL buffer or string is \<open>None\<close>.  Lengths are \<^verbatim>\<open>size_t\<close> or pointer
  differences inside the functions and are converted to \<^verbatim>\<open>int\<close> when they are returned.  The C library's \<^verbatim>\<open>wctomb\<close>,
  \<^verbatim>\<open>wcstombs\<close>, \<^verbatim>\<open>mbtowc\<close> and \<^verbatim>\<open>mbstowcs\<close>, which a caller may replace, are arguments.
\<close>

abbreviation (input) LDAP_MAX_UTF8_LEN :: nat where "LDAP_MAX_UTF8_LEN \<equiv> 6"

section \<open>Single characters\<close>

text \<open>The length (\<open>-1\<close>: error) and what is stored in \<^verbatim>\<open>*wchar\<close>, if \<open>wchar\<close> is not NULL.\<close>

definition ldap_x_utf8_to_wc :: "bool \<Rightarrow> byte list option \<Rightarrow> int \<times> int option" where
  "ldap_x_utf8_to_wc wchar utf8char =
     (case utf8char of
        None \<Rightarrow> (-1, None)
      | Some u \<Rightarrow>
          let utflen = LDAP_UTF8_CHARLEN2 u
          in if utflen = 0 \<or> utflen > LDAP_MAX_UTF8_LEN then (-1, None)
             else case continuation_loop u utflen 1 (uint (octet_at u 0 AND utf8_mask ! utflen)) of
                    None \<Rightarrow> (-1, None)
                  | Some ch \<Rightarrow> (int utflen, if wchar then Some ch else None))"

text \<open>The length (\<open>-1\<close>: error, 0: does not fit) and the octets stored.\<close>

definition ldap_x_wc_to_utf8 :: "bool \<Rightarrow> int \<Rightarrow> nat \<Rightarrow> int \<times> byte list" where
  "ldap_x_wc_to_utf8 utf8char wchar count =
     (let oct = (\<lambda>x. word_of_int x :: byte)
      in if \<not> utf8char then
           (if wchar < 0 then (-1, []) else if wchar < 0x80 then (1, []) else if wchar < 0x800 then (2, [])
            else if wchar < 0x10000 then (3, []) else if wchar < 0x200000 then (4, [])
            else if wchar < 0x4000000 then (5, []) else (6, []))
         else if wchar < 0 then (-1, [])
         else if wchar < 0x80 then
           (if count \<ge> 1 then (1, [oct wchar]) else (0, []))
         else if wchar < 0x800 then
           (if count \<ge> 2
            then (2, [oct (0xc0 OR drop_bit 6 wchar), oct (0x80 OR (wchar AND 0x3f))]) else (0, []))
         else if wchar < 0x10000 then
           (if count \<ge> 3
            then (3, [oct (0xe0 OR drop_bit 12 wchar), oct (0x80 OR (drop_bit 6 wchar AND 0x3f)),
                      oct (0x80 OR (wchar AND 0x3f))]) else (0, []))
         else if wchar < 0x200000 then
           (if count \<ge> 4
            then (4, [oct (0xf0 OR drop_bit 18 wchar), oct (0x80 OR (drop_bit 12 wchar AND 0x3f)),
                      oct (0x80 OR (drop_bit 6 wchar AND 0x3f)), oct (0x80 OR (wchar AND 0x3f))]) else (0, []))
         else if wchar < 0x4000000 then
           (if count \<ge> 5
            then (5, [oct (0xf8 OR drop_bit 24 wchar), oct (0x80 OR (drop_bit 18 wchar AND 0x3f)),
                      oct (0x80 OR (drop_bit 12 wchar AND 0x3f)), oct (0x80 OR (drop_bit 6 wchar AND 0x3f)),
                      oct (0x80 OR (wchar AND 0x3f))]) else (0, []))
         else
           (if count \<ge> 6
            then (6, [oct (0xfc OR drop_bit 30 wchar), oct (0x80 OR (drop_bit 24 wchar AND 0x3f)),
                      oct (0x80 OR (drop_bit 18 wchar AND 0x3f)), oct (0x80 OR (drop_bit 12 wchar AND 0x3f)),
                      oct (0x80 OR (drop_bit 6 wchar AND 0x3f)), oct (0x80 OR (wchar AND 0x3f))]) else (0, [])))"

section \<open>Strings\<close>

text \<open>The loop of \<^verbatim>\<open>ldap_x_utf8s_to_wcs\<close>: \<open>None\<close> on a bad character, else \<^verbatim>\<open>wclen\<close> and the buffer.\<close>

function utf8s_to_wcs_loop :: "int list option \<Rightarrow> byte list \<Rightarrow> nat \<Rightarrow> nat \<Rightarrow> (nat \<times> int list option) option" where
  "utf8s_to_wcs_loop wcstr utf8str count wclen =
     (if octet_at utf8str 0 \<noteq> 0 \<and> (wcstr = None \<or> wclen < count) then
        let utflen = LDAP_UTF8_CHARLEN2 utf8str
        in if utflen = 0 \<or> utflen > LDAP_MAX_UTF8_LEN then None
           else case continuation_loop utf8str utflen 1 (uint (octet_at utf8str 0 AND utf8_mask ! utflen)) of
                  None \<Rightarrow> None
                | Some ch \<Rightarrow>
                    utf8s_to_wcs_loop (map_option (\<lambda>w. w[wclen := ch]) wcstr) (drop utflen utf8str) count (wclen + 1)
      else Some (wclen, wcstr))"
  by pat_completeness auto
termination
  by (relation "measure (\<lambda>(wcstr, utf8str, count, wclen). length utf8str)")
    (auto simp: octet_at_0_nonempty)

declare utf8s_to_wcs_loop.simps [simp del]

definition ldap_x_utf8s_to_wcs :: "int list option \<Rightarrow> byte list option \<Rightarrow> nat \<Rightarrow> int \<times> int list option" where
  "ldap_x_utf8s_to_wcs wcstr utf8str count =
     (case utf8str of
        None \<Rightarrow> (0, map_option (\<lambda>w. w[0 := 0]) wcstr)
      | Some u \<Rightarrow>
          if octet_at u 0 = 0 then (0, map_option (\<lambda>w. w[0 := 0]) wcstr)
          else case utf8s_to_wcs_loop wcstr u count 0 of
                 None \<Rightarrow> (-1, wcstr)
               | Some (wclen, wcstr) \<Rightarrow>
                   (c_to_int (int wclen), map_option (\<lambda>w. if wclen < count then w[wclen := 0] else w) wcstr))"

definition wide_at :: "int list \<Rightarrow> int" where
  "wide_at w = (case w of [] \<Rightarrow> 0 | c # cs \<Rightarrow> c)"

text \<open>The loop that only measures (\<open>-1\<close>: bad character); the \<^verbatim>\<open>int\<close> \<open>len\<close> wraps around.\<close>

fun wcs_len_loop :: "int list \<Rightarrow> int \<Rightarrow> int" where
  "wcs_len_loop [] len = len"
| "wcs_len_loop (w # wcstr) len =
     (if w = 0 then len
      else let n = fst (ldap_x_wc_to_utf8 False w LDAP_MAX_UTF8_LEN)
           in if n = -1 then -1 else wcs_len_loop wcstr (c_to_int (len + n)))"

text \<open>The loop that converts: the last \<^verbatim>\<open>n\<close>, the buffer, the offset of \<^verbatim>\<open>p\<close> and the space left.\<close>

fun wcs_conv_loop :: "byte list \<Rightarrow> nat \<Rightarrow> int list \<Rightarrow> nat \<Rightarrow> int \<Rightarrow> int \<times> byte list \<times> nat \<times> nat" where
  "wcs_conv_loop buf p [] count n = (n, buf, p, count)"
| "wcs_conv_loop buf p (w # wcstr) count n =
     (if w = 0 then (n, buf, p, count)
      else case ldap_x_wc_to_utf8 True w count of
             (n, bs) \<Rightarrow>
               if n \<le> 0 then (n, memcpy buf p bs, p, count)
               else wcs_conv_loop (memcpy buf p bs) (p + nat n) wcstr (count - nat n) n)"

definition ldap_x_wcs_to_utf8s :: "byte list option \<Rightarrow> int list option \<Rightarrow> nat \<Rightarrow> int \<times> byte list option" where
  "ldap_x_wcs_to_utf8s utf8str wcstr count =
     (let wcstr = (case wcstr of None \<Rightarrow> [0] | Some w \<Rightarrow> w)
      in case utf8str of
           None \<Rightarrow> (wcs_len_loop wcstr 0, None)
         | Some buf \<Rightarrow>
             (case wcs_conv_loop buf 0 wcstr count 1 of
                (n, buf, p, count) \<Rightarrow>
                  let (buf, p) =
                        (if n = 0 then (memcpy buf p (replicate count 0), p + count)
                         else if count \<noteq> 0 then (buf[p := 0], p)
                         else (buf, p))
                  in (if n = -1 then -1 else c_to_int (int p), Some buf)))"

section \<open>Multibyte strings\<close>

text \<open>
  \<^verbatim>\<open>f_wctomb\<close> stores octets and returns an \<^verbatim>\<open>int\<close>; \<^verbatim>\<open>wctomb\<close> is the C library's.  The result is
  the value returned and what is stored in \<^verbatim>\<open>mbchar\<close>, if it is not NULL.
\<close>

definition ldap_x_utf8_to_mb ::
  "(int \<Rightarrow> int \<times> byte list) \<Rightarrow> bool \<Rightarrow> byte list option \<Rightarrow> (int \<Rightarrow> int \<times> byte list) option \<Rightarrow> int \<times> byte list option" where
  "ldap_x_utf8_to_mb wctomb mbchar utf8char f_wctomb =
     (let f_wctomb = (case f_wctomb of None \<Rightarrow> wctomb | Some f \<Rightarrow> f)
      in case ldap_x_utf8_to_wc True utf8char of
           (n, w) \<Rightarrow>
             if n = -1 then (-1, None)
             else case f_wctomb (the w) of (n, bs) \<Rightarrow> (n, if mbchar then Some bs else None))"

text \<open>
  \<^verbatim>\<open>f_wcstombs\<close> gets the buffer, the wide string and the count; its \<^verbatim>\<open>size_t\<close> result (\<open>-1\<close> for
  \<^verbatim>\<open>(size_t) -1\<close>) is assigned to an \<^verbatim>\<open>int\<close>.  \<open>fresh n\<close> is the contents of a
  new block of \<open>n\<close> wide characters.
\<close>

type_synonym f_wcstombs = "byte list option \<Rightarrow> int list \<Rightarrow> nat \<Rightarrow> int \<times> byte list option"

definition ldap_x_utf8s_to_mbs ::
  "f_wcstombs \<Rightarrow> allocator \<Rightarrow> (nat \<Rightarrow> int list) \<Rightarrow> byte list option \<Rightarrow> byte list option \<Rightarrow> nat \<Rightarrow> f_wcstombs option \<Rightarrow>
   int \<times> byte list option" where
  "ldap_x_utf8s_to_mbs wcstombs ma fresh mbstr utf8str count f_wcstombs =
     (let f_wcstombs = (case f_wcstombs of None \<Rightarrow> wcstombs | Some f \<Rightarrow> f)
      in case utf8str of
           None \<Rightarrow> (0, map_option (\<lambda>b. b[0 := 0]) mbstr)
         | Some u \<Rightarrow>
             if octet_at u 0 = 0 then (0, map_option (\<lambda>b. b[0 := 0]) mbstr)
             else let wcsize = ldap_utf8_bytes u + 1
                  in if \<not> ber_memalloc_x ma (wcsize * 4) then (-1, mbstr)
                     else case ldap_x_utf8s_to_wcs (Some (fresh wcsize)) (Some u) wcsize of
                            (n, wcs) \<Rightarrow> if n \<noteq> -1 then map_prod c_to_int (\<lambda>b. b) (f_wcstombs mbstr (the wcs) count)
                                        else (n, mbstr))"

definition ldap_x_mb_to_utf8 ::
  "(byte list \<Rightarrow> nat \<Rightarrow> int \<times> int) \<Rightarrow> bool \<Rightarrow> byte list option \<Rightarrow> nat \<Rightarrow> (byte list \<Rightarrow> nat \<Rightarrow> int \<times> int) option \<Rightarrow>
   int \<times> byte list" where
  "ldap_x_mb_to_utf8 mbtowc utf8char mbchar mbsize f_mbtowc =
     (let f_mbtowc = (case f_mbtowc of None \<Rightarrow> mbtowc | Some f \<Rightarrow> f)
      in if mbsize = 0 then (-1, [])
         else if mbchar = None \<or> octet_at (the mbchar) 0 = 0 then (1, if utf8char then [0] else [])
         else case f_mbtowc (the mbchar) mbsize of
                (n, w) \<Rightarrow> if n = -1 then (-1, []) else ldap_x_wc_to_utf8 utf8char w LDAP_MAX_UTF8_LEN)"

type_synonym f_mbstowcs = "int list \<Rightarrow> byte list \<Rightarrow> nat \<Rightarrow> int \<times> int list"

definition ldap_x_mbs_to_utf8s ::
  "f_mbstowcs \<Rightarrow> allocator \<Rightarrow> (nat \<Rightarrow> int list) \<Rightarrow> byte list option \<Rightarrow> byte list option \<Rightarrow> nat \<Rightarrow> f_mbstowcs option \<Rightarrow>
   int \<times> byte list option" where
  "ldap_x_mbs_to_utf8s mbstowcs ma fresh utf8str mbstr count f_mbstowcs =
     (let mbstr = (case mbstr of None \<Rightarrow> [0] | Some m \<Rightarrow> m);
          f_mbstowcs = (case f_mbstowcs of None \<Rightarrow> mbstowcs | Some f \<Rightarrow> f);
          wcsize = ldap_utf8_bytes mbstr + 1
      in if \<not> ber_memalloc_x ma (wcsize * 4) then (-1, utf8str)
         else case f_mbstowcs (fresh wcsize) mbstr wcsize of
                (r, wcs) \<Rightarrow> let n = c_to_int r
                           in if n \<noteq> -1 then ldap_x_wcs_to_utf8s utf8str (Some wcs) count else (n, utf8str))"

section \<open>Lemmas\<close>

lemma wc_to_utf8_spec:
  assumes "w < 2 ^ 31"
  shows "ldap_x_wc_to_utf8 True w count =
     (if w < 0 then (-1, []) else if length (utf8_enc w) \<le> count then (int (length (utf8_enc w)), utf8_enc w) else (0, []))"
    and "fst (ldap_x_wc_to_utf8 False w count) = (if w < 0 then -1 else int (length (utf8_enc w)))"
  by (simp_all add: ldap_x_wc_to_utf8_def utf8_enc_def ldap_x_ucs4_to_utf8_def Let_def)

text \<open>What decoding one character of text does in the conversion loops.\<close>

lemma charlen_enc:
  assumes c: "0 \<le> c" "c < 2 ^ 31"
  shows "LDAP_UTF8_CHARLEN (utf8_enc c @ rest) = length (utf8_enc c)"
proof -
  let ?l = "LDAP_UCS_UTF8LEN c"
  have "uint (octet_at (utf8_enc c @ rest) 0) = lead_base ?l + c div 64 ^ (?l - 1)"
    using utf8_enc_digits [OF c] lead_octet_range [OF c] by (simp add: Let_def uint_wb)
  then show ?thesis
    using length_class_conv [OF c, of "unat (octet_at (utf8_enc c @ rest) 0)"] length_utf8_enc [OF c(1)]
    by (simp add: charlen_lead)
qed

lemma decode_step:
  assumes "0 \<le> c" and "c < 2 ^ 31"
  shows "LDAP_UTF8_CHARLEN2 (utf8_enc c @ rest) = length (utf8_enc c)"
    and "continuation_loop (utf8_enc c @ rest) (length (utf8_enc c)) (Suc 0)
        (uint (octet_at (utf8_enc c @ rest) 0 AND utf8_mask ! length (utf8_enc c))) = Some c"
proof -
  let ?p = "utf8_enc c @ rest"
  have "?p \<noteq> []" using utf8_enc_not_Nil [OF assms] by simp
  then have d: "ldap_x_utf8_to_ucs4 ?p = c" using decode_iff_prefix [OF assms(1)] assms(2) by blast
  have "LDAP_UCS4_INVALID \<noteq> c" using assms(1) by (auto simp: LDAP_UCS4_INVALID_def)
  then have "LDAP_UTF8_CHARLEN2 ?p \<noteq> 0" and loop: "continuation_loop ?p (LDAP_UTF8_CHARLEN2 ?p) (Suc 0)
        (uint (octet_at ?p 0 AND utf8_mask ! LDAP_UTF8_CHARLEN2 ?p)) = Some c"
    using d by (auto simp: ldap_x_utf8_to_ucs4_def Let_def split: if_splits option.splits)
  then show l: "LDAP_UTF8_CHARLEN2 ?p = length (utf8_enc c)"
    using charlen_enc [OF assms] by (simp add: LDAP_UTF8_CHARLEN2_def Let_def split: if_splits)
  show "continuation_loop ?p (length (utf8_enc c)) (Suc 0)
        (uint (octet_at ?p 0 AND utf8_mask ! length (utf8_enc c))) = Some c"
    using loop by (simp only: l)
qed

lemma length_utf8_enc_bound: "0 \<le> c \<Longrightarrow> 0 < length (utf8_enc c) \<and> length (utf8_enc c) \<le> 6"
  by (simp add: length_utf8_enc LDAP_UCS_UTF8LEN_def)

lemma length_text_ge: "\<forall>w\<in>set ws. 0 \<le> w \<Longrightarrow> length ws \<le> length (utf8_text ws)"
proof (induction ws)
  case (Cons w ws)
  then have "length ws \<le> length (utf8_text ws)" "0 < length (utf8_enc w)" using length_utf8_enc_bound [of w] by auto
  then show ?case unfolding utf8_text_def by (simp del: length_greater_0_conv)
qed simp

lemma utf8s_to_wcs_run:
  assumes "utf8_chars_ok ws" and "i \<le> count" and "count \<le> length buf"
  shows "utf8s_to_wcs_loop (Some buf) (utf8_text ws @ 0 # junk) count i =
     Some (i + min (length ws) (count - i), Some (memcpy buf i (take (count - i) ws)))"
  using assms
proof (induction ws arbitrary: buf i)
  case Nil
  then show ?case by (subst utf8s_to_wcs_loop.simps) simp
next
  case (Cons w ws)
  have w: "0 \<le> w" "w < 2 ^ 31" "0 < w" and ok: "utf8_chars_ok ws" using Cons.prems(1) by auto
  let ?r = "utf8_text ws @ 0 # junk"
  show ?case
  proof (cases "i < count")
    case True
    have "utf8s_to_wcs_loop (Some buf) (utf8_text (w # ws) @ 0 # junk) count i
        = utf8s_to_wcs_loop (Some (buf[i := w])) ?r count (Suc i)"
      using True octet_at_text_0 [OF Cons.prems(1), of junk] decode_step [OF w(1,2), of ?r] length_utf8_enc_bound [OF w(1)]
      by (subst utf8s_to_wcs_loop.simps) simp
    also have "\<dots> = Some (Suc i + min (length ws) (count - Suc i), Some (memcpy (buf[i := w]) (Suc i) (take (count - Suc i) ws)))"
      using True Cons.prems(3) by (intro Cons.IH [OF ok]) simp_all
    also have "memcpy (buf[i := w]) (Suc i) (take (count - Suc i) ws) = memcpy buf i (take (count - i) (w # ws))"
    proof -
      have "count - i = Suc (count - Suc i)" using True by simp
      moreover have "take (Suc i) (buf[i := w]) = take i buf @ [w]"
        using True Cons.prems(3) by (simp add: take_Suc_conv_app_nth)
      ultimately show ?thesis by (simp add: memcpy_def)
    qed
    finally show ?thesis using True by (simp add: min_def) linarith
  next
    case False
    then show ?thesis using Cons.prems(2) by (subst utf8s_to_wcs_loop.simps) simp
  qed
qed


text \<open>The characters that are converted before the space runs out or an invalid one comes.\<close>

fun conv_prefix :: "nat \<Rightarrow> int list \<Rightarrow> int list" where
  "conv_prefix count [] = []"
| "conv_prefix count (w # ws) =
     (if 0 \<le> w \<and> length (utf8_enc w) \<le> count then w # conv_prefix (count - length (utf8_enc w)) ws else [])"

lemma conv_prefix_fits: "length (utf8_text (conv_prefix count ws)) \<le> count"
  by (induction count ws rule: conv_prefix.induct) auto

lemma conv_prefix_all:
  "\<forall>w\<in>set ws. 0 \<le> w \<Longrightarrow> length (utf8_text ws) \<le> count \<Longrightarrow> conv_prefix count ws = ws"
  by (induction count ws rule: conv_prefix.induct) auto

lemma memcpy_memcpy:
  assumes "i + length xs + length ys \<le> length buf"
  shows "memcpy (memcpy buf i xs) (i + length xs) ys = memcpy buf i (xs @ ys)"
  using assms by (simp add: memcpy_def ac_simps)

lemma wcs_conv_run:
  assumes "\<forall>w\<in>set ws. w \<noteq> 0 \<and> w < 2 ^ 31" and "p + count \<le> length buf" and "0 < n0"
  shows "\<exists>n. wcs_conv_loop buf p (ws @ 0 # junk) count n0 =
      (n, memcpy buf p (utf8_text (conv_prefix count ws)), p + length (utf8_text (conv_prefix count ws)),
       count - length (utf8_text (conv_prefix count ws)))
    \<and> (case drop (length (conv_prefix count ws)) ws of [] \<Rightarrow> 0 < n | r # _ \<Rightarrow> n = (if r < 0 then -1 else 0))"
  using assms
proof (induction ws arbitrary: buf p count n0)
  case Nil
  then show ?case by simp
next
  case (Cons w ws)
  have w: "w \<noteq> 0" "w < 2 ^ 31" using Cons.prems(1) by auto
  show ?case
  proof (cases "0 \<le> w \<and> length (utf8_enc w) \<le> count")
    case True
    let ?e = "utf8_enc w" and ?c = "count - length (utf8_enc w)"
    have fit: "length (utf8_text (conv_prefix ?c ws)) \<le> ?c" by (rule conv_prefix_fits)
    have pos: "0 < length ?e" using length_utf8_enc_bound True by blast
    obtain n where n: "wcs_conv_loop (memcpy buf p ?e) (p + length ?e) (ws @ 0 # junk) ?c (int (length ?e)) =
        (n, memcpy (memcpy buf p ?e) (p + length ?e) (utf8_text (conv_prefix ?c ws)),
         p + length ?e + length (utf8_text (conv_prefix ?c ws)), ?c - length (utf8_text (conv_prefix ?c ws)))"
      "case drop (length (conv_prefix ?c ws)) ws of [] \<Rightarrow> 0 < n | r # _ \<Rightarrow> n = (if r < 0 then -1 else 0)"
      using Cons.IH [of "p + length ?e" ?c "memcpy buf p ?e" "int (length ?e)"] Cons.prems(1,2) True pos by auto
    have "p + length ?e + length (utf8_text (conv_prefix ?c ws)) \<le> length buf"
      using fit Cons.prems(2) True by linarith
    then have "memcpy (memcpy buf p ?e) (p + length ?e) (utf8_text (conv_prefix ?c ws))
        = memcpy buf p (utf8_text (conv_prefix count (w # ws)))"
      using memcpy_memcpy [of p ?e "utf8_text (conv_prefix ?c ws)" buf] True by simp
    then have "wcs_conv_loop buf p ((w # ws) @ 0 # junk) count n0 =
        (n, memcpy buf p (utf8_text (conv_prefix count (w # ws))),
         p + length (utf8_text (conv_prefix count (w # ws))), count - length (utf8_text (conv_prefix count (w # ws))))"
      using n(1) w True pos by (simp add: wc_to_utf8_spec)
    then show ?thesis using n(2) True by auto
  next
    case False
    then show ?thesis using w by (auto simp: wc_to_utf8_spec)
  qed
qed

text \<open>
  C32: what \<^verbatim>\<open>ldap_x_wcs_to_utf8s\<close> leaves in its buffer, in every case.  It stores the encodings of the
  longest prefix that fits in \<open>count\<close> octets and holds no invalid character.  If that is the
  whole string it returns its length; if a character is invalid it returns -1; both with a 0 behind, when there is room.
  If a character does not fit, the rest of the \<open>count\<close> octets is filled with 0 and \<open>count\<close> is returned.  Nothing behind the
  \<open>count\<close> octets of the buffer is touched.  The buffer has fewer than \<open>2 ^ 31\<close> octets, so that the returned
  \<^verbatim>\<open>int\<close> is the length.
\<close>

theorem ldap_x_wcs_to_utf8s_result:
  assumes "\<forall>w\<in>set ws. w \<noteq> 0 \<and> w < 2 ^ 31" and "count \<le> length buf" and "count < 2 ^ 31"
  shows "let pre = conv_prefix count ws; t = utf8_text pre;
             out = (if length t < count then t @ 0 # drop (length t + 1) buf else t @ drop (length t) buf)
     in length t \<le> count \<and>
        ldap_x_wcs_to_utf8s (Some buf) (Some (ws @ 0 # junk)) count =
          (case drop (length pre) ws of
             [] \<Rightarrow> (int (length t), Some out)
           | r # _ \<Rightarrow> if r < 0 then (-1, Some out)
                    else (int count, Some (t @ replicate (count - length t) 0 @ drop count buf)))"
proof -
  let ?pre = "conv_prefix count ws"
  let ?t = "utf8_text ?pre"
  have fit: "length ?t \<le> count" by (rule conv_prefix_fits)
  obtain n where n: "wcs_conv_loop buf 0 (ws @ 0 # junk) count 1 = (n, memcpy buf 0 ?t, length ?t, count - length ?t)"
    "case drop (length ?pre) ws of [] \<Rightarrow> 0 < n | r # _ \<Rightarrow> n = (if r < 0 then -1 else 0)"
    using wcs_conv_run [OF assms(1), of 0 count buf 1 junk] assms(2) by auto
  have m0: "memcpy buf 0 ?t = ?t @ drop (length ?t) buf" by (simp add: memcpy_def)
  have z: "(?t @ drop (length ?t) buf)[length ?t := 0] = ?t @ 0 # drop (length ?t + 1) buf" if "length ?t < count"
    using that assms(2) by (simp add: list_update_append Cons_nth_drop_Suc [symmetric])
  have pad: "memcpy (?t @ drop (length ?t) buf) (length ?t) (replicate (count - length ?t) 0)
      = ?t @ replicate (count - length ?t) 0 @ drop count buf"
    using fit by (simp add: memcpy_def)
  have r: "c_to_int (int (length ?t)) = int (length ?t)" "c_to_int (int count) = int count"
    using assms(3) fit by (simp_all add: c_to_int_nat)
  show ?thesis using n fit r
    by (cases "drop (length ?pre) ws")
      (auto simp: ldap_x_wcs_to_utf8s_def Let_def m0 z pad)
qed

theorem ldap_x_wcs_to_utf8s_result_witness:
  "let pre = conv_prefix 4 [0x41, 0x20ac, 0x42]; t = utf8_text pre;
       out = (if length t < 4 then t @ 0 # drop (length t + 1) [9, 9, 9, 9, 9] else t @ drop (length t) [9, 9, 9, 9, 9])
     in length t \<le> 4 \<and>
        ldap_x_wcs_to_utf8s (Some [9, 9, 9, 9, 9]) (Some ([0x41, 0x20ac, 0x42] @ 0 # [])) 4 =
          (case drop (length pre) [0x41, 0x20ac, 0x42 :: int] of
             [] \<Rightarrow> (int (length t), Some out)
           | r # _ \<Rightarrow> if r < 0 then (-1, Some out)
                    else (int 4, Some (t @ replicate (4 - length t) 0 @ drop 4 [9, 9, 9, 9, 9])))"
  by (rule ldap_x_wcs_to_utf8s_result) simp_all

text \<open>
  C33: wide strings survive the round trip.  For every string of valid characters, a buffer
  of at least one octet more than its encoding and a wide buffer with room for the terminator:
  \<^verbatim>\<open>ldap_x_wcs_to_utf8s\<close> returns the length of the encoding, which is what it returns for a NULL buffer
  too, and \<^verbatim>\<open>ldap_x_utf8s_to_wcs\<close> reads the same characters back and terminates them.  The encoding has
  fewer than \<open>2 ^ 31\<close> octets, so that its length is an \<^verbatim>\<open>int\<close>.
\<close>

theorem wide_strings_round_trip:
  assumes ok: "utf8_chars_ok ws" and "length (utf8_text ws) < count" and "count \<le> length buf"
    and "length ws < wcount" and "wcount \<le> length wbuf" and short: "length (utf8_text ws) < 2 ^ 31"
  shows "ldap_x_wcs_to_utf8s None (Some (ws @ 0 # junk)) count = (int (length (utf8_text ws)), None)
     \<and> (\<exists>out. ldap_x_wcs_to_utf8s (Some buf) (Some (ws @ 0 # junk)) count = (int (length (utf8_text ws)), Some out)
          \<and> ldap_x_utf8s_to_wcs (Some wbuf) (Some out) wcount
              = (int (length ws), Some (ws @ 0 # drop (length ws + 1) wbuf)))"
proof -
  have ok': "\<forall>w\<in>set ws. w \<noteq> 0 \<and> w < 2 ^ 31" "\<forall>w\<in>set ws. 0 \<le> w" using ok by (auto simp: utf8_chars_ok_def)
  have "wcs_len_loop (ws @ 0 # junk) (c_to_int n) = c_to_int (n + int (length (utf8_text ws)))" for n
    using ok by (induction ws arbitrary: n) (auto simp: wc_to_utf8_spec(2) c_to_int_add add.assoc)
  from this [of 0] have len: "wcs_len_loop (ws @ 0 # junk) 0 = int (length (utf8_text ws))"
    using short by (simp add: c_to_int_id)
  have ret: "c_to_int (int (length ws)) = int (length ws)"
      "c_to_int (int (length (utf8_text ws))) = int (length (utf8_text ws))"
    using short length_text_ge [OF ok'(2)] by (simp_all add: c_to_int_nat)
  have all: "conv_prefix count ws = ws" using ok'(2) assms(2) by (simp add: conv_prefix_all)
  obtain n where n: "wcs_conv_loop buf 0 (ws @ 0 # junk) count 1
      = (n, memcpy buf 0 (utf8_text ws), length (utf8_text ws), count - length (utf8_text ws))" "0 < n"
    using wcs_conv_run [OF ok'(1), of 0 count buf 1 junk] assms(3) by (auto simp: all)
  let ?out = "utf8_text ws @ 0 # drop (length (utf8_text ws) + 1) buf"
  have "ldap_x_wcs_to_utf8s (Some buf) (Some (ws @ 0 # junk)) count = (int (length (utf8_text ws)), Some ?out)"
    using n assms(2,3) ret(2)
    by (simp add: ldap_x_wcs_to_utf8s_def memcpy_def list_update_append Cons_nth_drop_Suc [symmetric])
  moreover have "ldap_x_utf8s_to_wcs (Some wbuf) (Some ?out) wcount
      = (int (length ws), Some (ws @ 0 # drop (length ws + 1) wbuf))"
  proof (cases "ws = []")
    case True
    then show ?thesis using assms(4,5) by (cases wbuf) (simp_all add: ldap_x_utf8s_to_wcs_def)
  next
    case False
    have "utf8s_to_wcs_loop (Some wbuf) ?out wcount 0 = Some (length ws, Some (memcpy wbuf 0 ws))"
      using utf8s_to_wcs_run [OF ok, of 0 wcount wbuf] assms(4,5) by simp
    then show ?thesis using False octet_at_text_0 [OF ok] assms(4,5) ret(1)
      by (simp add: ldap_x_utf8s_to_wcs_def memcpy_def list_update_append Cons_nth_drop_Suc [symmetric])
  qed
  ultimately show ?thesis using len by (simp add: ldap_x_wcs_to_utf8s_def)
qed

theorem wide_strings_round_trip_witness:
  "ldap_x_wcs_to_utf8s None (Some ([0x41, 0x20ac] @ 0 # [])) 8 = (int (length (utf8_text [0x41, 0x20ac])), None)
     \<and> (\<exists>out. ldap_x_wcs_to_utf8s (Some (replicate 8 9)) (Some ([0x41, 0x20ac] @ 0 # [])) 8
              = (int (length (utf8_text [0x41, 0x20ac])), Some out)
          \<and> ldap_x_utf8s_to_wcs (Some [7, 7, 7, 7]) (Some out) 3
              = (int (length [0x41, 0x20ac :: int]), Some ([0x41, 0x20ac] @ 0 # drop (length [0x41, 0x20ac :: int] + 1) [7, 7, 7, 7])))"
  by (rule wide_strings_round_trip)
    (simp_all add: utf8_enc_def ldap_x_ucs4_to_utf8_def utf8_text_def)

end
