(* ===== verification/Spec2Isabelle.thy ===== *)
theory Spec2Isabelle
  imports Ldap_Prelude C_Strings Ber_Io Ber_Encode Ber_Writer Ber_Printf Ber_Decode Ber_Reader Ber_Codec
    Ber_Bounds Ber_Sequences Ber_Output Ber_Oid Ber_Format
    Avl Avl_Balance Avl_Order Avl_Walk Rewrite_Var
    Sorted_Ids Abandon Midl Midl_Sort Midl_Pairs
    Rdwr_Lock Runqueue Lutil_Base64 Lutil_Base64_Decode
    Sockbuf Ber_Input Ber_Reassembly Ber_Flush
    Ldap_Filter Filter_Text Filter_Encode Filter_Errors Ldap_Request Request_Encode
    Utf8 Utf8_Code Utf8_Strings Utf8_Bounds Utf8_Conv
begin

text \<open>
  \<^bold>\<open>Verification of the LDAP client library of ti.ldap.\<close>

  \<^verbatim>\<open>ti.ldap\<close> is a Titanium module that gives mobile applications an LDAP client.  Its iOS half is
  a thin Objective-C layer over a vendored OpenLDAP 2.4.33, which holds the logic of the program and
  all of its C code (\<^verbatim>\<open>src/iphone/openldap/openldap-2.4.33\<close>, whose \<^verbatim>\<open>libraries\<close> directory is meant by
  the file names below).  Requests are encoded with \<^verbatim>\<open>liblber\<close>, sent by \<^verbatim>\<open>libldap\<close> and answered
  with messages that \<^verbatim>\<open>liblber\<close> decodes; \<^verbatim>\<open>libldap\<close> keeps the state of the connection, and
  \<^verbatim>\<open>liblutil\<close>, \<^verbatim>\<open>librewrite\<close> and \<^verbatim>\<open>libmdb\<close> provide containers.

  \<^bold>\<open>Conventions.\<close>  Machine integers are words of their width where wrap-around matters
  (\<^verbatim>\<open>ber_len_t\<close>, \<^verbatim>\<open>ber_tag_t\<close> of 64 bits, \<^verbatim>\<open>ber_int_t\<close> of 32 bits, octets of 8 bits).  Others are \<open>int\<close> or \<open>nat\<close>.
  Where the C code then converts a length to \<^verbatim>\<open>int\<close> the model does so too (\<open>c_to_int\<close>, modulo \<open>2 ^ 32\<close>), and where an \<^verbatim>\<open>int\<close> sum may
  overflow with effect the model fails (\<open>c_int\<close>); a property that depends on lengths that fit has the bound among its assumptions, and
  each theory says where a counter or an index is a natural number that C keeps in an \<^verbatim>\<open>int\<close>.  A structure is a record with the fields of the C
  structure; a pointer into a buffer is an offset, a NULL pointer \<open>None\<close>, and an operation returns
  the updated state next to its return code.  The allocator is an argument (\<open>ma n\<close>: is a request for \<open>n\<close> octets
  granted?), and out-of-memory branches are branches of the model, except that \<^verbatim>\<open>ber_alloc_t\<close> and \<^verbatim>\<open>ber_dup\<close> stand for the
  granted case; \<^verbatim>\<open>ber_memalloc_x\<close> of \<^verbatim>\<open>liblber/memory.c\<close>, which refuses a request for 0 octets, is in \<open>Ldap_Prelude\<close>.  The callbacks of the C interface and the
  multibyte functions of the C library are arguments too.  A failing \<^verbatim>\<open>assert\<close> is an error value.  Logging, the debug level and
  memory contexts are left out.  Every loop is a structural recursion or a \<open>function\<close> with a measure, and the one loop that
  may run for ever a \<open>partial_function\<close>, so no fuel is needed anywhere.

  \<^bold>\<open>The encoder and decoder (\<^verbatim>\<open>liblber/io.c\<close>, \<^verbatim>\<open>encode.c\<close>, \<^verbatim>\<open>decode.c\<close>).\<close>
  \<open>Ber_Io\<close> has the record \<open>berelement\<close> of \<^verbatim>\<open>lber-int.h\<close> and the buffer operations, \<open>Ber_Encode\<close> and
  \<open>Ber_Decode\<close> the operations that write and read values, \<^verbatim>\<open>ber_printf\<close> and \<^verbatim>\<open>ber_scanf\<close> with their
  format interpreters included.  \<open>Ber_Writer\<close> and \<open>Ber_Reader\<close> describe what each operation does
  to a buffer.  \<open>Ber_Printf\<close>: \<^verbatim>\<open>ber_printf\<close> of a list of element trees yields their BER or DER encoding (C1).
  \<open>Ber_Codec\<close>: the locale \<open>ber_codec\<close> states the contract of a writer and a reader of one type,
  it is interpreted for integers, octet strings and null, and \<^verbatim>\<open>ber_scanf\<close> reads back what \<^verbatim>\<open>ber_printf\<close> wrote (C2).
  \<open>Ber_Bounds\<close>: on any input the decoder stays inside the message, and a failing \<^verbatim>\<open>ber_scanf\<close> leaves
  nothing to free (C3 to C5).  \<open>Ber_Sequences\<close>: in-place strings, walks over sequences, collected
  strings, bit strings (C6 to C9).  \<open>Ber_Output\<close>: writing is all or nothing, integer contents are shortest and
  prefix-free, runs of strings, and when flattening is safe (C10, C11, C14, C15).
  \<open>Ber_Oid\<close>: object identifiers, which are encoded as X.690 says and decoded to the same text (C36).  \<open>Ber_Format\<close> computes what a \<^verbatim>\<open>ber_printf\<close>
  call with an arbitrary format leaves behind, for the encoders of \<^verbatim>\<open>libldap\<close>.

  \<^bold>\<open>Input and output (\<^verbatim>\<open>liblber/sockbuf.c\<close>, \<^verbatim>\<open>ber_get_next\<close> and \<^verbatim>\<open>ber_flush2\<close> of \<^verbatim>\<open>io.c\<close>).\<close>
  \<open>Sockbuf\<close> has the input buffer and the read-ahead layer; the locale \<open>byte_stream\<close> is the contract of a layer that
  delivers the octets of the peer in order, and it is interpreted for a socket that delivers pieces and for the
  read-ahead layer over any such stream.  \<open>Ber_Input\<close> has \<^verbatim>\<open>ber_get_next\<close> with the header octets it keeps inside the
  element.  \<open>Ber_Reassembly\<close>: however a message is cut into pieces, calling again completes it (C34), and every header of more
  than nine octets runs into the final assertion (C35).  \<open>Ber_Flush\<close> is the output side, \<^verbatim>\<open>ber_flush2\<close> over \<^verbatim>\<open>ber_int_sb_write\<close>, whose loop over
  interrupted calls is a \<open>partial_function\<close>; the locale \<open>byte_sink\<close> is the contract of a write function.  What one peer flushes, the other
  reads (C21).

  \<^bold>\<open>AVL trees (\<^verbatim>\<open>liblutil/avl.c\<close>).\<close>
  \<open>Avl\<close> has the tree and all operations; the pointers kept on the way down are a path of steps.
  \<open>Avl_Balance\<close> shows that rebalancing keeps balance and height, \<open>Avl_Order\<close> that operations act
  as insertion into and deletion from the in-order list, in the locale \<open>avl_cmp\<close> of a comparison function,
  \<open>Avl_Walk\<close> has the properties of insertion, deletion, its parent stack, traversal (C16 to C20), iteration and freeing.

  \<^bold>\<open>Rewrite variables (\<^verbatim>\<open>librewrite/var.c\<close>).\<close>
  \<open>Rewrite_Var\<close> puts \<^verbatim>\<open>strcasecmp\<close> into that locale; setting a variable is an update of a map from
  names to values (C23), and inserting a duplicate removes the variable (C24).

  \<^bold>\<open>Abandoned operations (\<^verbatim>\<open>libldap/abandon.c\<close>, \<^verbatim>\<open>result.c\<close>).\<close>
  \<open>Sorted_Ids\<close> states the contract of a search in a sorted array as the locale \<open>sorted_search\<close>;
  \<open>Abandon\<close> has the bisection, insertion and deletion and interprets the locale for them.  The
  array with its users implements a set of message ids, up to the size where the bisection overflows (C25).

  \<^bold>\<open>ID lists (\<^verbatim>\<open>libmdb/midl.c\<close>).\<close>
  \<open>Midl\<close> has the compiled operations of the file over the memory of a list, in which an access outside the allocation is
  an error.  \<open>Midl_Sort\<close>: the quicksort with its explicit stack ends and sorts (C40).  Every piece on the stack stands for at
  least two entries, so 70 entries never need more than the 31 pieces the stack has room for; because of a slip in the choice of the piece
  to push there is no logarithmic bound.  \<open>Midl_Pairs\<close> interprets \<open>sorted_search\<close> a second time, for the lists of pairs, whose insertion keeps
  them sorted (C13), and shows where appending to a plain list stores behind its allocation.

  \<^bold>\<open>Reader/writer locks and run queue (\<^verbatim>\<open>libldap_r/rdwr.c\<close>, \<^verbatim>\<open>rq.c\<close>).\<close>
  \<open>Rdwr_Lock\<close> has the operations as atomic steps between waits, a step relation of the threads (fewer than \<open>2 ^ 31\<close>) that use one lock, with
  signals, broadcasts and spurious wake-ups, and its invariant: exclusion, exact counters, and no waiter asleep on a free lock (C12).
  \<open>Runqueue\<close>: the list of tasks, which rescheduling and removal keep in the order of the next run.

  \<^bold>\<open>Base64 (\<^verbatim>\<open>liblutil/base64.c\<close>).\<close>
  \<open>Lutil_Base64\<close> has both routines and shows that the writer produces the digits to the base 64 of each 24-bit group;
  \<open>Lutil_Base64_Decode\<close>: the reader accepts exactly such texts, up to blanks, and gives back the octets (C22).

  \<^bold>\<open>UTF-8 (\<^verbatim>\<open>libldap/utf-8.c\<close>, \<^verbatim>\<open>utf-8-conv.c\<close>).\<close>
  \<open>Utf8\<close> has the routines and tables.  \<open>Utf8_Code\<close> puts coder and decoder into base-64 arithmetic and
  shows that the decoder accepts exactly the shortest encodings; \<open>Utf8_Strings\<close> has the string routines and
  the tokenizer on encoded text (C26 to C28), \<open>Utf8_Bounds\<close> their behaviour on arbitrary octets, stepping and copying, and the
  conversion of fixed-width strings (C29 to C31).  \<open>Utf8_Conv\<close> has the wide-character and multibyte conversions
  (C32, C33).

  \<^bold>\<open>Search filters (\<^verbatim>\<open>libldap/filter.c\<close>, escaping in \<^verbatim>\<open>search.c\<close>).\<close>
  \<open>Ldap_Filter\<close> has every routine of the file; the recursion through parentheses is one mutually recursive function with a
  measure on the text left.  \<open>Filter_Text\<close> and \<open>Filter_Encode\<close>: filters as trees, their text and their encoding, and that the code writes the
  latter for the former (C37).  \<open>Filter_Errors\<close>: what is refused, and three things that should be (C39).

  \<^bold>\<open>Requests (\<^verbatim>\<open>libldap/sasl.c\<close>, \<^verbatim>\<open>search.c\<close>, \<^verbatim>\<open>compare.c\<close>, \<^verbatim>\<open>add.c\<close>, \<^verbatim>\<open>modify.c\<close>, \<^verbatim>\<open>delete.c\<close>, \<^verbatim>\<open>modrdn.c\<close>, \<^verbatim>\<open>extended.c\<close>,
  \<^verbatim>\<open>unbind.c\<close>, \<^verbatim>\<open>abandon.c\<close>, \<^verbatim>\<open>controls.c\<close>).\<close>
  \<open>Ldap_Request\<close> has the session handle, the controls and the ten operations, up to the finished message; what takes
  the message is an argument.  \<open>Request_Encode\<close>: the message each operation stands for, and that exactly its encoding is
  handed on (C38).

  \<^bold>\<open>Not modelled.\<close>  Of \<^verbatim>\<open>liblber\<close>: the stack of socket layers (\<^verbatim>\<open>sockbuf.c\<close>),
  memory debugging and options.  Of \<^verbatim>\<open>libldap\<close>: sending requests, results
  and referrals, names, URLs, schema and the values of controls; TLS, SASL and GSSAPI glue calls libraries
  that are not part of the sources.  The rest of \<^verbatim>\<open>libldap_r\<close> (thread pool, recursive
  mutexes), \<^verbatim>\<open>mdb.c\<close> and the rest of \<^verbatim>\<open>librewrite\<close> and \<^verbatim>\<open>liblutil\<close>.
  \<^verbatim>\<open>liblunicode\<close> consists of generated tables.  The clients, \<^verbatim>\<open>contrib\<close>, the OpenSSL headers and the
  Objective-C and Java layers are not C code of the library or only call it.
\<close>

end
